(* ===== verification/VTest_Prelude.thy ===== *)
theory VTest_Prelude
  imports Main "HOL-Library.Word"
begin

text \<open>
  The shared vocabulary of the development.

  \<^item> The machine types of the C sources: \<open>byte\<close> is \<open>uint8_t\<close>/\<open>char\<close>, \<open>u16\<close>, \<open>u32\<close> and
    \<open>u64\<close> are the unsigned integers of that width.  A C object seen through a pointer is the
    list of the bytes from the pointer to the end of the object, so that pointer arithmetic is
    \<open>drop\<close> and an access past the end is visible.
  \<^item> Faults.  The sources stop in three ways: an \<open>assert\<close>, \<open>AN\<close>, \<open>AZ\<close> or \<open>WRONG\<close> of
    \<open>vas.h\<close> fails, \<open>vtc_fatal\<close> ends the test case, or the C program has no meaning (a read
    or write outside of an object, a shift by the width of the type).  They are the values of
    \<open>fault\<close>, and a fallible operation returns \<open>'a res\<close>.
  \<^item> The generic facts about the result type, lists and words that the component theories use,
    collected in \<open>res_simps\<close>, \<open>okR_intros\<close> and \<open>bit_split\<close>.
\<close>

unbundle bit_operations_syntax

named_theorems res_simps "equations of the result combinators"
named_theorems bit_split "facts used by bitwise extensionality proofs"
named_theorems okR_intros "rules for results that are not a fault and satisfy a predicate"

subsection \<open>Machine types\<close>

type_synonym byte = "8 word"
type_synonym u16 = "16 word"
type_synonym u32 = "32 word"
type_synonym u64 = "64 word"

text \<open>A C string literal, without its terminating NUL.\<close>

definition cstr :: "string \<Rightarrow> byte list" where
  "cstr s = map of_char s"

text \<open>The digits that \<open>%u\<close> prints.\<close>

fun dec_nat :: "nat \<Rightarrow> byte list" where
  "dec_nat n = (if n < 10 then [of_nat (48 + n)] else dec_nat (n div 10) @ [of_nat (48 + n mod 10)])"

declare dec_nat.simps [simp del]

subsection \<open>Faults and results\<close>

datatype fault =
    AssertFail \<comment> \<open>\<open>VAS_Fail\<close>: the process aborts\<close>
  | Fatal \<comment> \<open>\<open>vtc_fatal\<close>: the test case fails\<close>
  | Undefined \<comment> \<open>undefined behaviour of C\<close>

type_synonym 'a res = "fault + 'a"

definition bindR :: "'a res \<Rightarrow> ('a \<Rightarrow> 'b res) \<Rightarrow> 'b res" where
  "bindR m f = (case m of Inl e \<Rightarrow> Inl e | Inr x \<Rightarrow> f x)"

definition guardR :: "fault \<Rightarrow> bool \<Rightarrow> 'a res \<Rightarrow> 'a res" where
  "guardR e b m = (if b then m else Inl e)"

definition nthR :: "'a list \<Rightarrow> nat \<Rightarrow> 'a res" where
  "nthR xs i = (if i < length xs then Inr (xs ! i) else Inl Undefined)"

definition updR :: "'a list \<Rightarrow> nat \<Rightarrow> 'a \<Rightarrow> 'a list res" where
  "updR xs i x = (if i < length xs then Inr (xs[i := x]) else Inl Undefined)"

text \<open>Evaluable form of \<open>m = Inl e\<close>, for results of types without executable equality.\<close>

definition faults :: "fault \<Rightarrow> 'a res \<Rightarrow> bool" where
  "faults e m = (case m of Inl f \<Rightarrow> f = e | Inr _ \<Rightarrow> False)"

lemma faults_iff: "faults e m \<longleftrightarrow> m = Inl e"
  by (auto simp: faults_def split: sum.split)

lemma bindR_simps [simp, res_simps]:
  "bindR (Inl e) f = Inl e"
  "bindR (Inr x) f = f x"
  by (simp_all add: bindR_def)

lemma guardR_True [simp, res_simps]: "b \<Longrightarrow> guardR e b m = m"
  and guardR_False [simp, res_simps]: "\<not> b \<Longrightarrow> guardR e b m = Inl e"
  by (simp_all add: guardR_def)

lemma guardR_Inr_iff: "guardR e b m = Inr x \<longleftrightarrow> b \<and> m = Inr x"
  by (simp add: guardR_def)

lemma bindR_Inr_iff: "bindR m f = Inr y \<longleftrightarrow> (\<exists>x. m = Inr x \<and> f x = Inr y)"
  by (cases m) simp_all

lemma bindR_assoc: "bindR (bindR m f) g = bindR m (\<lambda>x. bindR (f x) g)"
  by (cases m) simp_all

lemma bindR_Inr_right [simp]: "bindR m Inr = m"
  by (cases m) simp_all

lemma bindR_cong [fundef_cong]:
  "m = m' \<Longrightarrow> (\<And>x. m' = Inr x \<Longrightarrow> f x = f' x) \<Longrightarrow> bindR m f = bindR m' f'"
  by (cases m') simp_all

lemma guardR_cong [fundef_cong]:
  "b = b' \<Longrightarrow> e = e' \<Longrightarrow> (b' \<Longrightarrow> m = m') \<Longrightarrow> guardR e b m = guardR e' b' m'"
  by (simp add: guardR_def)

lemma nthR_in [simp, res_simps]: "i < length xs \<Longrightarrow> nthR xs i = Inr (xs ! i)"
  by (simp add: nthR_def)

lemma nthR_Inr_iff: "nthR xs i = Inr x \<longleftrightarrow> i < length xs \<and> x = xs ! i"
  by (auto simp: nthR_def)

lemmas res_iffs = bindR_Inr_iff guardR_Inr_iff nthR_Inr_iff

text \<open>
  \<open>okR P m\<close>: the operation ends without a fault and its result satisfies \<open>P\<close>.  The rules follow
  the structure of the program, so a proof that an operation keeps an invariant is one
  application of \<open>okR_intros\<close> and the side conditions of the calls.
\<close>

definition okR :: "('a \<Rightarrow> bool) \<Rightarrow> 'a res \<Rightarrow> bool" where
  "okR P m = (\<exists>x. m = Inr x \<and> P x)"

lemma okR_Inr_iff [simp]: "okR P (Inr x) = P x"
  by (simp add: okR_def)

lemma okR_Inl_iff [simp]: "\<not> okR P (Inl e)"
  by (simp add: okR_def)

lemma okR_Inr [okR_intros]: "P x \<Longrightarrow> okR P (Inr x)"
  by simp

lemma okR_bind [okR_intros]: "okR (\<lambda>x. okR P (f x)) m \<Longrightarrow> okR P (bindR m f)"
  by (auto simp: okR_def)

lemma okR_guard [okR_intros]: "b \<Longrightarrow> okR P m \<Longrightarrow> okR P (guardR e b m)"
  by simp

lemma okR_if [okR_intros]: "(b \<Longrightarrow> okR P m) \<Longrightarrow> (\<not> b \<Longrightarrow> okR P n) \<Longrightarrow> okR P (if b then m else n)"
  by simp

lemma okR_let [okR_intros]: "(\<And>x. x = a \<Longrightarrow> okR P (f x)) \<Longrightarrow> okR P (Let a f)"
  by simp

lemma okR_nth [okR_intros]: "i < length xs \<Longrightarrow> P (xs ! i) \<Longrightarrow> okR P (nthR xs i)"
  by simp

lemma okR_updR [okR_intros]: "i < length xs \<Longrightarrow> P (xs[i := x]) \<Longrightarrow> okR P (updR xs i x)"
  by (simp add: updR_def)

lemma okR_mono: "okR P m \<Longrightarrow> (\<And>x. P x \<Longrightarrow> Q x) \<Longrightarrow> okR Q m"
  by (auto simp: okR_def)

lemma okR_D: "okR P m \<Longrightarrow> \<exists>x. m = Inr x \<and> P x"
  by (simp add: okR_def)

lemma okR_chain: "okR P m \<Longrightarrow> (\<And>x. P x \<Longrightarrow> okR Q (f x)) \<Longrightarrow> okR Q (bindR m f)"
  by (auto simp: okR_def)

subsection \<open>Loops\<close>

text \<open>\<open>for (i = a; i < b; i++) body\<close> and \<open>for (i = a; i >= 0; i--) body\<close> over a state.\<close>

function forR :: "int \<Rightarrow> int \<Rightarrow> (int \<Rightarrow> 's \<Rightarrow> 's res) \<Rightarrow> 's \<Rightarrow> 's res" where
  "forR a b body s = (if a < b then bindR (body a s) (forR (a + 1) b body) else Inr s)"
  by pat_completeness auto
termination
  by (relation "measure (\<lambda>(a, b, _, _). nat (b - a))") auto

function for_downR :: "int \<Rightarrow> (int \<Rightarrow> 's \<Rightarrow> 's res) \<Rightarrow> 's \<Rightarrow> 's res" where
  "for_downR a body s = (if 0 \<le> a then bindR (body a s) (for_downR (a - 1) body) else Inr s)"
  by pat_completeness auto
termination
  by (relation "measure (\<lambda>(a, _, _). nat (a + 1))") auto

declare forR.simps [simp del] for_downR.simps [simp del]

text \<open>A loop that applies an operation to the elements of a list, one after the other.\<close>

fun foldR :: "('a \<Rightarrow> 's \<Rightarrow> 's res) \<Rightarrow> 'a list \<Rightarrow> 's \<Rightarrow> 's res" where
  "foldR f [] s = Inr s"
| "foldR f (x # xs) s = bindR (f x s) (foldR f xs)"

lemma forR_steps:
  assumes "I a s" and "a \<le> b"
    and "\<And>i s. a \<le> i \<Longrightarrow> i < b \<Longrightarrow> I i s \<Longrightarrow> okR (I (i + 1)) (body i s)"
  shows "okR (I b) (forR a b body s)"
  using assms
proof (induction a b body s rule: forR.induct)
  case (1 a b body s)
  show ?case
  proof (cases "a < b")
    case True
    have "okR (I (a + 1)) (body a s)" using 1 True by auto
    then obtain s' where s': "body a s = Inr s'" "I (a + 1) s'" by (auto simp: okR_def)
    have "okR (I b) (forR (a + 1) b body s')"
      by (rule 1(1)) (use True s' 1(4) in auto)
    then show ?thesis using True s' by (simp add: forR.simps [of a])
  next
    case False
    then show ?thesis using 1 by (simp add: forR.simps [of b])
  qed
qed

lemma forR_inv:
  assumes "Q s" and "\<And>i s. a \<le> i \<Longrightarrow> i < b \<Longrightarrow> Q s \<Longrightarrow> okR Q (body i s)"
  shows "okR Q (forR a b body s)"
proof (cases "a \<le> b")
  case True
  then show ?thesis using forR_steps [of "\<lambda>_. Q" a s b body] assms by simp
next
  case False
  then show ?thesis using assms by (simp add: forR.simps [of a])
qed

lemma for_downR_steps:
  assumes "I a s" and "- 1 \<le> a"
    and "\<And>i s. 0 \<le> i \<Longrightarrow> i \<le> a \<Longrightarrow> I i s \<Longrightarrow> okR (I (i - 1)) (body i s)"
  shows "okR (I (- 1)) (for_downR a body s)"
  using assms
proof (induction a body s rule: for_downR.induct)
  case (1 a body s)
  show ?case
  proof (cases "0 \<le> a")
    case True
    have "okR (I (a - 1)) (body a s)" using 1 True by auto
    then obtain s' where s': "body a s = Inr s'" "I (a - 1) s'" by (auto simp: okR_def)
    have "okR (I (- 1)) (for_downR (a - 1) body s')"
      by (rule 1(1)) (use True s' 1(4) in auto)
    then show ?thesis using True s' by (simp add: for_downR.simps [of a])
  next
    case False
    then have "a = - 1" using 1(3) by simp
    then show ?thesis using 1(2) by (simp add: for_downR.simps [of "- 1"])
  qed
qed

subsection \<open>Lists\<close>

text \<open>What \<open>memmove\<close> leaves: \<open>n\<close> elements of \<open>s\<close> from \<open>b\<close>, stored to \<open>d\<close> from \<open>a\<close>.\<close>

lemma nth_splice:
  assumes "a + n \<le> length d" "b + n \<le> length s" "i < length d"
  shows "(take a d @ take n (drop b s) @ drop (a + n) d) ! i =
    (if a \<le> i \<and> i < a + n then s ! (b + (i - a)) else d ! i)"
proof -
  have "length (take n (drop b s)) = n" "length (take a d) = a" using assms by simp_all
  then show ?thesis using assms by (auto simp: nth_append simp del: length_take)
qed

subsection \<open>Words\<close>

lemma unat_less_pow: "unat (w :: 'a :: len word) < 2 ^ LENGTH('a)"
  by (rule unsigned_less)

lemma unat_u32_less: "unat (w :: u32) < 2 ^ 32"
  and unat_u64_less: "unat (x :: u64) < 2 ^ 64"
  and unat_byte_less: "unat (b :: byte) < 256"
  using unat_less_pow [of w] unat_less_pow [of x] unat_less_pow [of b] by simp_all

lemma unat_of_nat_u32: "n < 2 ^ 32 \<Longrightarrow> unat (of_nat n :: u32) = n"
  by (simp add: unat_of_nat)

lemma unat_add_u32: "unat a + unat b < 2 ^ 32 \<Longrightarrow> unat (a + b :: u32) = unat a + unat b"
  by (simp add: unat_word_ariths)

lemma unat_sub_u32: "unat b \<le> unat a \<Longrightarrow> unat (a - b :: u32) = unat a - unat b"
  by (simp add: unat_sub word_le_nat_alt)

end
