(* ===== verification/Vend.thy ===== *)
theory Vend
  imports VTest_Prelude
begin

text \<open>
  \<open>lib/vend.h\<close>: the endian conversions.  A decoder reads the bytes at the pointer, an encoder
  overwrites them; both are undefined when the object ends before the last byte they touch.

  The interface the users of these functions rely on is the locale \<open>byte_codec\<close>: what was
  encoded is decoded again, an encoder changes exactly the \<open>width\<close> bytes at the pointer, and
  re-encoding a decoded value changes nothing.  It is interpreted for the four encoder/decoder
  pairs of the header.
\<close>

definition vbe16dec :: "byte list \<Rightarrow> u16 res" where
  "vbe16dec p = bindR (nthR p 0) (\<lambda>p0. bindR (nthR p 1) (\<lambda>p1.
     Inr (push_bit 8 (ucast p0) OR ucast p1)))"

definition vbe32dec :: "byte list \<Rightarrow> u32 res" where
  "vbe32dec p = bindR (nthR p 0) (\<lambda>p0. bindR (nthR p 1) (\<lambda>p1.
     bindR (nthR p 2) (\<lambda>p2. bindR (nthR p 3) (\<lambda>p3.
     Inr (push_bit 24 (ucast p0) OR push_bit 16 (ucast p1) OR push_bit 8 (ucast p2) OR
          ucast p3)))))"

definition vbe64dec :: "byte list \<Rightarrow> u64 res" where
  "vbe64dec p = bindR (vbe32dec p) (\<lambda>hi. bindR (vbe32dec (drop 4 p)) (\<lambda>lo.
     Inr (push_bit 32 (ucast hi) OR ucast lo)))"

definition vle32dec :: "byte list \<Rightarrow> u32 res" where
  "vle32dec p = bindR (nthR p 0) (\<lambda>p0. bindR (nthR p 1) (\<lambda>p1.
     bindR (nthR p 2) (\<lambda>p2. bindR (nthR p 3) (\<lambda>p3.
     Inr (push_bit 24 (ucast p3) OR push_bit 16 (ucast p2) OR push_bit 8 (ucast p1) OR
          ucast p0)))))"

text \<open>Storing a run of bytes at the pointer.\<close>

definition store :: "byte list \<Rightarrow> byte list \<Rightarrow> byte list res" where
  "store bs p = guardR Undefined (length bs \<le> length p) (Inr (bs @ drop (length bs) p))"

definition be16 :: "u16 \<Rightarrow> byte list" where
  "be16 u = [ucast (drop_bit 8 u AND 0xff), ucast (u AND 0xff)]"

definition be32 :: "u32 \<Rightarrow> byte list" where
  "be32 u = [ucast (drop_bit 24 u AND 0xff), ucast (drop_bit 16 u AND 0xff),
     ucast (drop_bit 8 u AND 0xff), ucast (u AND 0xff)]"

definition vbe16enc :: "byte list \<Rightarrow> u16 \<Rightarrow> byte list res" where
  "vbe16enc p u = store (be16 u) p"

definition vbe32enc :: "byte list \<Rightarrow> u32 \<Rightarrow> byte list res" where
  "vbe32enc p u = store (be32 u) p"

definition vbe64enc :: "byte list \<Rightarrow> u64 \<Rightarrow> byte list res" where
  "vbe64enc p u = bindR (vbe32enc p (ucast (drop_bit 32 u)))
     (\<lambda>p'. bindR (vbe32enc (drop 4 p') (ucast (u AND 0xffffffff))) (\<lambda>q. Inr (take 4 p' @ q)))"

definition vle16enc :: "byte list \<Rightarrow> u16 \<Rightarrow> byte list res" where
  "vle16enc p u = store (rev (be16 u)) p"

definition vle32enc :: "byte list \<Rightarrow> u32 \<Rightarrow> byte list res" where
  "vle32enc p u = store (rev (be32 u)) p"

subsection \<open>The contract of an encoder and its decoder\<close>

text \<open>
  \<open>wire u\<close> are the bytes that stand for \<open>u\<close>.  The laws say that the encoder stores exactly
  these bytes, that the decoder reads them back whatever follows, and that every run of
  \<open>width\<close> bytes is the wire form of the value it decodes to.
\<close>

locale byte_codec =
  fixes width :: nat
    and wire :: "'a \<Rightarrow> byte list"
    and enc :: "byte list \<Rightarrow> 'a \<Rightarrow> byte list res"
    and dec :: "byte list \<Rightarrow> 'a res"
  assumes length_wire: "length (wire u) = width"
    and enc_ok: "width \<le> length p \<Longrightarrow> enc p u = Inr (wire u @ drop width p)"
    and enc_short: "length p < width \<Longrightarrow> enc p u = Inl Undefined"
    and dec_wire: "dec (wire u @ r) = Inr u"
    and dec_ok: "width \<le> length p \<Longrightarrow> \<exists>u. dec p = Inr u \<and> take width p = wire u"
    and dec_short: "length p < width \<Longrightarrow> dec p = Inl Undefined"
begin

lemma enc_Inr_iff: "enc p u = Inr q \<longleftrightarrow> width \<le> length p \<and> q = wire u @ drop width p"
  using enc_ok [of p u] enc_short [of p u] by (cases "length p < width") auto

lemma dec_Inr_iff: "dec p = Inr u \<longleftrightarrow> width \<le> length p \<and> take width p = wire u"
proof (cases "length p < width")
  case True
  then show ?thesis using dec_short [of p] by simp
next
  case False
  then obtain v where "dec p = Inr v" "take width p = wire v" using dec_ok [of p] by auto
  moreover have "take width p = wire u \<Longrightarrow> dec p = Inr u"
    using dec_wire [of u "drop width p"] by (metis append_take_drop_id)
  ultimately show ?thesis using False by auto
qed

lemma dec_enc: "enc p u = Inr q \<Longrightarrow> dec (q @ r) = Inr u"
  by (simp add: enc_Inr_iff dec_wire)

lemma enc_dec: "dec p = Inr u \<Longrightarrow> enc p u = Inr p"
  by (auto simp: enc_Inr_iff dec_Inr_iff) (metis append_take_drop_id)

lemma enc_frame: "enc p u = Inr q \<Longrightarrow> length q = length p \<and> drop width q = drop width p"
  by (auto simp: enc_Inr_iff length_wire)

lemma exact:
  "width \<le> length p \<Longrightarrow> enc p u = Inr (wire u @ drop width p) \<and> dec (wire u @ drop width p) = Inr u \<and>
     (\<exists>w. dec p = Inr w \<and> enc p w = Inr p)"
  using dec_ok [of p] enc_dec [of p] by (simp add: enc_ok dec_wire) blast

lemma wire_inj: "wire u = wire v \<Longrightarrow> u = v"
  using dec_wire [of u "[]"] dec_wire [of v "[]"] by simp

end

subsection \<open>The pairs of the header satisfy the contract\<close>

lemma ff_mask [bit_split]:
  "(0xff :: u16) = mask 8" "(0xff :: u32) = mask 8" "(0xffffffff :: u64) = mask 32"
  by (simp_all add: mask_eq_exp_minus_1)

lemma bytes_u16 [simp]:
  fixes u :: u16
  shows "push_bit 8 (ucast (ucast (drop_bit 8 u AND 0xff) :: byte)) OR
    ucast (ucast (u AND 0xff) :: byte) = u"
  unfolding bit_split by (rule bit_word_eqI) (auto simp: bit_simps)

lemma bytes_u32 [simp]:
  fixes u :: u32
  shows "push_bit 24 (ucast (ucast (drop_bit 24 u AND 0xff) :: byte)) OR
    push_bit 16 (ucast (ucast (drop_bit 16 u AND 0xff) :: byte)) OR
    push_bit 8 (ucast (ucast (drop_bit 8 u AND 0xff) :: byte)) OR
    ucast (ucast (u AND 0xff) :: byte) = u"
proof (rule bit_word_eqI, goal_cases)
  case (1 n)
  then consider "n < 8" | "8 \<le> n" "n < 16" | "16 \<le> n" "n < 24" | "24 \<le> n" "n < 32" by force
  then show ?case by cases (auto simp: bit_split bit_simps less_diff_conv2)
qed

lemma u16_bytes [simp]:
  fixes p0 p1 :: byte
  defines "u \<equiv> push_bit 8 (ucast p0) OR ucast p1 :: u16"
  shows "ucast (drop_bit 8 u AND 0xff) = p0" "ucast (u AND 0xff) = p1"
  unfolding bit_split u_def
  by (rule bit_word_eqI; auto simp: bit_simps dest: bit_imp_le_length)+

lemma u32_bytes [simp]:
  fixes p0 p1 p2 p3 :: byte
  defines "u \<equiv> push_bit 24 (ucast p0) OR push_bit 16 (ucast p1) OR push_bit 8 (ucast p2) OR
    ucast p3 :: u32"
  shows "ucast (drop_bit 24 u AND 0xff) = p0" "ucast (drop_bit 16 u AND 0xff) = p1"
    "ucast (drop_bit 8 u AND 0xff) = p2" "ucast (u AND 0xff) = p3"
  unfolding bit_split u_def
  by (rule bit_word_eqI; auto simp: bit_simps dest: bit_imp_le_length)+

lemma store_ok: "length bs \<le> length p \<Longrightarrow> store bs p = Inr (bs @ drop (length bs) p)"
  and store_short: "length p < length bs \<Longrightarrow> store bs p = Inl Undefined"
  by (simp_all add: store_def)

declare drop_bit_or [simp del]

lemma drop4: "drop (Suc (Suc (Suc (Suc 0)))) p = drop 4 p"
  by (simp add: eval_nat_numeral)

lemma list2_cases: "2 \<le> length p \<Longrightarrow> \<exists>a b r. p = a # b # r"
  and list4_cases: "4 \<le> length p \<Longrightarrow> \<exists>a b c d r. p = a # b # c # d # r"
  by (auto simp: numeral_eq_Suc Suc_le_length_iff)

interpretation be16: byte_codec 2 be16 vbe16enc vbe16dec
proof (unfold_locales, goal_cases)
  case (5 p)
  then show ?case using list2_cases [of p] by (auto simp: vbe16dec_def be16_def)
qed (auto simp: be16_def vbe16enc_def vbe16dec_def store_def nthR_def bindR_def
       numeral_2_eq_2 split: sum.split)

interpretation be32: byte_codec 4 be32 vbe32enc vbe32dec
proof (unfold_locales, goal_cases)
  case (5 p)
  then show ?case using list4_cases [of p] by (auto simp: vbe32dec_def be32_def)
qed (auto simp: be32_def vbe32enc_def vbe32dec_def store_def nthR_def drop4)

interpretation le32: byte_codec 4 "\<lambda>u. rev (be32 u)" vle32enc vle32dec
proof (unfold_locales, goal_cases)
  case (5 p)
  then show ?case using list4_cases [of p] by (auto simp: vle32dec_def be32_def)
qed (auto simp: be32_def vle32enc_def vle32dec_def store_def nthR_def drop4)

definition be64 :: "u64 \<Rightarrow> byte list" where
  "be64 u = be32 (ucast (drop_bit 32 u)) @ be32 (ucast (u AND 0xffffffff))"

lemma halves_u64: "push_bit 32 (ucast (ucast (drop_bit 32 u) :: u32)) OR
    ucast (ucast (u AND 0xffffffff) :: u32) = u" for u :: u64
proof (rule bit_word_eqI, goal_cases)
  case (1 n)
  then show ?case by (cases "n < 32") (auto simp: bit_split bit_simps less_diff_conv2)
qed

lemma u64_halves:
  fixes hi lo :: u32
  defines "u \<equiv> push_bit 32 (ucast hi) OR ucast lo :: u64"
  shows "ucast (drop_bit 32 u) = hi" "ucast (u AND 0xffffffff) = lo"
  unfolding bit_split u_def
  by (rule bit_word_eqI; auto simp: bit_simps dest: bit_imp_le_length)+

interpretation be64: byte_codec 8 be64 vbe64enc vbe64dec
proof (unfold_locales, goal_cases)
  case (5 p)
  then have "4 \<le> length p" "4 \<le> length (drop 4 p)" by simp_all
  then obtain hi lo where "vbe32dec p = Inr hi" "vbe32dec (drop 4 p) = Inr lo"
    using be32.dec_ok by blast
  moreover from this 5 have "take 8 p = be32 hi @ be32 lo"
    using take_add [of 4 4 p] by (simp add: be32.dec_Inr_iff)
  ultimately show ?case by (simp add: vbe64dec_def be64_def u64_halves)
next
  case (6 p)
  show ?case
  proof (cases "vbe32dec p")
    case (Inr hi)
    with 6 show ?thesis by (simp add: vbe64dec_def be32.dec_short)
  next
    case (Inl e)
    with be32.dec_ok [of p] be32.dec_short [of p] show ?thesis
      by (cases "length p < 4") (auto simp: vbe64dec_def)
  qed
next
  case (3 p u)
  then show ?case
    by (cases "length p < 4") (simp_all add: vbe64enc_def be32.enc_short be32.enc_ok be32.length_wire)
qed (simp_all add: be64_def vbe64enc_def vbe64dec_def be32.length_wire be32.enc_ok
       be32.dec_wire halves_u64)

subsection \<open>The byte order\<close>

text \<open>The \<open>n\<close> bytes of a number, the most significant one first.\<close>

definition be_bytes :: "nat \<Rightarrow> nat \<Rightarrow> byte list" where
  "be_bytes n v = map (\<lambda>i. of_nat (v div 256 ^ i)) (rev [0..<n])"

lemma byte_at: "ucast (drop_bit n w AND mask 8) = (of_nat (unat w div 2 ^ n) :: byte)"
  by (rule bit_word_eqI) (auto simp: bit_simps dest: bit_imp_le_length simp flip: drop_bit_eq_div)

lemma be_bytes_add: "be_bytes (m + n) v = be_bytes m (v div 256 ^ n) @ be_bytes n v"
proof -
  have "[0..<m + n] = [0..<n] @ map (\<lambda>i. i + n) [0..<m]"
    using upt_add_eq_append [of 0 n m] by (simp add: add.commute map_add_upt)
  moreover have "v div 256 ^ (i + n) = v div 256 ^ n div 256 ^ i" for i
    by (simp add: power_add mult.commute flip: div_mult2_eq)
  ultimately show ?thesis by (simp add: be_bytes_def rev_map)
qed

lemma rev_upts: "rev [0..<2] = [1, 0]" "rev [0..<4] = [3, 2, 1, 0]"
  by code_simp+

lemma be16_bytes: "be16 u = be_bytes 2 (unat u)"
  using byte_at [of 0 u] byte_at [of 8 u]
  by (simp add: be16_def be_bytes_def bit_split rev_upts)

lemma be32_bytes: "be32 u = be_bytes 4 (unat u)"
  using byte_at [of 0 u] byte_at [of 8 u] byte_at [of 16 u] byte_at [of 24 u]
  by (simp add: be32_def be_bytes_def bit_split rev_upts)

lemma be_bytes_mod: "be_bytes n (v mod 256 ^ n) = be_bytes n v"
proof (unfold be_bytes_def, rule map_cong)
  fix i assume "i \<in> set (rev [0..<n])"
  then have i: "i < n" by simp
  show "(of_nat (v mod 256 ^ n div 256 ^ i) :: byte) = of_nat (v div 256 ^ i)"
  proof (rule bit_word_eqI)
    fix b assume "b < LENGTH(8)"
    then have b: "b < 8" by simp
    have "(256::nat) ^ k = 2 ^ (8 * k)" for k by (simp add: power_mult)
    then show "bit (of_nat (v mod 256 ^ n div 256 ^ i) :: byte) b = bit (of_nat (v div 256 ^ i) :: byte) b"
      using i b by (auto simp: bit_simps simp flip: drop_bit_eq_div take_bit_eq_mod)
  qed
qed simp

lemma be64_bytes: "be64 u = be_bytes 8 (unat u)"
proof -
  have "unat (ucast (drop_bit 32 u) :: u32) = unat u div 256 ^ 4"
  proof -
    have "unat u div 2 ^ 32 < 2 ^ 32" using unsigned_less [of u, where 'a = nat] by (simp add: less_mult_imp_div_less)
    moreover have "unat (drop_bit 32 u) = unat u div 2 ^ 32"
      by (simp only: unat_drop_bit_eq drop_bit_eq_div [of 32 "unat u"])
    ultimately show ?thesis by (simp add: unsigned_ucast_eq take_bit_nat_eq_self)
  qed
  moreover have "unat (ucast (u AND 0xffffffff) :: u32) = unat u mod 256 ^ 4"
    by (simp add: bit_split take_bit_eq_mod unsigned_ucast_eq unsigned_take_bit_eq unat_mod_distrib flip: take_bit_eq_mask)
  ultimately show ?thesis
    using be_bytes_add [of 4 4 "unat u"] be_bytes_mod [of 4 "unat u"] by (simp add: be64_def be32_bytes)
qed

lemma vle16enc_ok: "2 \<le> length p \<Longrightarrow> vle16enc p u = Inr (rev (be16 u) @ drop 2 p)"
  by (simp add: vle16enc_def store_def be16.length_wire)

text \<open>
  C24.  The conversions of \<open>vend.h\<close> use the byte order of their names and are exact inverses.  An
  encoder replaces the first bytes of the object by the bytes of the value, the most significant
  one first for the big-endian functions and last for the little-endian ones, and changes nothing
  else; the decoder reads this value back; and re-encoding what was decoded restores the object.
  (\<open>vle16dec\<close> is not compiled in, so \<open>vle16enc\<close> has no decoder.)
\<close>

theorem vend_roundtrip:
  "(2 \<le> length p \<longrightarrow> vbe16enc p a = Inr (be_bytes 2 (unat a) @ drop 2 p) \<and>
      vbe16dec (be_bytes 2 (unat a) @ drop 2 p) = Inr a \<and>
      (\<exists>w. vbe16dec p = Inr w \<and> vbe16enc p w = Inr p)) \<and>
   (4 \<le> length p \<longrightarrow> vbe32enc p b = Inr (be_bytes 4 (unat b) @ drop 4 p) \<and>
      vbe32dec (be_bytes 4 (unat b) @ drop 4 p) = Inr b \<and>
      (\<exists>w. vbe32dec p = Inr w \<and> vbe32enc p w = Inr p)) \<and>
   (8 \<le> length p \<longrightarrow> vbe64enc p c = Inr (be_bytes 8 (unat c) @ drop 8 p) \<and>
      vbe64dec (be_bytes 8 (unat c) @ drop 8 p) = Inr c \<and>
      (\<exists>w. vbe64dec p = Inr w \<and> vbe64enc p w = Inr p)) \<and>
   (4 \<le> length p \<longrightarrow> vle32enc p b = Inr (rev (be_bytes 4 (unat b)) @ drop 4 p) \<and>
      vle32dec (rev (be_bytes 4 (unat b)) @ drop 4 p) = Inr b \<and>
      (\<exists>w. vle32dec p = Inr w \<and> vle32enc p w = Inr p)) \<and>
   (2 \<le> length p \<longrightarrow> vle16enc p a = Inr (rev (be_bytes 2 (unat a)) @ drop 2 p))"
  unfolding be16_bytes [symmetric] be32_bytes [symmetric] be64_bytes [symmetric]
  using be16.exact [of p a] be32.exact [of p b] be64.exact [of p c] le32.exact [of p b] vle16enc_ok [of p a]
  by blast

theorem vend_roundtrip_witness:
  "vbe32enc (replicate 9 7) 0x01020304 = Inr [1, 2, 3, 4, 7, 7, 7, 7, 7] \<and>
   vle32enc (replicate 9 7) 0x01020304 = Inr [4, 3, 2, 1, 7, 7, 7, 7, 7] \<and>
   (\<exists>w. vbe64dec (replicate 9 7) = Inr w \<and> vbe64enc (replicate 9 7) w = Inr (replicate 9 7))"
proof -
  have "be_bytes 4 (unat (0x01020304 :: u32)) = [1, 2, 3, 4]" by (simp add: be_bytes_def rev_upts)
  moreover have "drop 4 (replicate 9 7) = [7, 7, 7, 7, 7 :: byte]" by (simp add: numeral_eq_Suc)
  ultimately show ?thesis using vend_roundtrip [of "replicate 9 7" 0 "0x01020304" 0] by simp
qed

end
