(* ===== verification/Bitpack.thy ===== *)
theory Bitpack
  imports VTest_Prelude "HOL-Library.Sublist"
begin

text \<open>
  Bit strings, and the 64-bit accumulator \<open>pack\<close> that \<open>huff_encode\<close> and \<open>huff_decode\<close> shift
  bits into and out of.  \<open>bits n v\<close> is the number \<open>v\<close> in \<open>n\<close> bits, most significant bit
  first.  \<open>pk L\<close> is the word whose top bits are \<open>L\<close> and whose other bits are zero; the lemmas
  say what each shift and mask of the source does to it.
\<close>

named_theorems pack_simps "the accumulator operations on bit strings"

definition bits :: "nat \<Rightarrow> nat \<Rightarrow> bool list" where
  "bits n v = map (bit v) (rev [0..<n])"

definition pk :: "bool list \<Rightarrow> u64" where
  "pk L = push_bit (64 - length L) (horner_sum of_bool 2 (rev L))"

definition bits_of_bytes :: "byte list \<Rightarrow> bool list" where
  "bits_of_bytes bs = concat (map (\<lambda>b. bits 8 (unat b)) bs)"

subsection \<open>Bit strings\<close>

lemma length_bits [simp]: "length (bits n v) = n"
  by (simp add: bits_def)

lemma nth_bits: "i < n \<Longrightarrow> bits n v ! i = bit v (n - 1 - i)"
  by (simp add: bits_def rev_nth)

lemma bits_0 [simp]: "bits 0 v = []"
  by (simp add: bits_def)

lemma bits_Suc: "bits (Suc n) v = bit v n # bits n v"
  by (simp add: bits_def)

lemma bits_inj:
  assumes "bits n v = bits n w" "v < 2 ^ n" "w < 2 ^ n"
  shows "v = w"
proof (rule bit_eqI)
  fix k
  show "bit v k = bit w k"
  proof (cases "k < n")
    case True
    then have "bit x k = bits n x ! (n - 1 - k)" for x by (simp add: nth_bits)
    then show ?thesis using assms(1) by simp
  next
    case False
    have "\<not> bit x k" if "x < 2 ^ n" for x :: nat
    proof -
      have "x < 2 ^ k" using that False by (meson less_le_trans not_less one_le_numeral power_increasing)
      then show ?thesis by (simp add: bit_iff_odd)
    qed
    then show ?thesis using assms(2,3) by simp
  qed
qed

lemma bit_concat_nat:
  assumes "w < 2 ^ n"
  shows "bit (v * 2 ^ n + w :: nat) k = (if k < n then bit w k else bit v (k - n))"
proof (cases "k < n")
  case True
  then have "(2::nat) ^ n = 2 ^ k * 2 ^ (n - k)" by (simp flip: power_add)
  then have "(v * 2 ^ n + w) div 2 ^ k = (w + 2 ^ k * (v * 2 ^ (n - k))) div 2 ^ k"
    by (simp add: algebra_simps)
  also have "\<dots> = v * 2 ^ (n - k) + w div 2 ^ k" by (subst div_mult_self2) simp_all
  finally have "(v * 2 ^ n + w) div 2 ^ k = v * 2 ^ (n - k) + w div 2 ^ k" .
  with True show ?thesis by (simp add: bit_iff_odd)
next
  case False
  then have "(2::nat) ^ k = 2 ^ n * 2 ^ (k - n)" by (simp flip: power_add)
  then have "(v * 2 ^ n + w) div 2 ^ k = (v * 2 ^ n + w) div 2 ^ n div 2 ^ (k - n)"
    by (simp add: div_mult2_eq)
  also have "(v * 2 ^ n + w) div 2 ^ n = v" using assms by simp
  finally show ?thesis using False by (simp add: bit_iff_odd)
qed

lemma bits_ones: "bits n (2 ^ n - 1) = replicate n True"
  by (rule nth_equalityI)
    (auto simp: nth_bits bit_mask_iff simp flip: mask_eq_exp_minus_1 [where ?'a = nat, simplified])

lemma bits_take: "n \<le> m \<Longrightarrow> take n (bits m v) = bits n (v div 2 ^ (m - n))"
  by (rule nth_equalityI) (auto simp: nth_bits bit_drop_bit_eq simp flip: drop_bit_eq_div)

lemma bits_append: "w < 2 ^ n \<Longrightarrow> bits m v @ bits n w = bits (m + n) (v * 2 ^ n + w)"
  by (rule nth_equalityI) (auto simp: nth_append nth_bits bit_concat_nat add.commute [of n m])

lemma length_bits_of_bytes [simp]: "length (bits_of_bytes bs) = 8 * length bs"
  by (induction bs) (simp_all add: bits_of_bytes_def)

lemma bits_of_bytes_simps [simp]:
  "bits_of_bytes [] = []"
  "bits_of_bytes (b # bs) = bits 8 (unat b) @ bits_of_bytes bs"
  "bits_of_bytes (bs @ cs) = bits_of_bytes bs @ bits_of_bytes cs"
  by (simp_all add: bits_of_bytes_def)

lemma bits_of_bytes_inj: "bits_of_bytes bs = bits_of_bytes cs \<Longrightarrow> bs = cs"
proof (induction bs arbitrary: cs)
  case Nil
  from arg_cong [OF Nil, of length] show ?case by simp
next
  case (Cons b bs)
  from arg_cong [OF Cons.prems, of length] obtain c ds where cs: "cs = c # ds"
    by (cases cs) auto
  with Cons.prems have "bits 8 (unat b) = bits 8 (unat c)" "bits_of_bytes bs = bits_of_bytes ds"
    by simp_all
  moreover from this(1) have "b = c"
    using bits_inj [of 8 "unat b" "unat c"] unat_byte_less [of b] unat_byte_less [of c]
    by (simp add: unsigned_word_eqI)
  ultimately show ?case using Cons.IH cs by blast
qed

subsection \<open>The accumulator\<close>

lemma bit_pk:
  "length L \<le> 64 \<Longrightarrow> bit (pk L) k \<longleftrightarrow> k < 64 \<and> 63 - k < length L \<and> L ! (63 - k)"
proof (cases "k < 64")
  case True
  assume l: "length L \<le> 64"
  show ?thesis
  proof (cases "64 - length L \<le> k")
    case True
    with l \<open>k < 64\<close> have "length L - Suc (k - (64 - length L)) = 63 - k" by simp
    with True l \<open>k < 64\<close> show ?thesis
      by (auto simp: pk_def bit_simps bit_horner_sum_bit_iff rev_nth)
  next
    case False
    with l \<open>k < 64\<close> show ?thesis by (auto simp: pk_def bit_simps)
  qed
qed (auto simp: pk_def bit_simps dest: bit_imp_le_length)

lemma pk_Nil [simp]: "pk [] = 0"
  by (simp add: pk_def)

lemma pk_or:
  assumes "length L + s \<le> 64" "unat v < 2 ^ s"
  shows "pk L OR push_bit (64 - (length L + s)) (ucast (v :: 'a :: len word)) = pk (L @ bits s (unat v))"
proof (rule bit_word_eqI, goal_cases)
  case (1 k)
  have hi: "\<not> bit v j" if "s \<le> j" for j
  proof
    assume "bit v j"
    then have "bit (unat v) j" by (simp add: bit_unsigned_iff bit_imp_le_length)
    moreover have "unat v < 2 ^ j"
      using assms(2) that by (meson less_le_trans one_le_numeral power_increasing)
    ultimately show False by (simp add: bit_iff_odd)
  qed
  show ?case
  proof (cases "63 - k < length L")
    case True
    then have "\<not> (64 - (length L + s) \<le> k \<and> bit v (k - (64 - (length L + s))))"
      using 1 assms(1) hi by auto
    with True 1 assms(1) show ?thesis
      by (auto simp: bit_simps bit_pk nth_append)
  next
    case False
    show ?thesis
    proof (cases "64 - (length L + s) \<le> k")
      case True
      then have "s - 1 - (63 - k - length L) = k - (64 - (length L + s))" "63 - k - length L < s"
        using False 1 assms(1) by auto
      with True False 1 assms(1) show ?thesis
        by (auto simp: bit_simps bit_pk nth_append nth_bits bit_unsigned_iff
            dest: bit_imp_le_length)
    next
      case lo: False
      with False 1 assms(1) show ?thesis
        by (auto simp: bit_simps bit_pk nth_append)
    qed
  qed
qed

lemma pk_push [pack_simps]:
  assumes "n \<le> length L" "length L \<le> 64"
  shows "push_bit n (pk L) = pk (drop n L)"
proof (rule bit_word_eqI, goal_cases)
  case (1 k)
  show ?case
  proof (cases "n \<le> k")
    case True
    then have "63 - (k - n) = n + (63 - k)" using 1 by simp
    with True 1 assms show ?thesis by (auto simp: bit_simps bit_pk)
  next
    case False
    with 1 assms show ?thesis by (auto simp: bit_simps bit_pk)
  qed
qed

lemma bits_pk_top:
  assumes "n \<le> 64" "length L \<le> 64"
  shows "bits n (unat (drop_bit (64 - n) (pk L))) = take n (L @ replicate n False)"
proof (rule nth_equalityI, goal_cases)
  case (2 i)
  then have i: "i < n" by simp
  then have "64 - n + (n - 1 - i) = 63 - i" "63 - (63 - i) = i" using assms by auto
  with i assms show ?case
    by (auto simp: nth_bits bit_unsigned_iff bit_drop_bit_eq bit_pk nth_append)
qed simp

lemma unat_drop_bit_less: "n \<le> 64 \<Longrightarrow> unat (drop_bit (64 - n) (w :: u64)) < 2 ^ n"
proof -
  assume n: "n \<le> 64"
  have "unat w < 2 ^ n * 2 ^ (64 - n)" using unat_u64_less [of w] n by (simp flip: power_add)
  then show ?thesis
    unfolding unat_drop_bit_eq by (simp add: drop_bit_eq_div less_mult_imp_div_less)
qed

lemma bits_pk_byte:
  assumes "8 \<le> length L" "length L \<le> 64"
  shows "bits 8 (unat (ucast (drop_bit 56 (pk L)) :: byte)) = take 8 L"
proof -
  have "unat (ucast (drop_bit 56 (pk L)) :: byte) = unat (drop_bit (64 - 8) (pk L))"
    using unat_drop_bit_less [of 8 "pk L"] by (simp add: unsigned_ucast_eq take_bit_nat_eq_self)
  then show ?thesis using bits_pk_top [of 8 L] assms by simp
qed

lemma pk_or_byte:
  assumes "length L \<le> 56"
  shows "pk L OR push_bit (56 - length L) (ucast (b :: byte)) = pk (L @ bits 8 (unat b))"
  using pk_or [of L 8 b] assms unat_byte_less [of b] by simp

end
