(* ===== verification/Huffman_Tables.thy ===== *)
theory Huffman_Tables
  imports Bitpack "HOL-Library.Multiset"
begin

text \<open>
  The Huffman code of HPACK as the repository has it twice: \<open>src/vtc_h2_enctbl.h\<close>, indexed by
  character, is the encoder's \<open>coding_table\<close>; \<open>src/tbl/vhp_huffman.h\<close>, sorted by code, is the
  input from which the build generates the decoder's tables.

  The lemmas show that the two agree and that the code is a prefix code.  The argument is the
  sorted file: written with 30 bits, each code begins where the one before it ends, so that the
  intervals of 30-bit strings that start with a given code are disjoint.
\<close>

type_synonym huff_entry = "int \<times> int \<times> int" \<comment> \<open>character, code, length of the code\<close>

definition enctbl :: "huff_entry list" where
  "enctbl = [
   (0, 0x1ff8, 13), (1, 0x7fffd8, 23), (2, 0xfffffe2, 28), (3, 0xfffffe3, 28), (4, 0xfffffe4, 28), (5, 0xfffffe5, 28),
   (6, 0xfffffe6, 28), (7, 0xfffffe7, 28), (8, 0xfffffe8, 28), (9, 0xffffea, 24), (10, 0x3ffffffc, 30), (11, 0xfffffe9, 28),
   (12, 0xfffffea, 28), (13, 0x3ffffffd, 30), (14, 0xfffffeb, 28), (15, 0xfffffec, 28), (16, 0xfffffed, 28), (17, 0xfffffee, 28),
   (18, 0xfffffef, 28), (19, 0xffffff0, 28), (20, 0xffffff1, 28), (21, 0xffffff2, 28), (22, 0x3ffffffe, 30), (23, 0xffffff3, 28),
   (24, 0xffffff4, 28), (25, 0xffffff5, 28), (26, 0xffffff6, 28), (27, 0xffffff7, 28), (28, 0xffffff8, 28), (29, 0xffffff9, 28),
   (30, 0xffffffa, 28), (31, 0xffffffb, 28), (32, 0x14, 6), (33, 0x3f8, 10), (34, 0x3f9, 10), (35, 0xffa, 12),
   (36, 0x1ff9, 13), (37, 0x15, 6), (38, 0xf8, 8), (39, 0x7fa, 11), (40, 0x3fa, 10), (41, 0x3fb, 10),
   (42, 0xf9, 8), (43, 0x7fb, 11), (44, 0xfa, 8), (45, 0x16, 6), (46, 0x17, 6), (47, 0x18, 6),
   (48, 0x0, 5), (49, 0x1, 5), (50, 0x2, 5), (51, 0x19, 6), (52, 0x1a, 6), (53, 0x1b, 6),
   (54, 0x1c, 6), (55, 0x1d, 6), (56, 0x1e, 6), (57, 0x1f, 6), (58, 0x5c, 7), (59, 0xfb, 8),
   (60, 0x7ffc, 15), (61, 0x20, 6), (62, 0xffb, 12), (63, 0x3fc, 10), (64, 0x1ffa, 13), (65, 0x21, 6),
   (66, 0x5d, 7), (67, 0x5e, 7), (68, 0x5f, 7), (69, 0x60, 7), (70, 0x61, 7), (71, 0x62, 7),
   (72, 0x63, 7), (73, 0x64, 7), (74, 0x65, 7), (75, 0x66, 7), (76, 0x67, 7), (77, 0x68, 7),
   (78, 0x69, 7), (79, 0x6a, 7), (80, 0x6b, 7), (81, 0x6c, 7), (82, 0x6d, 7), (83, 0x6e, 7),
   (84, 0x6f, 7), (85, 0x70, 7), (86, 0x71, 7), (87, 0x72, 7), (88, 0xfc, 8), (89, 0x73, 7),
   (90, 0xfd, 8), (91, 0x1ffb, 13), (92, 0x7fff0, 19), (93, 0x1ffc, 13), (94, 0x3ffc, 14), (95, 0x22, 6),
   (96, 0x7ffd, 15), (97, 0x3, 5), (98, 0x23, 6), (99, 0x4, 5), (100, 0x24, 6), (101, 0x5, 5),
   (102, 0x25, 6), (103, 0x26, 6), (104, 0x27, 6), (105, 0x6, 5), (106, 0x74, 7), (107, 0x75, 7),
   (108, 0x28, 6), (109, 0x29, 6), (110, 0x2a, 6), (111, 0x7, 5), (112, 0x2b, 6), (113, 0x76, 7),
   (114, 0x2c, 6), (115, 0x8, 5), (116, 0x9, 5), (117, 0x2d, 6), (118, 0x77, 7), (119, 0x78, 7),
   (120, 0x79, 7), (121, 0x7a, 7), (122, 0x7b, 7), (123, 0x7ffe, 15), (124, 0x7fc, 11), (125, 0x3ffd, 14),
   (126, 0x1ffd, 13), (127, 0xffffffc, 28), (128, 0xfffe6, 20), (129, 0x3fffd2, 22), (130, 0xfffe7, 20), (131, 0xfffe8, 20),
   (132, 0x3fffd3, 22), (133, 0x3fffd4, 22), (134, 0x3fffd5, 22), (135, 0x7fffd9, 23), (136, 0x3fffd6, 22), (137, 0x7fffda, 23),
   (138, 0x7fffdb, 23), (139, 0x7fffdc, 23), (140, 0x7fffdd, 23), (141, 0x7fffde, 23), (142, 0xffffeb, 24), (143, 0x7fffdf, 23),
   (144, 0xffffec, 24), (145, 0xffffed, 24), (146, 0x3fffd7, 22), (147, 0x7fffe0, 23), (148, 0xffffee, 24), (149, 0x7fffe1, 23),
   (150, 0x7fffe2, 23), (151, 0x7fffe3, 23), (152, 0x7fffe4, 23), (153, 0x1fffdc, 21), (154, 0x3fffd8, 22), (155, 0x7fffe5, 23),
   (156, 0x3fffd9, 22), (157, 0x7fffe6, 23), (158, 0x7fffe7, 23), (159, 0xffffef, 24), (160, 0x3fffda, 22), (161, 0x1fffdd, 21),
   (162, 0xfffe9, 20), (163, 0x3fffdb, 22), (164, 0x3fffdc, 22), (165, 0x7fffe8, 23), (166, 0x7fffe9, 23), (167, 0x1fffde, 21),
   (168, 0x7fffea, 23), (169, 0x3fffdd, 22), (170, 0x3fffde, 22), (171, 0xfffff0, 24), (172, 0x1fffdf, 21), (173, 0x3fffdf, 22),
   (174, 0x7fffeb, 23), (175, 0x7fffec, 23), (176, 0x1fffe0, 21), (177, 0x1fffe1, 21), (178, 0x3fffe0, 22), (179, 0x1fffe2, 21),
   (180, 0x7fffed, 23), (181, 0x3fffe1, 22), (182, 0x7fffee, 23), (183, 0x7fffef, 23), (184, 0xfffea, 20), (185, 0x3fffe2, 22),
   (186, 0x3fffe3, 22), (187, 0x3fffe4, 22), (188, 0x7ffff0, 23), (189, 0x3fffe5, 22), (190, 0x3fffe6, 22), (191, 0x7ffff1, 23),
   (192, 0x3ffffe0, 26), (193, 0x3ffffe1, 26), (194, 0xfffeb, 20), (195, 0x7fff1, 19), (196, 0x3fffe7, 22), (197, 0x7ffff2, 23),
   (198, 0x3fffe8, 22), (199, 0x1ffffec, 25), (200, 0x3ffffe2, 26), (201, 0x3ffffe3, 26), (202, 0x3ffffe4, 26), (203, 0x7ffffde, 27),
   (204, 0x7ffffdf, 27), (205, 0x3ffffe5, 26), (206, 0xfffff1, 24), (207, 0x1ffffed, 25), (208, 0x7fff2, 19), (209, 0x1fffe3, 21),
   (210, 0x3ffffe6, 26), (211, 0x7ffffe0, 27), (212, 0x7ffffe1, 27), (213, 0x3ffffe7, 26), (214, 0x7ffffe2, 27), (215, 0xfffff2, 24),
   (216, 0x1fffe4, 21), (217, 0x1fffe5, 21), (218, 0x3ffffe8, 26), (219, 0x3ffffe9, 26), (220, 0xffffffd, 28), (221, 0x7ffffe3, 27),
   (222, 0x7ffffe4, 27), (223, 0x7ffffe5, 27), (224, 0xfffec, 20), (225, 0xfffff3, 24), (226, 0xfffed, 20), (227, 0x1fffe6, 21),
   (228, 0x3fffe9, 22), (229, 0x1fffe7, 21), (230, 0x1fffe8, 21), (231, 0x7ffff3, 23), (232, 0x3fffea, 22), (233, 0x3fffeb, 22),
   (234, 0x1ffffee, 25), (235, 0x1ffffef, 25), (236, 0xfffff4, 24), (237, 0xfffff5, 24), (238, 0x3ffffea, 26), (239, 0x7ffff4, 23),
   (240, 0x3ffffeb, 26), (241, 0x7ffffe6, 27), (242, 0x3ffffec, 26), (243, 0x3ffffed, 26), (244, 0x7ffffe7, 27), (245, 0x7ffffe8, 27),
   (246, 0x7ffffe9, 27), (247, 0x7ffffea, 27), (248, 0x7ffffeb, 27), (249, 0xffffffe, 28), (250, 0x7ffffec, 27), (251, 0x7ffffed, 27),
   (252, 0x7ffffee, 27), (253, 0x7ffffef, 27), (254, 0x7fffff0, 27), (255, 0x3ffffee, 26), (0, 0x3fffffff, 30)
  ]"

text \<open>
  The lines of \<open>vhp_huffman.h\<close> in their order, grouped by what is left of the code when the bits
  of its last byte are dropped.
\<close>

definition vhp_chunks :: "(int \<times> huff_entry list) list" where
  "vhp_chunks = [
    (0x0, [
     (0x30, 0x0, 5), (0x31, 0x1, 5), (0x32, 0x2, 5), (0x61, 0x3, 5), (0x63, 0x4, 5),
     (0x65, 0x5, 5), (0x69, 0x6, 5), (0x6f, 0x7, 5), (0x73, 0x8, 5), (0x74, 0x9, 5),
     (0x20, 0x14, 6), (0x25, 0x15, 6), (0x2d, 0x16, 6), (0x2e, 0x17, 6), (0x2f, 0x18, 6),
     (0x33, 0x19, 6), (0x34, 0x1a, 6), (0x35, 0x1b, 6), (0x36, 0x1c, 6), (0x37, 0x1d, 6),
     (0x38, 0x1e, 6), (0x39, 0x1f, 6), (0x3d, 0x20, 6), (0x41, 0x21, 6), (0x5f, 0x22, 6),
     (0x62, 0x23, 6), (0x64, 0x24, 6), (0x66, 0x25, 6), (0x67, 0x26, 6), (0x68, 0x27, 6),
     (0x6c, 0x28, 6), (0x6d, 0x29, 6), (0x6e, 0x2a, 6), (0x70, 0x2b, 6), (0x72, 0x2c, 6),
     (0x75, 0x2d, 6), (0x3a, 0x5c, 7), (0x42, 0x5d, 7), (0x43, 0x5e, 7), (0x44, 0x5f, 7),
     (0x45, 0x60, 7), (0x46, 0x61, 7), (0x47, 0x62, 7), (0x48, 0x63, 7), (0x49, 0x64, 7),
     (0x4a, 0x65, 7), (0x4b, 0x66, 7), (0x4c, 0x67, 7), (0x4d, 0x68, 7), (0x4e, 0x69, 7),
     (0x4f, 0x6a, 7), (0x50, 0x6b, 7), (0x51, 0x6c, 7), (0x52, 0x6d, 7), (0x53, 0x6e, 7),
     (0x54, 0x6f, 7), (0x55, 0x70, 7), (0x56, 0x71, 7), (0x57, 0x72, 7), (0x59, 0x73, 7),
     (0x6a, 0x74, 7), (0x6b, 0x75, 7), (0x71, 0x76, 7), (0x76, 0x77, 7), (0x77, 0x78, 7),
     (0x78, 0x79, 7), (0x79, 0x7a, 7), (0x7a, 0x7b, 7), (0x26, 0xf8, 8), (0x2a, 0xf9, 8),
     (0x2c, 0xfa, 8), (0x3b, 0xfb, 8), (0x58, 0xfc, 8), (0x5a, 0xfd, 8)]),
    (0xfe, [
     (0x21, 0x3f8, 10), (0x22, 0x3f9, 10), (0x28, 0x3fa, 10), (0x29, 0x3fb, 10)]),
    (0xff, [
     (0x3f, 0x3fc, 10), (0x27, 0x7fa, 11), (0x2b, 0x7fb, 11), (0x7c, 0x7fc, 11), (0x23, 0xffa, 12),
     (0x3e, 0xffb, 12), (0x0, 0x1ff8, 13), (0x24, 0x1ff9, 13), (0x40, 0x1ffa, 13), (0x5b, 0x1ffb, 13),
     (0x5d, 0x1ffc, 13), (0x7e, 0x1ffd, 13), (0x5e, 0x3ffc, 14), (0x7d, 0x3ffd, 14), (0x3c, 0x7ffc, 15),
     (0x60, 0x7ffd, 15), (0x7b, 0x7ffe, 15)]),
    (0xfffe, [
     (0x5c, 0x7fff0, 19), (0xc3, 0x7fff1, 19), (0xd0, 0x7fff2, 19), (0x80, 0xfffe6, 20), (0x82, 0xfffe7, 20),
     (0x83, 0xfffe8, 20), (0xa2, 0xfffe9, 20), (0xb8, 0xfffea, 20), (0xc2, 0xfffeb, 20), (0xe0, 0xfffec, 20),
     (0xe2, 0xfffed, 20), (0x99, 0x1fffdc, 21), (0xa1, 0x1fffdd, 21), (0xa7, 0x1fffde, 21), (0xac, 0x1fffdf, 21)]),
    (0xffff, [
     (0xb0, 0x1fffe0, 21), (0xb1, 0x1fffe1, 21), (0xb3, 0x1fffe2, 21), (0xd1, 0x1fffe3, 21), (0xd8, 0x1fffe4, 21),
     (0xd9, 0x1fffe5, 21), (0xe3, 0x1fffe6, 21), (0xe5, 0x1fffe7, 21), (0xe6, 0x1fffe8, 21), (0x81, 0x3fffd2, 22),
     (0x84, 0x3fffd3, 22), (0x85, 0x3fffd4, 22), (0x86, 0x3fffd5, 22), (0x88, 0x3fffd6, 22), (0x92, 0x3fffd7, 22),
     (0x9a, 0x3fffd8, 22), (0x9c, 0x3fffd9, 22), (0xa0, 0x3fffda, 22), (0xa3, 0x3fffdb, 22), (0xa4, 0x3fffdc, 22),
     (0xa9, 0x3fffdd, 22), (0xaa, 0x3fffde, 22), (0xad, 0x3fffdf, 22), (0xb2, 0x3fffe0, 22), (0xb5, 0x3fffe1, 22),
     (0xb9, 0x3fffe2, 22), (0xba, 0x3fffe3, 22), (0xbb, 0x3fffe4, 22), (0xbd, 0x3fffe5, 22), (0xbe, 0x3fffe6, 22),
     (0xc4, 0x3fffe7, 22), (0xc6, 0x3fffe8, 22), (0xe4, 0x3fffe9, 22), (0xe8, 0x3fffea, 22), (0xe9, 0x3fffeb, 22),
     (0x1, 0x7fffd8, 23), (0x87, 0x7fffd9, 23), (0x89, 0x7fffda, 23), (0x8a, 0x7fffdb, 23), (0x8b, 0x7fffdc, 23),
     (0x8c, 0x7fffdd, 23), (0x8d, 0x7fffde, 23), (0x8f, 0x7fffdf, 23), (0x93, 0x7fffe0, 23), (0x95, 0x7fffe1, 23),
     (0x96, 0x7fffe2, 23), (0x97, 0x7fffe3, 23), (0x98, 0x7fffe4, 23), (0x9b, 0x7fffe5, 23), (0x9d, 0x7fffe6, 23),
     (0x9e, 0x7fffe7, 23), (0xa5, 0x7fffe8, 23), (0xa6, 0x7fffe9, 23), (0xa8, 0x7fffea, 23), (0xae, 0x7fffeb, 23),
     (0xaf, 0x7fffec, 23), (0xb4, 0x7fffed, 23), (0xb6, 0x7fffee, 23), (0xb7, 0x7fffef, 23), (0xbc, 0x7ffff0, 23),
     (0xbf, 0x7ffff1, 23), (0xc5, 0x7ffff2, 23), (0xe7, 0x7ffff3, 23), (0xef, 0x7ffff4, 23), (0x9, 0xffffea, 24),
     (0x8e, 0xffffeb, 24), (0x90, 0xffffec, 24), (0x91, 0xffffed, 24), (0x94, 0xffffee, 24), (0x9f, 0xffffef, 24),
     (0xab, 0xfffff0, 24), (0xce, 0xfffff1, 24), (0xd7, 0xfffff2, 24), (0xe1, 0xfffff3, 24), (0xec, 0xfffff4, 24),
     (0xed, 0xfffff5, 24)]),
    (0xfffff6, [
     (0xc7, 0x1ffffec, 25), (0xcf, 0x1ffffed, 25)]),
    (0xfffff7, [
     (0xea, 0x1ffffee, 25), (0xeb, 0x1ffffef, 25)]),
    (0xfffff8, [
     (0xc0, 0x3ffffe0, 26), (0xc1, 0x3ffffe1, 26), (0xc8, 0x3ffffe2, 26), (0xc9, 0x3ffffe3, 26)]),
    (0xfffff9, [
     (0xca, 0x3ffffe4, 26), (0xcd, 0x3ffffe5, 26), (0xd2, 0x3ffffe6, 26), (0xd5, 0x3ffffe7, 26)]),
    (0xfffffa, [
     (0xda, 0x3ffffe8, 26), (0xdb, 0x3ffffe9, 26), (0xee, 0x3ffffea, 26), (0xf0, 0x3ffffeb, 26)]),
    (0xfffffb, [
     (0xf2, 0x3ffffec, 26), (0xf3, 0x3ffffed, 26), (0xff, 0x3ffffee, 26), (0xcb, 0x7ffffde, 27), (0xcc, 0x7ffffdf, 27)]),
    (0xfffffc, [
     (0xd3, 0x7ffffe0, 27), (0xd4, 0x7ffffe1, 27), (0xd6, 0x7ffffe2, 27), (0xdd, 0x7ffffe3, 27), (0xde, 0x7ffffe4, 27),
     (0xdf, 0x7ffffe5, 27), (0xf1, 0x7ffffe6, 27), (0xf4, 0x7ffffe7, 27)]),
    (0xfffffd, [
     (0xf5, 0x7ffffe8, 27), (0xf6, 0x7ffffe9, 27), (0xf7, 0x7ffffea, 27), (0xf8, 0x7ffffeb, 27), (0xfa, 0x7ffffec, 27),
     (0xfb, 0x7ffffed, 27), (0xfc, 0x7ffffee, 27), (0xfd, 0x7ffffef, 27)]),
    (0xfffffe, [
     (0xfe, 0x7fffff0, 27), (0x2, 0xfffffe2, 28), (0x3, 0xfffffe3, 28), (0x4, 0xfffffe4, 28), (0x5, 0xfffffe5, 28),
     (0x6, 0xfffffe6, 28), (0x7, 0xfffffe7, 28), (0x8, 0xfffffe8, 28), (0xb, 0xfffffe9, 28), (0xc, 0xfffffea, 28),
     (0xe, 0xfffffeb, 28), (0xf, 0xfffffec, 28), (0x10, 0xfffffed, 28), (0x11, 0xfffffee, 28), (0x12, 0xfffffef, 28)]),
    (0xffffff, [
     (0x13, 0xffffff0, 28), (0x14, 0xffffff1, 28), (0x15, 0xffffff2, 28), (0x17, 0xffffff3, 28), (0x18, 0xffffff4, 28),
     (0x19, 0xffffff5, 28), (0x1a, 0xffffff6, 28), (0x1b, 0xffffff7, 28), (0x1c, 0xffffff8, 28), (0x1d, 0xffffff9, 28),
     (0x1e, 0xffffffa, 28), (0x1f, 0xffffffb, 28), (0x7f, 0xffffffc, 28), (0xdc, 0xffffffd, 28), (0xf9, 0xffffffe, 28),
     (0xa, 0x3ffffffc, 30), (0xd, 0x3ffffffd, 30), (0x16, 0x3ffffffe, 30)])]"

definition vhp_huffman :: "huff_entry list" where
  "vhp_huffman = concat (map snd vhp_chunks)"

record symbol =
  sym_val :: u32
  sym_size :: nat

definition coding_table :: "symbol list" where
  "coding_table = map (\<lambda>(i, v, l). \<lparr>sym_val = word_of_int v, sym_size = nat l\<rparr>) enctbl
     @ [\<lparr>sym_val = 0, sym_size = 0\<rparr>]"

text \<open>The code of a character as a bit string.\<close>

definition code :: "byte \<Rightarrow> bool list" where
  "code b = (let s = coding_table ! unat b in bits (sym_size s) (unat (sym_val s)))"

subsection \<open>Checks of the tables\<close>

fun chain :: "int \<Rightarrow> huff_entry list \<Rightarrow> bool" where
  "chain n [] = True"
| "chain n ((c, v, l) # es) =
     (v * 2 ^ nat (30 - l) = n \<and> 5 \<le> l \<and> l \<le> 30 \<and> chain ((v + 1) * 2 ^ nat (30 - l)) es)"

lemma vhp_huffman_chain: "chain 0 vhp_huffman"
  by code_simp

lemma enctbl_vhp: "sort_key fst vhp_huffman = take 256 enctbl"
  by code_simp

lemma enctbl_chars: "map fst (take 256 enctbl) = map int [0..<256]"
  by code_simp

lemma enctbl_bounds:
  "list_all (\<lambda>(c, v, l). 5 \<le> l \<and> l \<le> 30 \<and> 0 \<le> v \<and> v < 2 ^ nat l - 1) (take 256 enctbl)"
  by code_simp

lemma length_enctbl: "length enctbl = 257"
  by (simp add: enctbl_def)

subsection \<open>The code is a prefix code\<close>

definition lo :: "huff_entry \<Rightarrow> int" where
  "lo e = (case e of (c, v, l) \<Rightarrow> v * 2 ^ nat (30 - l))"

definition hi :: "huff_entry \<Rightarrow> int" where
  "hi e = (case e of (c, v, l) \<Rightarrow> (v + 1) * 2 ^ nat (30 - l))"

lemma lo_less_hi: "lo e < hi e"
  by (cases e) (simp add: lo_def hi_def)

lemma chain_lower: "chain n es \<Longrightarrow> e \<in> set es \<Longrightarrow> n \<le> lo e"
proof (induction n es rule: chain.induct)
  case (2 n c v l es)
  have "n \<le> hi (c, v, l)" using 2(2) lo_less_hi [of "(c, v, l)"] by (simp add: lo_def)
  with 2 show ?case by (cases "e = (c, v, l)") (auto simp: lo_def hi_def)
qed simp

lemma chain_disjoint:
  "chain n es \<Longrightarrow> e \<in> set es \<Longrightarrow> e' \<in> set es \<Longrightarrow> e \<noteq> e' \<Longrightarrow> hi e \<le> lo e' \<or> hi e' \<le> lo e"
proof (induction n es rule: chain.induct)
  case (2 n c v l es)
  have ch: "chain (hi (c, v, l)) es" using 2(2) by (simp add: hi_def)
  consider "e \<in> set es" "e' \<in> set es" | "e = (c, v, l)" "e' \<in> set es" | "e' = (c, v, l)" "e \<in> set es"
    using 2(3-5) by auto
  then show ?case
  proof cases
    case 1
    with 2 show ?thesis by simp
  next
    case 2
    then show ?thesis using chain_lower [OF ch] by blast
  next
    case 3
    then show ?thesis using chain_lower [OF ch] by blast
  qed
qed simp

definition entry :: "byte \<Rightarrow> huff_entry" where
  "entry b = enctbl ! unat b"

lemma entry_take: "entry b = take 256 enctbl ! unat b" "unat b < length (take 256 enctbl)"
  using unat_byte_less [of b] by (simp_all add: entry_def length_enctbl)

lemma entry_vhp: "entry b \<in> set vhp_huffman"
proof -
  have "entry b \<in> set (take 256 enctbl)" using entry_take [of b] by (metis nth_mem)
  then show ?thesis by (simp flip: enctbl_vhp)
qed

lemma fst_entry: "fst (entry b) = int (unat b)"
proof -
  have "fst (entry b) = map fst (take 256 enctbl) ! unat b"
    using entry_take [of b] by (metis nth_map)
  also have "\<dots> = map int [0..<256] ! unat b" by (simp only: enctbl_chars)
  also have "\<dots> = int (unat b)" using unat_byte_less [of b] by (subst nth_map) simp_all
  finally show ?thesis .
qed

lemma entry_bounds:
  assumes "entry b = (c, v, l)"
  shows "5 \<le> l" "l \<le> 30" "0 \<le> v" "v < 2 ^ nat l - 1"
proof -
  have "entry b \<in> set (take 256 enctbl)" using entry_take [of b] by (metis nth_mem)
  then have "5 \<le> l \<and> l \<le> 30 \<and> 0 \<le> v \<and> v < 2 ^ nat l - 1"
    using enctbl_bounds assms by (auto simp: list_all_iff)
  then show "5 \<le> l" "l \<le> 30" "0 \<le> v" "v < 2 ^ nat l - 1" by simp_all
qed

lemma coding_table_nth:
  assumes "entry b = (c, v, l)"
  shows "sym_size (coding_table ! unat b) = nat l" "unat (sym_val (coding_table ! unat b)) = nat v"
proof -
  have "unat b < length enctbl" using unat_byte_less [of b] by (simp add: length_enctbl)
  then have eq: "coding_table ! unat b = \<lparr>sym_val = word_of_int v, sym_size = nat l\<rparr>"
    using assms by (simp add: coding_table_def nth_append entry_def)
  then show "sym_size (coding_table ! unat b) = nat l" by simp
  have "(2::int) ^ nat l \<le> 2 ^ 30" using entry_bounds [OF assms] by (intro power_increasing) auto
  then have "v < 2 ^ 32" using entry_bounds [OF assms] by simp
  with entry_bounds(3) [OF assms] eq show "unat (sym_val (coding_table ! unat b)) = nat v"
    by (simp add: unsigned_of_int take_bit_int_eq_self)
qed

lemma size_bounds:
  fixes b :: byte
  shows "5 \<le> sym_size (coding_table ! unat b)" "sym_size (coding_table ! unat b) \<le> 30"
  "unat (sym_val (coding_table ! unat b)) + 1 < 2 ^ sym_size (coding_table ! unat b)"
proof -
  obtain c v l where e: "entry b = (c, v, l)" by (metis prod_cases3)
  note bd = entry_bounds [OF e] and tn = coding_table_nth [OF e]
  show "5 \<le> sym_size (coding_table ! unat b)" "sym_size (coding_table ! unat b) \<le> 30"
    using bd tn by simp_all
  have "int (nat v + 1) < int (2 ^ nat l)" using bd by simp
  then show "unat (sym_val (coding_table ! unat b)) + 1 < 2 ^ sym_size (coding_table ! unat b)"
    unfolding tn by linarith
qed

lemma length_code: "length (code b) = sym_size (coding_table ! unat b)"
  by (simp add: code_def Let_def)

lemma code_length_bounds: "5 \<le> length (code b)" "length (code b) \<le> 30"
  using size_bounds by (simp_all add: length_code)

lemma bits_prefix_div:
  assumes "prefix (bits l v) (bits l' v')" "v < 2 ^ l" "v' < 2 ^ l'"
  shows "l \<le> l' \<and> v = v' div 2 ^ (l' - l)"
proof -
  have le: "l \<le> l'" using prefix_length_le [OF assms(1)] by simp
  let ?q = "v' div 2 ^ (l' - l)" and ?r = "v' mod 2 ^ (l' - l)"
  have "bits l ?q @ bits (l' - l) ?r = bits l' v'"
    using bits_append [of ?r "l' - l" l ?q] le by (simp add: div_mult_mod_eq)
  then have "take l (bits l' v') = bits l ?q" by (metis append_eq_conv_conj length_bits)
  moreover have "take l (bits l' v') = bits l v"
    using assms(1) by (auto simp: prefix_def)
  moreover have "?q < 2 ^ l"
    using assms(3) le by (simp add: less_mult_imp_div_less flip: power_add)
  ultimately show ?thesis using bits_inj [of l v ?q] assms(2) le by simp
qed

lemma code_prefix_free: "prefix (code b) (code b') \<Longrightarrow> b = b'"
proof (rule ccontr)
  assume pre: "prefix (code b) (code b')" and ne: "b \<noteq> b'"
  obtain c v l where e: "entry b = (c, v, l)" by (metis prod_cases3)
  obtain c' v' l' where e': "entry b' = (c', v', l')" by (metis prod_cases3)
  note bd = entry_bounds [OF e] and bd' = entry_bounds [OF e']
  have "entry b \<noteq> entry b'"
    using fst_entry [of b] fst_entry [of b'] ne by (metis of_nat_eq_iff unsigned_word_eqI)
  then have dis: "hi (entry b) \<le> lo (entry b') \<or> hi (entry b') \<le> lo (entry b)"
    by (intro chain_disjoint [OF vhp_huffman_chain]) (simp_all add: entry_vhp)
  have "prefix (bits (nat l) (nat v)) (bits (nat l') (nat v'))"
    using pre by (simp add: code_def Let_def coding_table_nth [OF e] coding_table_nth [OF e'])
  then have le: "nat l \<le> nat l'" and v: "nat v = nat v' div 2 ^ (nat l' - nat l)"
    using bits_prefix_div [of "nat l" "nat v" "nat l'" "nat v'"] bd bd'
    by (auto simp: nat_less_iff)
  let ?k = "nat l' - nat l" and ?m = "nat (30 - l')"
  have k: "nat (30 - l) = ?k + ?m" using le bd bd' by linarith
  have q: "v = v' div 2 ^ ?k" using arg_cong [OF v, of int] bd(3) bd'(3) by (simp add: zdiv_int)
  have "v' = v * 2 ^ ?k + v' mod 2 ^ ?k" unfolding q by (simp only: div_mult_mod_eq)
  moreover have "0 \<le> v' mod 2 ^ ?k" "v' mod 2 ^ ?k < 2 ^ ?k" by simp_all
  moreover have "(v + 1) * 2 ^ ?k = v * 2 ^ ?k + 2 ^ ?k" by (simp add: distrib_right)
  ultimately have "v * 2 ^ ?k \<le> v'" "v' + 1 \<le> (v + 1) * 2 ^ ?k" by linarith+
  then have "v * 2 ^ ?k * 2 ^ ?m \<le> v' * 2 ^ ?m" "(v' + 1) * 2 ^ ?m \<le> (v + 1) * 2 ^ ?k * 2 ^ ?m"
    by (simp_all only: mult_right_mono zero_le_power zero_le_numeral)
  then have "lo (entry b) \<le> lo (entry b')" "hi (entry b') \<le> hi (entry b)"
    unfolding e e' by (simp_all add: lo_def hi_def k power_add mult.assoc)
  with dis show False using lo_less_hi [of "entry b"] lo_less_hi [of "entry b'"] by linarith
qed

lemma code_not_ones: "False \<in> set (code b)"
proof (rule ccontr)
  let ?s = "coding_table ! unat b"
  let ?n = "sym_size ?s" and ?v = "unat (sym_val ?s)"
  assume "False \<notin> set (code b)"
  then have "bits ?n ?v ! i" if "i < ?n" for i
    using that nth_mem [of i "bits ?n ?v"] by (metis (full_types) code_def length_bits)
  moreover have "bits ?n (mask ?n) ! i" if "i < ?n" for i
    using that by (simp add: nth_bits bit_simps)
  ultimately have "bits ?n ?v = bits ?n (mask ?n)"
    by (intro nth_equalityI) auto
  then have "?v = mask ?n"
    using bits_inj [of ?n ?v "mask ?n"] size_bounds(3) [of b] by (simp add: mask_nat_less_exp)
  with size_bounds(3) [of b] show False by (simp add: mask_eq_exp_minus_1)
qed

end
