(* ===== verification/Hpack_Tbl.thy ===== *)
theory Hpack_Tbl
  imports VTest_Prelude
begin

text \<open>
  \<open>src/vtc_h2_tbl.c\<close> with the types of \<open>src/hpack.h\<close> and \<open>src/vtc_h2_priv.h\<close> and the static
  table \<open>src/vtc_h2_stattbl.h\<close>: the header tables of HPACK.

  A \<open>struct hpk_txt\<close> keeps its three fields; \<open>txt_ptr\<close> is \<open>None\<close> for a NULL pointer and
  otherwise the bytes of the text without the NUL that every text carries after its last byte.
  The tail queue of dynamic entries is a list, newest entry first.  \<open>ct_size\<close> and
  \<open>ct_maxsize\<close> are kept at their 32 bits, so that the wrap-around of the size arithmetic is
  part of the model.  \<open>txt_len\<close> is a C \<open>int\<close> that is never negative; the two sums of lengths that
  the source computes as \<open>int\<close>, in \<open>pop_header\<close> and \<open>push_header\<close>, are undefined beyond \<open>INT_MAX\<close>.

  The fields \<open>huff\<close> and \<open>i\<close> of a new entry are left as \<open>malloc\<close> gives them; nothing reads them
  before \<open>HPK_GetHdr\<close> has set \<open>i\<close>, and the model has \<open>False\<close> and 0 there.

  The specification is RFC 7541, 4.3 and 4.4: \<open>fit b ds\<close> is the longest initial part of a list
  of entries whose sizes add up to at most \<open>b\<close>, and inserting or resizing must leave exactly
  that part.
\<close>

named_theorems tbl_defs "definitions of the table operations"

subsection \<open>Data\<close>

datatype hpk_result = hpk_more | hpk_done | hpk_err

datatype hpk_indexed = hpk_unset | hpk_idx | hpk_inc | hpk_not | hpk_never

record hpk_txt =
  txt_ptr :: "byte list option"
  txt_len :: nat
  txt_huff :: bool

record hpk_hdr =
  hk_key :: hpk_txt
  hk_value :: hpk_txt
  hk_t :: hpk_indexed
  hk_i :: u32

record hpk_ctx =
  ct_dyntbl :: "hpk_hdr list"
  ct_maxsize :: u32
  ct_size :: u32

definition null_txt :: hpk_txt where
  "null_txt = \<lparr>txt_ptr = None, txt_len = 0, txt_huff = False\<rparr>"

definition lit_txt :: "string \<Rightarrow> hpk_txt" where
  "lit_txt s = \<lparr>txt_ptr = Some (cstr s), txt_len = length s, txt_huff = False\<rparr>"

definition stat_hdrs :: "(nat \<times> string \<times> string) list" where
  "stat_hdrs =
  [
   (1, '':authority'', ''''),
   (2, '':method'', ''GET''),
   (3, '':method'', ''POST''),
   (4, '':path'', ''/''),
   (5, '':path'', ''/index.html''),
   (6, '':scheme'', ''http''),
   (7, '':scheme'', ''https''),
   (8, '':status'', ''200''),
   (9, '':status'', ''204''),
   (10, '':status'', ''206''),
   (11, '':status'', ''304''),
   (12, '':status'', ''400''),
   (13, '':status'', ''404''),
   (14, '':status'', ''500''),
   (15, ''accept-charset'', ''''),
   (16, ''accept-encoding'', ''gzip,deflate''),
   (17, ''accept-language'', ''''),
   (18, ''accept-ranges'', ''''),
   (19, ''accept'', ''''),
   (20, ''access-control-allow-origin'', ''''),
   (21, ''age'', ''''),
   (22, ''allow'', ''''),
   (23, ''authorization'', ''''),
   (24, ''cache-control'', ''''),
   (25, ''content-disposition'', ''''),
   (26, ''content-encoding'', ''''),
   (27, ''content-language'', ''''),
   (28, ''content-length'', ''''),
   (29, ''content-location'', ''''),
   (30, ''content-range'', ''''),
   (31, ''content-type'', ''''),
   (32, ''cookie'', ''''),
   (33, ''date'', ''''),
   (34, ''etag'', ''''),
   (35, ''expect'', ''''),
   (36, ''expires'', ''''),
   (37, ''from'', ''''),
   (38, ''host'', ''''),
   (39, ''if-match'', ''''),
   (40, ''if-modified-since'', ''''),
   (41, ''if-none-match'', ''''),
   (42, ''if-range'', ''''),
   (43, ''if-unmodified-since'', ''''),
   (44, ''last-modified'', ''''),
   (45, ''link'', ''''),
   (46, ''location'', ''''),
   (47, ''max-forwards'', ''''),
   (48, ''proxy-authenticate'', ''''),
   (49, ''proxy-authorization'', ''''),
   (50, ''range'', ''''),
   (51, ''referer'', ''''),
   (52, ''refresh'', ''''),
   (53, ''retry-after'', ''''),
   (54, ''server'', ''''),
   (55, ''set-cookie'', ''''),
   (56, ''strict-transport-security'', ''''),
   (57, ''transfer-encoding'', ''''),
   (58, ''user-agent'', ''''),
   (59, ''vary'', ''''),
   (60, ''via'', ''''),
   (61, ''www-authenticate'', '''')
  ]"

definition sttbl :: "hpk_hdr list" where
  "sttbl = \<lparr>hk_key = null_txt, hk_value = null_txt, hk_t = hpk_idx, hk_i = 0\<rparr> #
     map (\<lambda>(j, k, v). \<lparr>hk_key = lit_txt k, hk_value = lit_txt v, hk_t = hpk_idx,
       hk_i = of_nat j\<rparr>) stat_hdrs"

subsection \<open>Operations\<close>

definition HPK_NewCtx :: "u32 \<Rightarrow> hpk_ctx" where
  "HPK_NewCtx maxsize = \<lparr>ct_dyntbl = [], ct_maxsize = maxsize, ct_size = 0\<rparr>"

definition pop_header :: "hpk_ctx \<Rightarrow> hpk_ctx res" where
  "pop_header ctx = guardR AssertFail (ct_dyntbl ctx \<noteq> [])
     (let h = last (ct_dyntbl ctx); len = txt_len (hk_key h) + txt_len (hk_value h) + 32
      in guardR Undefined (len < 2 ^ 31)
        (Inr (ctx\<lparr>ct_dyntbl := butlast (ct_dyntbl ctx), ct_size := ct_size ctx - of_nat len\<rparr>)))"

text \<open>\<open>VTAILQ_FOREACH(dh, \<dots>) if (!idx--) break;\<close>: the entry reached and the final \<open>idx\<close>.\<close>

fun foreach_idx :: "hpk_hdr list \<Rightarrow> u32 \<Rightarrow> hpk_hdr option \<times> u32" where
  "foreach_idx [] idx = (None, idx)"
| "foreach_idx (dh # ds) idx =
     (if idx = 0 then (Some dh, idx - 1) else foreach_idx ds (idx - 1))"

definition tbl_get_field :: "hpk_ctx \<Rightarrow> u32 \<Rightarrow> bool \<Rightarrow> hpk_txt option" where
  "tbl_get_field ctx idx key =
     (if idx > 61 + ct_size ctx then None
      else if idx \<le> 61 then
        Some (if key then hk_key (sttbl ! unat idx) else hk_value (sttbl ! unat idx))
      else case foreach_idx (ct_dyntbl ctx) (idx - 62) of
        (Some dh, j) \<Rightarrow> if j \<noteq> 0 then Some (if key then hk_key dh else hk_value dh) else None
      | (None, _) \<Rightarrow> None)"

definition tbl_get_key :: "hpk_ctx \<Rightarrow> u32 \<Rightarrow> hpk_txt option" where
  "tbl_get_key ctx idx = tbl_get_field ctx idx True"

definition tbl_get_value :: "hpk_ctx \<Rightarrow> u32 \<Rightarrow> hpk_txt option" where
  "tbl_get_value ctx idx = tbl_get_field ctx idx False"

text \<open>\<open>HPK_GetHdr\<close> records the index in the dynamic entry it returns, so it changes the table.\<close>

definition HPK_GetHdr :: "hpk_ctx \<Rightarrow> u32 \<Rightarrow> hpk_hdr option \<times> hpk_ctx" where
  "HPK_GetHdr ctx idx =
     (if idx > 61 + ct_size ctx then (None, ctx)
      else if idx \<le> 61 then (Some (sttbl ! unat idx), ctx)
      else case foreach_idx (ct_dyntbl ctx) (idx - 62) of
        (Some dh, j) \<Rightarrow>
          if j \<noteq> 0 then
            (let dh' = dh\<lparr>hk_i := idx\<rparr>
             in (Some dh', ctx\<lparr>ct_dyntbl := (ct_dyntbl ctx)[unat (idx - 62) := dh']\<rparr>))
          else (None, ctx)
      | (None, _) \<Rightarrow> (None, ctx))"

function pop_while_push :: "u32 \<Rightarrow> hpk_ctx \<Rightarrow> hpk_ctx res" where
  "pop_while_push len ctx =
     (if ct_dyntbl ctx \<noteq> [] \<and> ct_maxsize ctx - ct_size ctx < len
      then bindR (pop_header ctx) (pop_while_push len) else Inr ctx)"
  by pat_completeness auto
termination
  by (relation "measure (\<lambda>(len, ctx). length (ct_dyntbl ctx))")
     (auto simp: pop_header_def guardR_Inr_iff Let_def)

declare pop_while_push.simps [simp del]

definition copy_txt :: "hpk_txt \<Rightarrow> hpk_txt res" where
  "copy_txt t = (case txt_ptr t of
     None \<Rightarrow> Inl Undefined
   | Some bs \<Rightarrow> guardR Undefined (txt_len t \<le> length bs)
       (Inr \<lparr>txt_ptr = Some (take (txt_len t) bs), txt_len = txt_len t, txt_huff = False\<rparr>))"

text \<open>
  The key of the new entry: the caller's, or the one its index names.  The source looks the
  index up twice, once for the length and, after the evictions, once for the text.
\<close>

definition push_key :: "hpk_ctx \<Rightarrow> hpk_hdr \<Rightarrow> (hpk_txt \<times> hpk_ctx) res" where
  "push_key ctx oh =
     (if txt_ptr (hk_key oh) \<noteq> None then Inr (hk_key oh, ctx)
      else guardR AssertFail (hk_i oh \<noteq> 0)
        (case HPK_GetHdr ctx (hk_i oh) of
           (None, _) \<Rightarrow> Inl AssertFail
         | (Some ih, ctx') \<Rightarrow> Inr (hk_key ih, ctx')))"

definition push_header :: "hpk_ctx \<Rightarrow> hpk_hdr \<Rightarrow> hpk_ctx res" where
  "push_header ctx oh = guardR AssertFail (ct_size ctx \<le> ct_maxsize ctx)
     (if ct_maxsize ctx = 0 then Inr ctx
      else guardR Undefined (txt_len (hk_value oh) + 32 < 2 ^ 31) (bindR (push_key ctx oh) (\<lambda>(k, ctx).
        let len = of_nat (txt_len (hk_value oh)) + 32 + of_nat (txt_len k) in
        bindR (pop_while_push len ctx) (\<lambda>ctx.
          if ct_maxsize ctx - ct_size ctx \<ge> len
          then bindR (push_key ctx oh) (\<lambda>(k, ctx).
               bindR (copy_txt k) (\<lambda>k'. bindR (copy_txt (hk_value oh)) (\<lambda>v'.
               Inr (ctx\<lparr>ct_dyntbl := \<lparr>hk_key = k', hk_value = v', hk_t = hpk_idx, hk_i = 0\<rparr>
                          # ct_dyntbl ctx,
                        ct_size := ct_size ctx + len\<rparr>))))
          else Inr ctx))))"

function pop_while_resize :: "hpk_ctx \<Rightarrow> hpk_ctx res" where
  "pop_while_resize ctx =
     (if ct_dyntbl ctx \<noteq> [] \<and> ct_maxsize ctx < ct_size ctx
      then bindR (pop_header ctx) pop_while_resize else Inr ctx)"
  by pat_completeness auto
termination
  by (relation "measure (\<lambda>ctx. length (ct_dyntbl ctx))")
     (auto simp: pop_header_def guardR_Inr_iff Let_def)

declare pop_while_resize.simps [simp del]

definition HPK_ResizeTbl :: "hpk_ctx \<Rightarrow> u32 \<Rightarrow> (hpk_result \<times> hpk_ctx) res" where
  "HPK_ResizeTbl ctx num =
     bindR (pop_while_resize (ctx\<lparr>ct_maxsize := num\<rparr>)) (\<lambda>ctx. Inr (hpk_done, ctx))"

definition HPK_GetTblSize :: "hpk_ctx \<Rightarrow> u32" where
  "HPK_GetTblSize ctx = ct_size ctx"

definition HPK_GetTblMaxSize :: "hpk_ctx \<Rightarrow> u32" where
  "HPK_GetTblMaxSize ctx = ct_maxsize ctx"

definition HPK_GetTblLength :: "hpk_ctx \<Rightarrow> u32" where
  "HPK_GetTblLength ctx = fold (\<lambda>_ l. l + 1) (ct_dyntbl ctx) 0"

function HPK_FreeCtx :: "hpk_ctx \<Rightarrow> hpk_ctx res" where
  "HPK_FreeCtx ctx =
     (if ct_dyntbl ctx \<noteq> [] then bindR (pop_header ctx) HPK_FreeCtx else Inr ctx)"
  by pat_completeness auto
termination
  by (relation "measure (\<lambda>ctx. length (ct_dyntbl ctx))")
     (auto simp: pop_header_def guardR_Inr_iff Let_def)

declare HPK_FreeCtx.simps [simp del]

subsection \<open>Specification\<close>

definition hsize :: "hpk_hdr \<Rightarrow> nat" where
  "hsize h = txt_len (hk_key h) + txt_len (hk_value h) + 32"

definition tsize :: "hpk_hdr list \<Rightarrow> nat" where
  "tsize ds = sum_list (map hsize ds)"

fun fit :: "nat \<Rightarrow> hpk_hdr list \<Rightarrow> hpk_hdr list" where
  "fit b [] = []"
| "fit b (d # ds) = (if hsize d \<le> b then d # fit (b - hsize d) ds else [])"

text \<open>A text is well-formed if its length is exact and leaves room for the overhead of an entry.\<close>

definition txt_ok :: "hpk_txt \<Rightarrow> bool" where
  "txt_ok t \<longleftrightarrow> (case txt_ptr t of None \<Rightarrow> False | Some bs \<Rightarrow> length bs = txt_len t) \<and> txt_len t + 32 < 2 ^ 31"

definition sized :: "hpk_ctx \<Rightarrow> bool" where
  "sized c \<longleftrightarrow> unat (ct_size c) = tsize (ct_dyntbl c) \<and> ct_size c \<le> ct_maxsize c"

definition entries_ok :: "hpk_hdr list \<Rightarrow> bool" where
  "entries_ok ds \<longleftrightarrow> (\<forall>h \<in> set ds. txt_ok (hk_key h) \<and> txt_ok (hk_value h) \<and> hsize h < 2 ^ 31)"

definition ctx_ok :: "hpk_ctx \<Rightarrow> bool" where
  "ctx_ok c \<longleftrightarrow> sized c \<and> entries_ok (ct_dyntbl c)"

text \<open>
  The name of a header: its own, or the one its index names.  Making room for a header whose name
  is given by a dynamic index may evict the entry of this index.
\<close>

definition name_of :: "hpk_ctx \<Rightarrow> hpk_hdr \<Rightarrow> hpk_txt option" where
  "name_of c h = (if txt_ptr (hk_key h) \<noteq> None then Some (hk_key h)
     else if hk_i h = 0 then None else tbl_get_key c (hk_i h))"

definition name_evicted :: "hpk_ctx \<Rightarrow> hpk_hdr \<Rightarrow> nat \<Rightarrow> bool" where
  "name_evicted c h len \<longleftrightarrow> txt_ptr (hk_key h) = None \<and> 61 < hk_i h \<and> len \<le> unat (ct_maxsize c) \<and>
     length (fit (unat (ct_maxsize c) - len) (ct_dyntbl c)) \<le> unat (hk_i h) - 62"

text \<open>Entries up to the index that \<open>HPK_GetHdr\<close> records in them.\<close>

definition unmark :: "hpk_hdr list \<Rightarrow> hpk_hdr list" where
  "unmark ds = map (hk_i_update (\<lambda>_. 0)) ds"

subsection \<open>Sizes and the longest initial part that fits\<close>

lemma tsize_simps [simp]:
  "tsize [] = 0" "tsize (d # ds) = hsize d + tsize ds" "tsize (ds @ es) = tsize ds + tsize es"
  by (simp_all add: tsize_def)

lemma hsize_pos [simp]: "32 \<le> hsize h"
  by (simp add: hsize_def)

lemma fit_all: "tsize ds \<le> b \<Longrightarrow> fit b ds = ds"
  by (induction b ds rule: fit.induct) auto

lemma fit_snoc: "b < tsize (ds @ [d]) \<Longrightarrow> fit b (ds @ [d]) = fit b ds"
  by (induction b ds rule: fit.induct) auto

lemma tsize_fit: "tsize (fit b ds) \<le> b"
  by (induction b ds rule: fit.induct) auto

lemma set_fit: "set (fit b ds) \<subseteq> set ds"
  by (induction b ds rule: fit.induct) auto

lemma fit_prefix: "\<exists>es. ds = fit b ds @ es"
  by (induction b ds rule: fit.induct) auto

lemma fit_fit: "b \<le> c \<Longrightarrow> fit b (fit c ds) = fit b ds"
proof (induction c ds arbitrary: b rule: fit.induct)
  case (2 c d ds)
  then show ?case by (auto simp: diff_le_mono)
qed simp

lemma length_tsize: "32 * length ds \<le> tsize ds"
proof (induction ds)
  case (Cons d ds)
  then show ?case using hsize_pos [of d] by (simp del: hsize_pos)
qed simp

lemma hsize_hk_i [simp]: "hsize (d\<lparr>hk_i := x\<rparr>) = hsize d"
  by (simp add: hsize_def)

lemma fit_unmark: "unmark (fit b ds) = fit b (unmark ds)"
  by (induction b ds rule: fit.induct) (auto simp: unmark_def)

lemma unmark_upd [simp]: "unmark (ds[k := (ds ! k)\<lparr>hk_i := x\<rparr>]) = unmark ds"
  by (cases "k < length ds") (auto simp: unmark_def map_update list_update_same_conv list_update_beyond)

lemma unmark_simps [simp]:
  "unmark [] = []" "unmark (d # ds) = d\<lparr>hk_i := 0\<rparr> # unmark ds" "length (unmark ds) = length ds"
  by (simp_all add: unmark_def)

lemma tsize_unmark: "tsize (unmark ds) = tsize ds"
  by (induction ds) simp_all

lemma unmark_tsize: "unmark ds = unmark es \<Longrightarrow> tsize ds = tsize es"
  by (metis tsize_unmark)

lemma unmark_nth: "k < length ds \<Longrightarrow> hk_key (unmark ds ! k) = hk_key (ds ! k)"
  by (simp add: unmark_def)

text \<open>The invariant of the entries does not depend on the marks.\<close>

lemma entries_ok_unmark: "entries_ok (unmark ds) = entries_ok ds"
  by (simp add: entries_ok_def unmark_def)

lemma entries_ok_cong: "unmark ds = unmark es \<Longrightarrow> entries_ok ds = entries_ok es"
  by (metis entries_ok_unmark)

lemma entries_ok_simps [simp]:
  "entries_ok []" "entries_ok (d # ds) \<longleftrightarrow> txt_ok (hk_key d) \<and> txt_ok (hk_value d) \<and> hsize d < 2 ^ 31 \<and> entries_ok ds"
  "entries_ok (ds @ es) \<longleftrightarrow> entries_ok ds \<and> entries_ok es"
  by (auto simp: entries_ok_def)

lemma entries_ok_fit: "entries_ok ds \<Longrightarrow> entries_ok (fit b ds)"
  using set_fit by (fastforce simp: entries_ok_def)

subsection \<open>Evictions\<close>

lemma ctx_ok_snoc:
  assumes "unat (ct_size c) = tsize (ct_dyntbl c)" and "ct_dyntbl c = ds @ [d]"
  shows "unat (ct_size c - of_nat (hsize d)) = tsize ds"
proof -
  have "tsize ds + hsize d < 2 ^ 32"
    using assms unat_u32_less [of "ct_size c"] by simp
  then show ?thesis using assms
    by (simp add: unat_sub_u32 unat_of_nat_u32)
qed

lemma pop_header_eq:
  assumes "ct_dyntbl c = ds @ [d]" and "entries_ok (ct_dyntbl c)"
  shows "pop_header c = Inr (c\<lparr>ct_dyntbl := ds, ct_size := ct_size c - of_nat (hsize d)\<rparr>)"
  using assms by (simp add: pop_header_def hsize_def)

lemma pop_while_resize_fit:
  assumes "unat (ct_size c) = tsize (ct_dyntbl c)" and "entries_ok (ct_dyntbl c)"
  shows "\<exists>s. pop_while_resize c =
      Inr (c\<lparr>ct_dyntbl := fit (unat (ct_maxsize c)) (ct_dyntbl c), ct_size := s\<rparr>) \<and>
    unat s = tsize (fit (unat (ct_maxsize c)) (ct_dyntbl c))"
  using assms
proof (induction c rule: pop_while_resize.induct)
  case (1 c)
  show ?case
  proof (cases "ct_dyntbl c \<noteq> [] \<and> ct_maxsize c < ct_size c")
    case True
    then obtain ds d where c: "ct_dyntbl c = ds @ [d]" by (metis rev_exhaust)
    let ?c = "c\<lparr>ct_dyntbl := ds, ct_size := ct_size c - of_nat (hsize d)\<rparr>"
    note pop = pop_header_eq [OF c "1.prems"(2)]
    have gt: "unat (ct_maxsize c) < tsize (ds @ [d])"
      using True "1.prems" c by (simp add: word_less_nat_alt)
    have "unat (ct_size ?c) = tsize (ct_dyntbl ?c)" "entries_ok (ct_dyntbl ?c)"
      using ctx_ok_snoc [OF "1.prems"(1) c] "1.prems"(2) c by simp_all
    from "1.IH" [OF True pop this] show ?thesis
      using True c fit_snoc [OF gt] by (auto simp: pop_while_resize.simps [of c] pop)
  next
    case False
    then have "tsize (ct_dyntbl c) \<le> unat (ct_maxsize c)"
      using "1.prems" by (auto simp: word_less_nat_alt)
    with False "1.prems" show ?thesis
      by (auto simp: pop_while_resize.simps [of c] fit_all intro!: exI [of _ "ct_size c"])
  qed
qed

lemma evict_cond:
  assumes "unat sz = tsize ds" "sz \<le> mx" "ds \<noteq> []"
  shows "mx - sz < len \<longleftrightarrow> unat mx - unat (len :: u32) < tsize ds"
proof -
  have "0 < tsize ds" using assms(3) length_tsize [of ds] by (cases ds) auto
  moreover have "unat (mx - sz) = unat mx - tsize ds"
    using assms by (simp add: unat_sub_u32 word_le_nat_alt)
  moreover have "tsize ds \<le> unat mx" using assms by (simp add: word_le_nat_alt)
  ultimately show ?thesis by (auto simp: word_less_nat_alt)
qed

lemma pop_while_push_fit:
  assumes "unat (ct_size c) = tsize (ct_dyntbl c)" "ct_size c \<le> ct_maxsize c" "entries_ok (ct_dyntbl c)"
  shows "\<exists>s. pop_while_push len c =
      Inr (c\<lparr>ct_dyntbl := fit (unat (ct_maxsize c) - unat len) (ct_dyntbl c), ct_size := s\<rparr>) \<and>
    unat s = tsize (fit (unat (ct_maxsize c) - unat len) (ct_dyntbl c)) \<and> s \<le> ct_maxsize c"
  using assms
proof (induction len c rule: pop_while_push.induct)
  case (1 len c)
  let ?b = "unat (ct_maxsize c) - unat len"
  show ?case
  proof (cases "ct_dyntbl c \<noteq> [] \<and> ct_maxsize c - ct_size c < len")
    case True
    then obtain ds d where c: "ct_dyntbl c = ds @ [d]" by (metis rev_exhaust)
    let ?c = "c\<lparr>ct_dyntbl := ds, ct_size := ct_size c - of_nat (hsize d)\<rparr>"
    note pop = pop_header_eq [OF c "1.prems"(3)]
    have gt: "?b < tsize (ds @ [d])"
      using True "1.prems" c evict_cond [of "ct_size c" "ct_dyntbl c"] by simp
    have eq: "unat (ct_size ?c) = tsize (ct_dyntbl ?c)"
      using ctx_ok_snoc [OF "1.prems"(1) c] by simp
    moreover have "ct_size ?c \<le> ct_maxsize ?c" "entries_ok (ct_dyntbl ?c)"
      using eq "1.prems" c by (simp_all add: word_le_nat_alt)
    ultimately show ?thesis
      using "1.IH" [OF True pop] True c fit_snoc [OF gt] by (auto simp: pop_while_push.simps [of len c] pop)
  next
    case False
    then have "tsize (ct_dyntbl c) \<le> ?b \<or> ct_dyntbl c = []"
      using "1.prems" evict_cond [of "ct_size c" "ct_dyntbl c"] by auto
    then have "fit ?b (ct_dyntbl c) = ct_dyntbl c" by (auto simp: fit_all)
    with False "1.prems" show ?thesis
      by (auto simp: pop_while_push.simps [of len c] intro!: exI [of _ "ct_size c"])
  qed
qed

subsection \<open>Lookup\<close>

lemma foreach_idx_eq:
  "foreach_idx ds j =
    (if unat j < length ds then (Some (ds ! unat j), - 1) else (None, j - of_nat (length ds)))"
proof (induction ds j rule: foreach_idx.induct)
  case (2 d ds j)
  show ?case
  proof (cases "j = 0")
    case False
    then have "unat (j - 1) = unat j - 1" "0 < unat j"
      by (simp_all add: unat_sub_u32 unat_gt_0 Suc_leI)
    with False 2 show ?thesis by (auto simp: nth_Cons')
  qed simp
qed simp

lemma dyn_index_guard:
  assumes "sized c" "ct_maxsize c \<le> 0xffffffc1" "61 < idx" "unat (idx - 62) < length (ct_dyntbl c)"
  shows "\<not> idx > 61 + ct_size c"
proof -
  have "unat idx - 62 < length (ct_dyntbl c)"
    using assms(3,4) by (subst (asm) unat_sub_u32) (simp_all add: word_less_nat_alt)
  moreover have "unat (ct_size c) = tsize (ct_dyntbl c)" "unat (ct_size c) \<le> 0xffffffc1"
    using assms(1,2) by (auto simp: sized_def word_le_nat_alt)
  ultimately have "unat idx \<le> 61 + unat (ct_size c)" "61 + unat (ct_size c) < 2 ^ 32"
    using length_tsize [of "ct_dyntbl c"] by auto
  then show ?thesis by (simp add: not_less word_le_nat_alt unat_word_ariths)
qed

lemma tbl_get_field_eq:
  assumes "sized c" "ct_maxsize c \<le> 0xffffffc1"
  shows "tbl_get_field c idx key =
    map_option (if key then hk_key else hk_value)
      (if idx \<le> 61 then Some (sttbl ! unat idx)
       else if unat idx - 62 < length (ct_dyntbl c) then Some (ct_dyntbl c ! (unat idx - 62))
       else None)"
proof (cases "idx \<le> 61")
  case True
  have "unat (ct_size c) \<le> 0xffffffc1"
    using assms by (auto simp: sized_def word_le_nat_alt)
  then have "idx \<le> 61 + ct_size c"
    using True by (simp add: word_le_nat_alt unat_word_ariths)
  with True show ?thesis by (simp add: tbl_get_field_def not_less)
next
  case False
  then have "unat (idx - 62) = unat idx - 62"
    by (subst unat_sub_u32) (simp_all add: word_le_nat_alt)
  with False dyn_index_guard [OF assms, of idx] show ?thesis
    by (auto simp: tbl_get_field_def foreach_idx_eq)
qed

lemma length_sttbl: "length sttbl = 62"
  by (simp add: sttbl_def stat_hdrs_def)

lemma stat_hdrs_short: "\<forall>(j, k, v) \<in> set stat_hdrs. length k < 100 \<and> length v < 100"
  by (simp add: stat_hdrs_def)

lemma sttbl_ok: "\<forall>h \<in> set (tl sttbl). txt_ok (hk_key h) \<and> txt_ok (hk_value h)"
  using stat_hdrs_short by (fastforce simp: sttbl_def txt_ok_def lit_txt_def cstr_def)

lemma dyn_index:
  "unat idx = 62 + k \<Longrightarrow> \<not> idx \<le> (61 :: u32)"
  by (simp add: word_le_nat_alt)

lemma name_of_ok:
  assumes "ctx_ok c" "ct_maxsize c \<le> 0xffffffc1" "name_of c h = Some k" "txt_ptr (hk_key h) = None"
  shows "txt_ok k"
proof -
  have i: "hk_i h \<noteq> 0" "tbl_get_field c (hk_i h) True = Some k"
    using assms(3,4) by (auto simp: name_of_def tbl_get_key_def split: if_splits)
  have c: "sized c" "entries_ok (ct_dyntbl c)" using assms(1) by (simp_all add: ctx_ok_def)
  show ?thesis
  proof (cases "hk_i h \<le> 61")
    case True
    have "0 < unat (hk_i h)" "unat (hk_i h) \<le> 61" using i(1) True by (simp_all add: unat_gt_0 word_le_nat_alt)
    then have "unat (hk_i h) - 1 < length (tl sttbl)" "tl sttbl ! (unat (hk_i h) - 1) = sttbl ! unat (hk_i h)"
      by (simp_all add: length_sttbl nth_tl)
    then have "sttbl ! unat (hk_i h) \<in> set (tl sttbl)" by (metis nth_mem)
    then show ?thesis using sttbl_ok i(2) True by (auto simp: tbl_get_field_eq [OF c(1) assms(2)])
  next
    case False
    then show ?thesis using i(2) c(2)
      by (auto simp: tbl_get_field_eq [OF c(1) assms(2)] entries_ok_def split: if_splits)
  qed
qed

subsection \<open>Insertion\<close>

text \<open>The entry that a header becomes in the table.\<close>

definition tbl_entry :: "hpk_hdr \<Rightarrow> hpk_hdr" where
  "tbl_entry h = \<lparr>hk_key = (hk_key h)\<lparr>txt_huff := False\<rparr>,
     hk_value = (hk_value h)\<lparr>txt_huff := False\<rparr>, hk_t = hpk_idx, hk_i = 0\<rparr>"

lemma tbl_entry_simps [simp]:
  "hsize (tbl_entry h) = hsize h" "hk_i_update (\<lambda>_. 0) (tbl_entry h) = tbl_entry h"
  "hk_key (tbl_entry h) = (hk_key h)\<lparr>txt_huff := False\<rparr>" "hk_value (tbl_entry h) = (hk_value h)\<lparr>txt_huff := False\<rparr>"
  by (simp_all add: hsize_def tbl_entry_def)

lemma copy_txt_ok: "txt_ok t \<Longrightarrow> copy_txt t = Inr (t\<lparr>txt_huff := False\<rparr>)"
  by (cases t) (auto simp: txt_ok_def copy_txt_def split: option.splits)

lemma txt_ok_huff [simp]: "txt_ok (t\<lparr>txt_huff := b\<rparr>) = txt_ok t"
  by (simp add: txt_ok_def split: option.split)

lemma ctx_ok_maxsize_0: "ctx_ok c \<Longrightarrow> ct_maxsize c = 0 \<Longrightarrow> ct_dyntbl c = []"
  using length_tsize [of "ct_dyntbl c"] by (auto simp: ctx_ok_def sized_def)

text \<open>The mark that looking the name up leaves in the table.\<close>

definition touch :: "hpk_hdr \<Rightarrow> hpk_hdr list \<Rightarrow> hpk_hdr list" where
  "touch h ds = (if txt_ptr (hk_key h) \<noteq> None \<or> hk_i h \<le> 61 then ds
     else let k = unat (hk_i h - 62) in ds[k := (ds ! k)\<lparr>hk_i := hk_i h\<rparr>])"

lemma unmark_touch [simp]: "unmark (touch h ds) = unmark ds"
  by (simp add: touch_def Let_def)

lemma touch_own: "txt_ptr (hk_key h) \<noteq> None \<Longrightarrow> touch h ds = ds"
  by (simp add: touch_def)

lemma push_key_eq:
  "push_key c h = (case name_of c h of None \<Rightarrow> Inl AssertFail
     | Some k \<Rightarrow> Inr (k, c\<lparr>ct_dyntbl := touch h (ct_dyntbl c)\<rparr>))"
  by (auto simp: push_key_def name_of_def touch_def tbl_get_key_def tbl_get_field_def HPK_GetHdr_def
      foreach_idx_eq Let_def)

text \<open>After evictions the name is found again unless its entry is gone.\<close>

lemma name_of_evicted:
  assumes "sized c" "sized c'" "ct_maxsize c' = ct_maxsize c"
    and mx: "txt_ptr (hk_key h) = None \<Longrightarrow> ct_maxsize c \<le> 0xffffffc1"
    and pre: "unmark (ct_dyntbl c) = unmark (ct_dyntbl c') @ es" and k: "name_of c h = Some k"
  shows "name_of c' h = (if txt_ptr (hk_key h) = None \<and> 61 < hk_i h \<and> length (ct_dyntbl c') \<le> unat (hk_i h) - 62
    then None else Some k)"
proof (cases "txt_ptr (hk_key h) = None")
  case True
  let ?j = "unat (hk_i h) - 62"
  note eq = tbl_get_field_eq [OF assms(1) mx [OF True]] tbl_get_field_eq [OF assms(2) mx [OF True, folded assms(3)]]
  have i: "hk_i h \<noteq> 0" "tbl_get_field c (hk_i h) True = Some k"
    using k True by (auto simp: name_of_def tbl_get_key_def split: if_splits)
  show ?thesis
  proof (cases "hk_i h \<le> 61")
    case True
    then show ?thesis using i \<open>txt_ptr (hk_key h) = None\<close>
      by (simp add: name_of_def tbl_get_key_def eq not_less [symmetric])
  next
    case False
    have len: "length (ct_dyntbl c') \<le> length (ct_dyntbl c)"
      using arg_cong [OF pre, of length] by simp
    have "hk_key (ct_dyntbl c' ! ?j) = k" if j: "?j < length (ct_dyntbl c')"
    proof -
      have "unmark (ct_dyntbl c) ! ?j = unmark (ct_dyntbl c') ! ?j" using j pre by (simp add: nth_append)
      then show ?thesis using i(2) False j len unmark_nth [of ?j "ct_dyntbl c"] unmark_nth [of ?j "ct_dyntbl c'"]
        by (simp add: eq)
    qed
    then show ?thesis using i False \<open>txt_ptr (hk_key h) = None\<close>
      by (auto simp: name_of_def tbl_get_key_def eq not_le)
  qed
qed (use k in \<open>simp add: name_of_def\<close>)

lemma fit_touch: "unmark (fit b (touch h ds)) = fit b (unmark ds)"
  by (simp add: fit_unmark)

lemma unmark_fit_prefix: "\<exists>es. unmark ds = unmark (fit b (touch h ds)) @ es"
  unfolding fit_touch by (rule fit_prefix)

text \<open>\<open>push_header\<close> up to the second lookup of the name.\<close>

lemma push_header_run:
  assumes c: "ctx_ok c" and m0: "ct_maxsize c \<noteq> 0" and v: "txt_len (hk_value h) + 32 < 2 ^ 31"
    and nm: "name_of c h = Some k" and L: "L = hsize (h\<lparr>hk_key := k\<rparr>)" "L < 2 ^ 32"
    and e: "e = fit (unat (ct_maxsize c) - L) (touch h (ct_dyntbl c))"
  shows "\<exists>s. unat s = tsize e \<and> s \<le> ct_maxsize c \<and>
    push_header c h = (let c1 = c\<lparr>ct_dyntbl := e, ct_size := s\<rparr> in
      if L \<le> unat (ct_maxsize c) then bindR (push_key c1 h) (\<lambda>(k, ctx).
        bindR (copy_txt k) (\<lambda>k'. bindR (copy_txt (hk_value h)) (\<lambda>v'.
        Inr (ctx\<lparr>ct_dyntbl := \<lparr>hk_key = k', hk_value = v', hk_t = hpk_idx, hk_i = 0\<rparr> # ct_dyntbl ctx,
          ct_size := ct_size ctx + of_nat L\<rparr>))))
      else Inr c1)"
proof -
  let ?c = "c\<lparr>ct_dyntbl := touch h (ct_dyntbl c)\<rparr>"
  let ?len = "of_nat (txt_len (hk_value h)) + 32 + of_nat (txt_len k) :: u32"
  have len: "?len = of_nat L" by (simp add: L(1) hsize_def)
  have ul: "unat (of_nat L :: u32) = L" using L(2) by (rule unat_of_nat_u32)
  have c': "unat (ct_size ?c) = tsize (ct_dyntbl ?c)" "ct_size ?c \<le> ct_maxsize ?c" "entries_ok (ct_dyntbl ?c)"
    using c unmark_tsize [of "touch h (ct_dyntbl c)" "ct_dyntbl c"]
      entries_ok_cong [of "touch h (ct_dyntbl c)" "ct_dyntbl c"] by (simp_all add: ctx_ok_def sized_def)
  obtain s where pop: "pop_while_push (of_nat L) ?c = Inr (c\<lparr>ct_dyntbl := e, ct_size := s\<rparr>)"
    and s: "unat s = tsize e" "s \<le> ct_maxsize c"
    using pop_while_push_fit [OF c', of "of_nat L"] e by (auto simp: ul)
  have "0 < L" by (simp add: L(1) hsize_def)
  moreover have "tsize e \<le> unat (ct_maxsize c) - L" unfolding e by (rule tsize_fit)
  ultimately have le: "of_nat L \<le> ct_maxsize c - s \<longleftrightarrow> L \<le> unat (ct_maxsize c)"
    using s by (auto simp: word_le_nat_alt unat_sub_u32 ul)
  have "ct_size c \<le> ct_maxsize c" using c'(2) by simp
  then have "push_header c h = (let c1 = c\<lparr>ct_dyntbl := e, ct_size := s\<rparr> in
      if L \<le> unat (ct_maxsize c) then bindR (push_key c1 h) (\<lambda>(k, ctx).
        bindR (copy_txt k) (\<lambda>k'. bindR (copy_txt (hk_value h)) (\<lambda>v'.
        Inr (ctx\<lparr>ct_dyntbl := \<lparr>hk_key = k', hk_value = v', hk_t = hpk_idx, hk_i = 0\<rparr> # ct_dyntbl ctx,
          ct_size := ct_size ctx + of_nat L\<rparr>))))
      else Inr c1)"
    unfolding push_header_def push_key_eq [of c h] using m0 v
    by (simp add: nm len pop le Let_def)
  then show ?thesis using s by blast
qed

text \<open>The second lookup fails exactly when the entry that names the header was evicted.\<close>

lemma push_header_evicts_own_name:
  assumes c: "ctx_ok c" "ct_maxsize c \<le> 0xffffffc1" and v: "txt_len (hk_value h) + 32 < 2 ^ 31"
    and nm: "name_of c h = Some k" and L: "L = hsize (h\<lparr>hk_key := k\<rparr>)" and ev: "name_evicted c h L"
  shows "push_header c h = Inl AssertFail"
proof -
  define e where "e = fit (unat (ct_maxsize c) - L) (touch h (ct_dyntbl c))"
  have le: "L \<le> unat (ct_maxsize c)" "L < 2 ^ 32"
    using ev unat_u32_less [of "ct_maxsize c"] by (simp_all add: name_evicted_def)
  have "0 < L" by (simp add: L hsize_def)
  then have m0: "ct_maxsize c \<noteq> 0" using le(1) by auto
  obtain s where s: "unat s = tsize e" "s \<le> ct_maxsize c" and run: "push_header c h =
      bindR (push_key (c\<lparr>ct_dyntbl := e, ct_size := s\<rparr>) h) (\<lambda>(k, ctx).
        bindR (copy_txt k) (\<lambda>k'. bindR (copy_txt (hk_value h)) (\<lambda>v'.
        Inr (ctx\<lparr>ct_dyntbl := \<lparr>hk_key = k', hk_value = v', hk_t = hpk_idx, hk_i = 0\<rparr> # ct_dyntbl ctx,
          ct_size := ct_size ctx + of_nat L\<rparr>))))"
    using push_header_run [OF c(1) m0 v nm L le(2) e_def] le(1) by (auto simp: Let_def)
  let ?c = "c\<lparr>ct_dyntbl := e, ct_size := s\<rparr>"
  obtain es where es: "unmark (ct_dyntbl c) = unmark e @ es" using unmark_fit_prefix e_def by blast
  have "length e = length (fit (unat (ct_maxsize c) - L) (ct_dyntbl c))"
    using arg_cong [OF fit_touch [of "unat (ct_maxsize c) - L" h "ct_dyntbl c"], of length]
      arg_cong [OF fit_unmark [of "unat (ct_maxsize c) - L" "ct_dyntbl c"], of length] by (simp add: e_def)
  then have "name_of ?c h = None"
    using name_of_evicted [of c ?c h es k] c nm es s ev by (simp add: ctx_ok_def sized_def name_evicted_def)
  then show ?thesis by (simp add: run push_key_eq)
qed

lemma push_header_fit:
  assumes c: "ctx_ok c" and mx: "txt_ptr (hk_key h) = None \<Longrightarrow> ct_maxsize c \<le> 0xffffffc1"
    and nm: "name_of c h = Some k" and ok: "txt_ok k" "txt_ok (hk_value h)"
    and L: "L = hsize (h\<lparr>hk_key := k\<rparr>)" "L < 2 ^ 32" and ev: "\<not> name_evicted c h L"
  shows "\<exists>c'. push_header c h = Inr c' \<and> sized c' \<and> (L < 2 ^ 31 \<longrightarrow> ctx_ok c') \<and> ct_maxsize c' = ct_maxsize c \<and>
    unmark (ct_dyntbl c') = unmark (fit (unat (ct_maxsize c)) (tbl_entry (h\<lparr>hk_key := k\<rparr>) # ct_dyntbl c)) \<and>
    (txt_ptr (hk_key h) \<noteq> None \<longrightarrow>
      ct_dyntbl c' = fit (unat (ct_maxsize c)) (tbl_entry (h\<lparr>hk_key := k\<rparr>) # ct_dyntbl c))"
proof (cases "ct_maxsize c = 0")
  case True
  moreover have "ct_size c \<le> ct_maxsize c" using c by (simp add: ctx_ok_def sized_def)
  moreover have "0 < hsize (h\<lparr>hk_key := k\<rparr>)" by (simp add: hsize_def)
  ultimately show ?thesis using c ctx_ok_maxsize_0 [OF c True] by (simp add: push_header_def ctx_ok_def)
next
  case False
  let ?b = "unat (ct_maxsize c) - L" and ?h = "tbl_entry (h\<lparr>hk_key := k\<rparr>)"
  define e where "e = fit ?b (touch h (ct_dyntbl c))"
  have v: "txt_len (hk_value h) + 32 < 2 ^ 31" using ok(2) by (simp add: txt_ok_def)
  obtain s where s: "unat s = tsize e" "s \<le> ct_maxsize c" and run: "push_header c h =
      (let c1 = c\<lparr>ct_dyntbl := e, ct_size := s\<rparr> in if L \<le> unat (ct_maxsize c) then bindR (push_key c1 h) (\<lambda>(k, ctx).
        bindR (copy_txt k) (\<lambda>k'. bindR (copy_txt (hk_value h)) (\<lambda>v'.
        Inr (ctx\<lparr>ct_dyntbl := \<lparr>hk_key = k', hk_value = v', hk_t = hpk_idx, hk_i = 0\<rparr> # ct_dyntbl ctx,
          ct_size := ct_size ctx + of_nat L\<rparr>))))
      else Inr c1)"
    using push_header_run [OF c False v nm L e_def] by auto
  let ?c = "c\<lparr>ct_dyntbl := e, ct_size := s\<rparr>"
  have um: "unmark e = unmark (fit ?b (ct_dyntbl c))" by (simp add: e_def fit_touch fit_unmark)
  have eok: "entries_ok e" using c entries_ok_cong [OF um] by (simp add: ctx_ok_def entries_ok_fit)
  have own: "txt_ptr (hk_key h) \<noteq> None \<Longrightarrow> e = fit ?b (ct_dyntbl c)" by (simp add: e_def touch_own)
  have te: "tsize e \<le> ?b" unfolding e_def by (rule tsize_fit)
  show ?thesis
  proof (cases "L \<le> unat (ct_maxsize c)")
    case True
    obtain es where es: "unmark (ct_dyntbl c) = unmark e @ es" using unmark_fit_prefix e_def by blast
    have "name_of ?c h = Some k"
      using name_of_evicted [of c ?c h es k] c mx nm es s ev True arg_cong [OF um, of length]
      by (simp add: ctx_ok_def sized_def name_evicted_def)
    then have run': "push_header c h = Inr (c\<lparr>ct_dyntbl := ?h # touch h e, ct_size := s + of_nat L\<rparr>)"
      using True ok by (simp add: run push_key_eq copy_txt_ok tbl_entry_def)
    have ts: "tsize (touch h e) = tsize e" by (rule unmark_tsize) simp
    have sz: "unat (s + of_nat L) = L + tsize e"
      using s te True L(2) unat_u32_less [of "ct_maxsize c"]
      by (subst unat_add_u32) (simp_all add: unat_of_nat_u32)
    then have "sized (c\<lparr>ct_dyntbl := ?h # touch h e, ct_size := s + of_nat L\<rparr>)"
      using te True L(1) ts by (simp add: sized_def word_le_nat_alt)
    moreover have "entries_ok (touch h e)" using eok entries_ok_cong [of "touch h e" e] by simp
    moreover have "unmark (?h # touch h e) = unmark (fit (unat (ct_maxsize c)) (?h # ct_dyntbl c))"
      using True L(1) um by simp
    ultimately show ?thesis using run' ok True L(1) own touch_own [of h e] by (simp add: ctx_ok_def)
  next
    case False
    then have "e = []" using te length_tsize [of e] by auto
    then show ?thesis using run False L(1) s eok by (simp add: ctx_ok_def sized_def)
  qed
qed

lemma name_of_own: "txt_ok (hk_key h) \<Longrightarrow> name_of c h = Some (hk_key h)"
  by (auto simp: name_of_def txt_ok_def split: option.splits)

lemma push_header_own:
  assumes "ctx_ok c" and ok: "txt_ok (hk_key h)" "txt_ok (hk_value h)"
  shows "\<exists>c'. push_header c h = Inr c' \<and> sized c' \<and> (hsize h < 2 ^ 31 \<longrightarrow> ctx_ok c') \<and>
    ct_maxsize c' = ct_maxsize c \<and> ct_dyntbl c' = fit (unat (ct_maxsize c)) (tbl_entry h # ct_dyntbl c)"
proof -
  have p: "txt_ptr (hk_key h) \<noteq> None" using ok(1) by (auto simp: txt_ok_def split: option.splits)
  moreover have "hsize h < 2 ^ 32" using ok by (simp add: txt_ok_def hsize_def)
  ultimately show ?thesis
    using push_header_fit [OF assms(1) _ name_of_own [OF ok(1)] ok refl] by (auto simp: name_evicted_def)
qed

subsection \<open>Properties\<close>

text \<open>
  C4.  \<open>push_header\<close> implements the insertion of RFC 7541, 4.4, for a header with its own name or
  one whose name is given by an index.  From a well-formed table it keeps the table well-formed
  (the byte count is the sum of the entry sizes and is at most the maximum), and leaves the new
  entry followed by the longest initial part of the old entries that fits beside it; an entry
  larger than the whole table empties it.  Looking the name up changes nothing but the index
  recorded in its entry.  There are two ways to fail: the header has no name, which the assertions
  refuse unless the table has size 0, or its name is that of a dynamic entry that has to be
  evicted to make room.
\<close>

theorem push_header_refines:
  assumes "ctx_ok c" and "txt_ptr (hk_key h) = None \<longrightarrow> ct_maxsize c \<le> 0xffffffc1" and "txt_ok (hk_value h)"
  shows "case name_of c h of
      None \<Rightarrow> push_header c h = (if ct_maxsize c = 0 then Inr c else Inl AssertFail)
    | Some k \<Rightarrow> txt_ok k \<longrightarrow> hsize (h\<lparr>hk_key := k\<rparr>) < 2 ^ 31 \<longrightarrow>
        (if name_evicted c h (hsize (h\<lparr>hk_key := k\<rparr>)) then push_header c h = Inl AssertFail
         else \<exists>c'. push_header c h = Inr c' \<and> ctx_ok c' \<and> ct_maxsize c' = ct_maxsize c \<and>
           unmark (ct_dyntbl c') = unmark (fit (unat (ct_maxsize c)) (tbl_entry (h\<lparr>hk_key := k\<rparr>) # ct_dyntbl c)) \<and>
           (txt_ptr (hk_key h) \<noteq> None \<longrightarrow>
             ct_dyntbl c' = fit (unat (ct_maxsize c)) (tbl_entry (h\<lparr>hk_key := k\<rparr>) # ct_dyntbl c)))"
proof (cases "name_of c h")
  case None
  have "txt_len (hk_value h) + 32 < 2 ^ 31" "ct_size c \<le> ct_maxsize c"
    using assms(1,3) by (simp_all add: txt_ok_def ctx_ok_def sized_def)
  then show ?thesis by (simp add: None push_header_def push_key_eq)
next
  case (Some k)
  let ?L = "hsize (h\<lparr>hk_key := k\<rparr>)"
  have v: "txt_len (hk_value h) + 32 < 2 ^ 31" using assms(3) by (simp add: txt_ok_def)
  have "push_header c h = Inl AssertFail" if "name_evicted c h ?L"
    using push_header_evicts_own_name [OF assms(1) _ v Some refl that] assms(2) that by (simp add: name_evicted_def)
  moreover note push_header_fit [OF assms(1) _ Some _ assms(3) refl]
  ultimately show ?thesis using assms(2) unfolding Some by (auto simp del: fit.simps)
qed

definition demo_hdr :: "string \<Rightarrow> string \<Rightarrow> hpk_hdr" where
  "demo_hdr k v = \<lparr>hk_key = lit_txt k, hk_value = lit_txt v, hk_t = hpk_inc, hk_i = 0\<rparr>"

definition demo_ctx :: hpk_ctx where
  "demo_ctx = \<lparr>ct_dyntbl = [tbl_entry (demo_hdr ''abc'' ''defg'')], ct_maxsize = 80,
     ct_size = 39\<rparr>"

lemmas demo_defs = demo_ctx_def demo_hdr_def ctx_ok_def sized_def hsize_def txt_ok_def lit_txt_def
  null_txt_def cstr_def HPK_NewCtx_def

theorem push_header_refines_witness:
  "(\<exists>c'. push_header (HPK_NewCtx 100) (demo_hdr ''abc'' ''defg'') = Inr c' \<and> ctx_ok c' \<and>
     ct_dyntbl c' = [tbl_entry (demo_hdr ''abc'' ''defg'')]) \<and>
   (\<exists>c'. push_header demo_ctx ((demo_hdr ''x'' ''y'')\<lparr>hk_key := null_txt, hk_i := 62\<rparr>) = Inr c' \<and> ctx_ok c' \<and>
     unmark (ct_dyntbl c') = [tbl_entry (demo_hdr ''abc'' ''y''), tbl_entry (demo_hdr ''abc'' ''defg'')])"
proof
  let ?h = "demo_hdr ''abc'' ''defg''"
  have "name_of (HPK_NewCtx 100) ?h = Some (hk_key ?h)" by (simp add: name_of_def demo_defs)
  moreover have "?h\<lparr>hk_key := hk_key ?h\<rparr> = ?h" by simp
  ultimately show "\<exists>c'. push_header (HPK_NewCtx 100) ?h = Inr c' \<and> ctx_ok c' \<and> ct_dyntbl c' = [tbl_entry ?h]"
    using push_header_refines [of "HPK_NewCtx 100" ?h] by (auto simp: name_evicted_def demo_defs)
next
  let ?h = "(demo_hdr ''x'' ''y'')\<lparr>hk_key := null_txt, hk_i := 62\<rparr>" and ?k = "lit_txt ''abc''"
  have nm: "name_of demo_ctx ?h = Some ?k" by code_simp
  have c: "ctx_ok demo_ctx" "txt_ok (hk_value ?h)" "txt_ok ?k" by (simp_all add: demo_defs)
  have "hsize (?h\<lparr>hk_key := ?k\<rparr>) = 36" "\<not> name_evicted demo_ctx ?h 36"
    "unmark (fit (unat (ct_maxsize demo_ctx)) (tbl_entry (?h\<lparr>hk_key := ?k\<rparr>) # ct_dyntbl demo_ctx))
      = [tbl_entry (demo_hdr ''abc'' ''y''), tbl_entry (demo_hdr ''abc'' ''defg'')]" by code_simp+
  then show "\<exists>c'. push_header demo_ctx ?h = Inr c' \<and> ctx_ok c' \<and>
     unmark (ct_dyntbl c') = [tbl_entry (demo_hdr ''abc'' ''y''), tbl_entry (demo_hdr ''abc'' ''defg'')]"
    using push_header_refines [of demo_ctx ?h] nm c by (auto simp: demo_ctx_def simp del: fit.simps)
qed

text \<open>
  C9.  \<open>HPK_ResizeTbl\<close> implements the size change of RFC 7541, 4.3: it always reports
  \<open>hpk_done\<close>, sets the new maximum, and keeps exactly the longest initial part of the entries
  that fits, so that the table is well-formed again.
\<close>

theorem HPK_ResizeTbl_refines:
  assumes "ctx_ok c"
  shows "\<exists>c'. HPK_ResizeTbl c num = Inr (hpk_done, c') \<and> ctx_ok c' \<and> ct_maxsize c' = num \<and>
    ct_dyntbl c' = fit (unat num) (ct_dyntbl c)"
proof -
  have "unat (ct_size (c\<lparr>ct_maxsize := num\<rparr>)) = tsize (ct_dyntbl (c\<lparr>ct_maxsize := num\<rparr>))"
    "entries_ok (ct_dyntbl (c\<lparr>ct_maxsize := num\<rparr>))"
    using assms by (simp_all add: ctx_ok_def sized_def)
  from pop_while_resize_fit [OF this] show ?thesis
    using assms tsize_fit [of "unat num" "ct_dyntbl c"]
    by (auto simp: HPK_ResizeTbl_def ctx_ok_def sized_def word_le_nat_alt entries_ok_fit)
qed

theorem HPK_ResizeTbl_refines_witness:
  "\<exists>c'. HPK_ResizeTbl (HPK_NewCtx 4096) 0 = Inr (hpk_done, c') \<and> ctx_ok c' \<and> ct_maxsize c' = 0"
  using HPK_ResizeTbl_refines [of "HPK_NewCtx 4096" 0] by (auto simp: demo_defs)

text \<open>
  The index space (RFC 7541, 2.3.3): in a well-formed table the indices 1 to 61 name the
  static entries, \<open>62 + k\<close> names the \<open>k\<close>-th newest dynamic entry, and every other index is
  refused, for names and for values.
\<close>

theorem tbl_get_spec:
  assumes "ctx_ok c" "ct_maxsize c \<le> 0xffffffc1" "0 < idx"
  shows "tbl_get_key c idx = map_option hk_key
      (if unat idx \<le> 61 then Some (sttbl ! unat idx)
       else if unat idx - 62 < length (ct_dyntbl c) then Some (ct_dyntbl c ! (unat idx - 62))
       else None) \<and>
    tbl_get_value c idx = map_option hk_value
      (if unat idx \<le> 61 then Some (sttbl ! unat idx)
       else if unat idx - 62 < length (ct_dyntbl c) then Some (ct_dyntbl c ! (unat idx - 62))
       else None)"
  using assms(1) by (simp add: tbl_get_key_def tbl_get_value_def ctx_ok_def tbl_get_field_eq [OF _ assms(2)]
      word_le_nat_alt)

theorem tbl_get_spec_witness:
  "tbl_get_key (HPK_NewCtx 4096) 2 = Some (lit_txt '':method'') \<and>
   tbl_get_value (HPK_NewCtx 4096) 2 = Some (lit_txt ''GET'') \<and>
   tbl_get_key (HPK_NewCtx 4096) 62 = None"
  using tbl_get_spec [of "HPK_NewCtx 4096" 2] tbl_get_spec [of "HPK_NewCtx 4096" 62]
  by (simp add: demo_defs sttbl_def stat_hdrs_def)

text \<open>
  C26.  Insert and lookup: after a header that fits was pushed, index 62 is that header, and
  every dynamic entry that is still there is found one index further than before.
\<close>

theorem push_then_get:
  assumes "ctx_ok c" "ct_maxsize c \<le> 0xffffffc1"
    and "txt_ok (hk_key h)" "txt_ok (hk_value h)" and "hsize h \<le> unat (ct_maxsize c)"
  shows "\<exists>c'. push_header c h = Inr c' \<and>
    tbl_get_key c' 62 = Some ((hk_key h)\<lparr>txt_huff := False\<rparr>) \<and>
    tbl_get_value c' 62 = Some ((hk_value h)\<lparr>txt_huff := False\<rparr>) \<and>
    (\<forall>idx. 62 \<le> unat idx \<and> unat idx - 61 < length (ct_dyntbl c') \<longrightarrow>
       tbl_get_key c' (idx + 1) = tbl_get_key c idx \<and>
       tbl_get_value c' (idx + 1) = tbl_get_value c idx)"
proof -
  have c: "sized c" using assms(1) by (simp add: ctx_ok_def)
  from push_header_own [OF assms(1,3,4)] obtain c' where p: "push_header c h = Inr c'"
    and c': "sized c'" "ct_maxsize c' \<le> 0xffffffc1"
    and ds: "ct_dyntbl c' = tbl_entry h # fit (unat (ct_maxsize c) - hsize h) (ct_dyntbl c)"
    using assms(2,5) by auto
  let ?f = "fit (unat (ct_maxsize c) - hsize h) (ct_dyntbl c)"
  obtain es where es: "ct_dyntbl c = ?f @ es" using fit_prefix by blast
  have shift: "tbl_get_field c' (idx + 1) key = tbl_get_field c idx key"
    if "62 \<le> unat idx" "unat idx - 61 < length (ct_dyntbl c')" for idx key
  proof -
    have u: "unat (idx + 1) = unat idx + 1"
    proof -
      have "32 * length (ct_dyntbl c') < 2 ^ 32"
        using length_tsize [of "ct_dyntbl c'"] c'(1) unat_u32_less [of "ct_size c'"]
        by (simp add: sized_def)
      then show ?thesis using that by (subst unat_add_u32) simp_all
    qed
    have "unat idx - 62 < length ?f" using that ds by simp
    moreover from this have "ct_dyntbl c ! (unat idx - 62) = ?f ! (unat idx - 62)"
      "unat idx - 62 < length (ct_dyntbl c)"
      using es by (metis nth_append, metis length_append trans_less_add1)
    ultimately show ?thesis
      using that by (simp add: tbl_get_field_eq [OF c'] tbl_get_field_eq [OF c assms(2)]
          word_le_nat_alt u ds nth_Cons' Suc_diff_le)
  qed
  have "tbl_get_field c' 62 key =
      Some ((if key then hk_key h else hk_value h)\<lparr>txt_huff := False\<rparr>)" for key
    by (simp add: tbl_get_field_eq [OF c'] ds tbl_entry_def)
  with p shift show ?thesis by (simp add: tbl_get_key_def tbl_get_value_def)
qed

theorem push_then_get_witness:
  "\<exists>c'. push_header (HPK_NewCtx 100) (demo_hdr ''abc'' ''defg'') = Inr c' \<and>
     tbl_get_key c' 62 = Some (lit_txt ''abc'') \<and> tbl_get_value c' 62 = Some (lit_txt ''defg'')"
  using push_then_get [of "HPK_NewCtx 100" "demo_hdr ''abc'' ''defg''"]
  by (auto simp: demo_defs)

text \<open>
  C31.  A literal header that takes its name from dynamic index \<open>62 + k\<close> cannot be inserted when
  making room for it evicts that very entry: the second lookup of the name finds nothing and
  the assertion \<open>AN(ih)\<close> ends the process.  (RFC 7541, 4.4 requires the insertion to succeed.)
  A value so long that \<open>value.len + 32\<close> is no \<open>int\<close> is undefined before that.
\<close>

theorem push_header_name_evicted:
  assumes "ctx_ok c" "ct_maxsize c \<le> 0xffffffc1"
    and "k < length (ct_dyntbl c)" "unat (hk_i h) = 62 + k" "txt_ptr (hk_key h) = None"
    and "L = txt_len (hk_key (ct_dyntbl c ! k)) + txt_len (hk_value h) + 32"
    and "L \<le> unat (ct_maxsize c)"
    and "length (fit (unat (ct_maxsize c) - L) (ct_dyntbl c)) \<le> k"
  shows "push_header c h = Inl (if txt_len (hk_value h) + 32 < 2 ^ 31 then AssertFail else Undefined)"
proof (cases "txt_len (hk_value h) + 32 < 2 ^ 31")
  case True
  let ?k = "hk_key (ct_dyntbl c ! k)"
  have c: "sized c" using assms(1) by (simp add: ctx_ok_def)
  have i: "hk_i h \<noteq> 0" "\<not> hk_i h \<le> 61" using assms(4) dyn_index [OF assms(4)] by auto
  then have "name_of c h = Some ?k"
    using assms(3-5) by (simp add: name_of_def tbl_get_key_def tbl_get_field_eq [OF c assms(2)])
  moreover have "L = hsize (h\<lparr>hk_key := ?k\<rparr>)" using assms(6) by (simp add: hsize_def)
  moreover have "name_evicted c h L" using assms(4,5,7,8) i by (simp add: name_evicted_def not_le)
  ultimately show ?thesis using push_header_evicts_own_name [OF assms(1,2) True] True by simp
next
  case False
  moreover have "ct_maxsize c \<noteq> 0" "ct_size c \<le> ct_maxsize c"
    using assms(1,6,7) by (auto simp: ctx_ok_def sized_def)
  ultimately show ?thesis by (simp add: push_header_def)
qed

theorem push_header_name_evicted_witness:
  "push_header (demo_ctx\<lparr>ct_maxsize := 64\<rparr>) ((demo_hdr ''x'' ''y'')\<lparr>hk_key := null_txt, hk_i := 62\<rparr>)
     = Inl AssertFail"
proof -
  let ?h = "(demo_hdr ''x'' ''y'')\<lparr>hk_key := null_txt, hk_i := 62\<rparr>"
  have "push_header (demo_ctx\<lparr>ct_maxsize := 64\<rparr>) ?h
      = Inl (if txt_len (hk_value ?h) + 32 < 2 ^ 31 then AssertFail else Undefined)"
    by (rule push_header_name_evicted [where k = 0 and L = 36]) (simp_all add: demo_defs tbl_entry_def)
  then show ?thesis by (simp add: demo_defs)
qed

end
