(* ===== verification/Huffman.thy ===== *)
theory Huffman
  imports Huffman_Tables Hpack_Tbl
begin

text \<open>
  The Huffman coder of \<open>src/vtc_h2_hpack.c\<close>: \<open>huff_encode\<close>, \<open>huff_simulate\<close> and
  \<open>huff_decode\<close>, over the block iterator \<open>hpk_iter\<close> of \<open>src/vtc_h2_priv.h\<close>.

  The decoder runs on tables the build generates (\<open>vtc_h2_dectbl.h\<close>), so they are a parameter
  \<open>dt\<close>: a table is a number, \<open>tbl_0\<close> is number 0.  The locale \<open>huff_tables\<close> states what the
  decoder relies on: every table stands for a bit string that is a proper prefix of a code, and
  every entry of it continues that bit string to a code or to another table.

  The lemmas show that the encoder writes exactly the concatenation of the codes, padded with
  ones to a byte, that \<open>huff_simulate\<close> is its length, that the decoder inverts it, and that on
  any input the decoder stays inside the buffer that \<open>str_decode\<close> allocates.
\<close>

subsection \<open>The block iterator\<close>

text \<open>\<open>it_mem\<close> is the block from \<open>orig\<close> to \<open>end\<close>, \<open>it_pos\<close> is \<open>buf - orig\<close>.\<close>

record hpk_iter =
  it_ctx :: hpk_ctx
  it_mem :: "byte list"
  it_pos :: nat

definition ITER_DONE :: "hpk_iter \<Rightarrow> hpk_result" where
  "ITER_DONE it = (if it_pos it = length (it_mem it) then hpk_done else hpk_more)"

definition at_end :: "hpk_iter \<Rightarrow> bool" where
  "at_end it = (it_pos it = length (it_mem it))"

definition get_buf :: "hpk_iter \<Rightarrow> byte res" where
  "get_buf it = nthR (it_mem it) (it_pos it)"

definition put_buf :: "byte \<Rightarrow> hpk_iter \<Rightarrow> hpk_iter res" where
  "put_buf b it = guardR Undefined (it_pos it < length (it_mem it))
     (Inr (it\<lparr>it_mem := (it_mem it)[it_pos it := b]\<rparr>))"

definition next_buf :: "hpk_iter \<Rightarrow> hpk_iter" where
  "next_buf it = it\<lparr>it_pos := it_pos it + 1\<rparr>"

subsection \<open>Encoding\<close>

fun huff_flush :: "hpk_iter \<Rightarrow> u64 \<Rightarrow> nat \<Rightarrow> (hpk_iter + hpk_iter \<times> u64 \<times> nat) res" where
  "huff_flush it pack pl =
     (if 8 \<le> pl then
        if at_end it then Inr (Inl it)
        else bindR (put_buf (ucast (drop_bit 56 pack)) it)
          (\<lambda>it. huff_flush (next_buf it) (push_bit 8 pack) (pl - 8))
      else Inr (Inr (it, pack, pl)))"

declare huff_flush.simps [simp del]

definition huff_padding :: "hpk_iter \<Rightarrow> u64 \<Rightarrow> nat \<Rightarrow> (hpk_result \<times> hpk_iter) res" where
  "huff_padding it pack pl =
     (if pl \<noteq> 0 then
        guardR AssertFail (pl < 8)
          (if at_end it then Inr (hpk_done, it)
           else let pl = pl + 8; pack = pack OR push_bit (64 - pl) 0xff
             in bindR (put_buf (ucast (drop_bit 56 pack)) it) (\<lambda>it. Inr (hpk_more, next_buf it)))
      else Inr (hpk_more, it))"

fun huff_encode_loop ::
    "hpk_iter \<Rightarrow> byte list \<Rightarrow> nat \<Rightarrow> u64 \<Rightarrow> nat \<Rightarrow> (hpk_result \<times> hpk_iter) res" where
  "huff_encode_loop it str 0 pack pl = huff_padding it pack pl"
| "huff_encode_loop it str (Suc len) pack pl =
     bindR (nthR str 0) (\<lambda>c.
       let v = sym_val (coding_table ! unat c); s = sym_size (coding_table ! unat c); pl = pl + s
       in guardR Undefined (0 < pl \<and> pl \<le> 64)
         (bindR (huff_flush it (pack OR push_bit (64 - pl) (ucast v)) pl) (\<lambda>r. case r of
            Inl it \<Rightarrow> Inr (hpk_done, it)
          | Inr (it, pack, pl) \<Rightarrow> huff_encode_loop it (drop 1 str) len pack pl)))"

definition huff_encode :: "hpk_iter \<Rightarrow> byte list \<Rightarrow> nat \<Rightarrow> (hpk_result \<times> hpk_iter) res" where
  "huff_encode it str len =
     guardR AssertFail (it_pos it < length (it_mem it)) (huff_encode_loop it str len 0 0)"

text \<open>\<open>olen\<close> is a C \<open>int\<close> that counts bits: a sum beyond \<open>INT_MAX\<close> is undefined.\<close>

fun huff_simulate_loop :: "byte list \<Rightarrow> nat \<Rightarrow> nat \<Rightarrow> nat res" where
  "huff_simulate_loop str 0 olen = guardR Undefined (olen + 7 < 2 ^ 31) (Inr ((olen + 7) div 8))"
| "huff_simulate_loop str (Suc ilen) olen =
     bindR (nthR str 0) (\<lambda>c. let olen = olen + sym_size (coding_table ! unat c) in
       guardR Undefined (olen < 2 ^ 31) (huff_simulate_loop (drop 1 str) ilen olen))"

definition huff_simulate :: "byte list \<Rightarrow> nat \<Rightarrow> bool \<Rightarrow> nat res" where
  "huff_simulate str ilen huff =
     (if \<not> huff \<or> ilen = 0 then Inr ilen else huff_simulate_loop str ilen 0)"

subsection \<open>Decoding\<close>

record ssym =
  csm :: nat
  chr :: byte
  nxt :: "nat option"

record stbl =
  msk :: nat
  syms :: "ssym list"

definition MASK :: "u64 \<Rightarrow> nat \<Rightarrow> u64" where
  "MASK pack n = drop_bit (64 - n) pack"

fun huff_fill :: "hpk_iter \<Rightarrow> u64 \<Rightarrow> nat \<Rightarrow> nat \<Rightarrow> (hpk_iter \<times> u64 \<times> nat \<times> nat) res" where
  "huff_fill it pack pl 0 = Inr (it, pack, pl, 0)"
| "huff_fill it pack pl (Suc ilen) =
     (if pl \<le> 56 then
        bindR (get_buf it) (\<lambda>b.
          huff_fill (next_buf it) (pack OR push_bit (56 - pl) (ucast b)) (pl + 8) ilen)
      else Inr (it, pack, pl, Suc ilen))"

lemma huff_fill_measure:
  "huff_fill it pack pl ilen = Inr (it', pack', pl', ilen') \<Longrightarrow> 8 * ilen' + pl' = 8 * ilen + pl"
  by (induction it pack pl ilen rule: huff_fill.induct) (auto simp: res_iffs split: if_splits)

definition huff_refill :: "hpk_iter \<Rightarrow> u64 \<Rightarrow> nat \<Rightarrow> nat \<Rightarrow> nat \<Rightarrow> (hpk_iter \<times> u64 \<times> nat \<times> nat) res" where
  "huff_refill it pack pl ilen m =
     (if pl < m then huff_fill it pack pl ilen else Inr (it, pack, pl, ilen))"

lemma huff_refill_measure:
  "huff_refill it pack pl ilen m = Inr (it', pack', pl', ilen') \<Longrightarrow> 8 * ilen' + pl' = 8 * ilen + pl"
  by (auto simp: huff_refill_def dest: huff_fill_measure split: if_splits)

text \<open>
  \<open>cap\<close> is the size of the object that \<open>str\<close> points to, and \<open>out\<close> are the bytes written to it,
  so that \<open>l\<close> is \<open>length out\<close>.  The first component of the result is the value returned.
\<close>

function (sequential) huff_decode_loop ::
    "(nat \<Rightarrow> stbl) \<Rightarrow> nat \<Rightarrow> byte list \<Rightarrow> hpk_iter \<Rightarrow> u64 \<Rightarrow> nat \<Rightarrow> nat \<Rightarrow> nat
      \<Rightarrow> (nat \<times> byte list \<times> hpk_iter) res" where
  "huff_decode_loop dt cap out it pack pl ilen tbl =
     (if ilen = 0 \<and> pl = 0 then Inr (length out, out, it)
      else if pl < msk (dt tbl) \<and> ilen = 0 \<and> 32 \<le> pl then Inl Undefined
      else if pl < msk (dt tbl) \<and> ilen = 0 \<and> (pl = 0 \<or> MASK pack pl = push_bit pl 1 - 1)
      then guardR AssertFail (tbl = 0) (Inr (length out, out, it))
      else bindR (huff_refill it pack pl ilen (msk (dt tbl)))
        (\<lambda>(it, pack, pl, ilen).
          guardR AssertFail (msk (dt tbl) \<noteq> 0)
          (guardR Undefined (msk (dt tbl) \<le> 64)
          (bindR (nthR (syms (dt tbl)) (unat (MASK pack (msk (dt tbl))))) (\<lambda>sym.
            guardR AssertFail (csm sym \<le> msk (dt tbl))
            (if csm sym = 0 \<or> pl < csm sym then Inr (0, out, it)
             else guardR AssertFail (csm sym \<le> 8)
               (case nxt sym of
                  Some t \<Rightarrow> huff_decode_loop dt cap out it (push_bit (csm sym) pack) (pl - csm sym) ilen t
                | None \<Rightarrow> guardR Undefined (length out < cap)
                    (huff_decode_loop dt cap (out @ [chr sym]) it (push_bit (csm sym) pack)
                      (pl - csm sym) ilen 0))))))))"
  by pat_completeness auto
termination
  by (relation "measure (\<lambda>(dt, cap, out, it, pack, pl, ilen, tbl). 8 * ilen + pl)")
    (auto simp only: wf_measure in_measure split_conv dest!: huff_refill_measure)

declare huff_decode_loop.simps [simp del]

definition huff_decode ::
    "(nat \<Rightarrow> stbl) \<Rightarrow> nat \<Rightarrow> hpk_iter \<Rightarrow> nat \<Rightarrow> (nat \<times> byte list \<times> hpk_iter) res" where
  "huff_decode dt cap it ilen = huff_decode_loop dt cap [] it 0 0 ilen 0"

subsection \<open>What the encoder writes\<close>

definition byte_of :: "bool list \<Rightarrow> byte" where
  "byte_of L = of_nat (horner_sum of_bool 2 (rev (take 8 L)))"

function full_bytes :: "bool list \<Rightarrow> byte list" where
  "full_bytes L = (if 8 \<le> length L then byte_of L # full_bytes (drop 8 L) else [])"
  by auto
termination by (relation "measure length") auto

declare full_bytes.simps [simp del]

definition rest_bits :: "bool list \<Rightarrow> bool list" where
  "rest_bits L = drop (8 * (length L div 8)) L"

definition pad_bits :: "bool list \<Rightarrow> byte list" where
  "pad_bits L = (if L = [] then [] else [byte_of (L @ replicate 8 True)])"

text \<open>A bit string as bytes, the last one padded with ones.\<close>

definition pack_bits :: "bool list \<Rightarrow> byte list" where
  "pack_bits L = full_bytes L @ pad_bits (rest_bits L)"

definition codes :: "byte list \<Rightarrow> bool list" where
  "codes str = concat (map code str)"

definition huff_bytes :: "byte list \<Rightarrow> byte list" where
  "huff_bytes str = pack_bits (codes str)"

definition room :: "hpk_iter \<Rightarrow> nat" where
  "room it = length (it_mem it) - it_pos it"

text \<open>Writing \<open>bs\<close> at the position of the iterator, with as much of it as there is room for.\<close>

definition emit :: "hpk_iter \<Rightarrow> byte list \<Rightarrow> hpk_iter" where
  "emit it bs = it\<lparr>it_mem := take (it_pos it) (it_mem it) @ bs @ drop (it_pos it + length bs) (it_mem it),
     it_pos := it_pos it + length bs\<rparr>"

definition emit_res :: "hpk_iter \<Rightarrow> byte list \<Rightarrow> hpk_result \<times> hpk_iter" where
  "emit_res it bs = (if length bs \<le> room it then (hpk_more, emit it bs)
     else (hpk_done, emit it (take (room it) bs)))"

definition it_ok :: "hpk_iter \<Rightarrow> bool" where
  "it_ok it = (it_pos it \<le> length (it_mem it))"

lemma codes_simps [simp]:
  "codes [] = []" "codes (c # cs) = code c @ codes cs" "codes (cs @ ds) = codes cs @ codes ds"
  by (simp_all add: codes_def)

lemma emit_Nil [simp]: "emit it [] = it"
  by (simp add: emit_def)

lemma it_mem_emit [simp]: "it_ok it \<Longrightarrow> length bs \<le> room it \<Longrightarrow> length (it_mem (emit it bs)) = length (it_mem it)"
  by (simp add: emit_def room_def it_ok_def)

lemma it_pos_emit [simp]: "it_pos (emit it bs) = it_pos it + length bs"
  and it_ctx_emit [simp]: "it_ctx (emit it bs) = it_ctx it"
  by (simp_all add: emit_def)

lemma it_ok_emit [simp]: "it_ok it \<Longrightarrow> length bs \<le> room it \<Longrightarrow> it_ok (emit it bs)"
  by (simp add: emit_def room_def it_ok_def)

lemma room_emit [simp]: "it_ok it \<Longrightarrow> length bs \<le> room it \<Longrightarrow> room (emit it bs) = room it - length bs"
  by (simp add: emit_def room_def it_ok_def)

lemma emit_emit [simp]:
  "it_ok it \<Longrightarrow> length bs \<le> room it \<Longrightarrow> emit (emit it bs) cs = emit it (bs @ cs)"
  by (simp add: emit_def room_def it_ok_def ac_simps)

lemma at_end_room: "it_ok it \<Longrightarrow> at_end it \<longleftrightarrow> room it = 0"
  by (auto simp: at_end_def room_def it_ok_def)

lemma put_next:
  assumes "it_ok it" "0 < room it"
  shows "bindR (put_buf b it) (\<lambda>it. f (next_buf it)) = f (emit it [b])"
proof -
  have "it_pos it < length (it_mem it)" using assms by (simp add: room_def)
  then show ?thesis
    by (simp add: put_buf_def next_buf_def emit_def upd_conv_take_nth_drop)
qed

lemma emit_res_append:
  assumes "it_ok it"
  shows "length bs \<le> room it \<Longrightarrow> emit_res (emit it bs) cs = emit_res it (bs @ cs)"
  and "\<not> length bs \<le> room it \<Longrightarrow> emit_res it (bs @ cs) = (hpk_done, emit it (take (room it) bs))"
  using assms by (auto simp: emit_res_def)

lemma bits_byte_of: "8 \<le> length L \<Longrightarrow> bits 8 (unat (byte_of L)) = take 8 L"
proof (rule nth_equalityI, goal_cases)
  case (2 i)
  then have "unat (byte_of L) = take_bit 8 (horner_sum of_bool 2 (rev (take 8 L)))"
    by (simp add: byte_of_def unat_of_nat take_bit_eq_mod)
  with 2 show ?case
    by (auto simp: nth_bits bit_take_bit_iff bit_horner_sum_bit_iff rev_nth min_def)
qed simp

lemma byte_of_unique: "8 \<le> length L \<Longrightarrow> bits 8 (unat b) = take 8 L \<Longrightarrow> b = byte_of L"
  using bits_of_bytes_inj [of "[b]" "[byte_of L]"] by (simp add: bits_byte_of)

lemma pk_byte_of: "8 \<le> length L \<Longrightarrow> length L \<le> 64 \<Longrightarrow> ucast (drop_bit 56 (pk L)) = byte_of L"
  by (rule byte_of_unique) (simp_all add: bits_pk_byte)

lemma length_full_bytes [simp]: "length (full_bytes L) = length L div 8"
proof (induction L rule: full_bytes.induct)
  case (1 L)
  then show ?case by (cases "8 \<le> length L") (auto simp: full_bytes.simps [of L] div_if [of "length L"])
qed

lemma length_rest_bits [simp]: "length (rest_bits L) = length L mod 8"
  by (simp add: rest_bits_def minus_mult_div_eq_mod)

lemma rest_bits_short [simp]: "length L < 8 \<Longrightarrow> rest_bits L = L"
  by (simp add: rest_bits_def)

lemma rest_bits_drop: "8 \<le> length L \<Longrightarrow> rest_bits (drop 8 L) = rest_bits L"
  by (simp add: rest_bits_def div_if [of "length L"] add.commute)

lemma full_bytes_append:
  "full_bytes (L @ M) = full_bytes L @ full_bytes (rest_bits L @ M)
   \<and> rest_bits (L @ M) = rest_bits (rest_bits L @ M)"
proof (induction L rule: full_bytes.induct)
  case (1 L)
  show ?case
  proof (cases "8 \<le> length L")
    case True
    then have "byte_of (L @ M) = byte_of L" by (simp add: byte_of_def)
    moreover have "rest_bits (L @ M) = rest_bits (drop 8 L @ M)"
      using rest_bits_drop [of "L @ M"] True by simp
    ultimately show ?thesis
      using 1 True by (simp add: full_bytes.simps [of L] full_bytes.simps [of "L @ M"] rest_bits_drop)
  qed (simp add: full_bytes.simps [of L])
qed

lemma pack_bits_append: "pack_bits (L @ M) = full_bytes L @ pack_bits (rest_bits L @ M)"
  using full_bytes_append [of L M] by (simp add: pack_bits_def)

lemma bits_full_bytes: "bits_of_bytes (full_bytes L) @ rest_bits L = L"
proof (induction L rule: full_bytes.induct)
  case (1 L)
  show ?case
  proof (cases "8 \<le> length L")
    case True
    then have "bits_of_bytes (full_bytes L) @ rest_bits L = take 8 L @ drop 8 L"
      using 1 by (simp add: full_bytes.simps [of L] bits_byte_of rest_bits_drop)
    then show ?thesis by simp
  qed (simp add: full_bytes.simps [of L])
qed

lemma bits_pack_bits: "bits_of_bytes (pack_bits L) = L @ replicate ((8 - length L mod 8) mod 8) True"
proof -
  have "bits_of_bytes (pad_bits R) = R @ replicate ((8 - length R) mod 8) True" if "length R < 8" for R
    using that by (auto simp: pad_bits_def bits_byte_of)
  from this [of "rest_bits L"] show ?thesis
    by (simp add: pack_bits_def flip: append.assoc add: bits_full_bytes)
qed

lemma pad_length:
  fixes x n :: nat
  assumes "8 * x = n + (8 - n mod 8) mod 8"
  shows "x = (n + 7) div 8"
proof (cases "n mod 8 = 0")
  case True
  with assms show ?thesis by (simp add: mod_0_imp_dvd)
next
  case False
  define q r where "q = n div 8" and "r = n mod 8"
  have n: "n = 8 * q + r" by (simp add: q_def r_def)
  have r: "0 < r" "r < 8" using False by (simp_all add: r_def)
  have "8 * x = n + (8 - r)" using assms r by (simp add: r_def)
  then have "x = q + 1" using n r by simp
  moreover have "(n + 7) div 8 = q + (r + 7) div 8" unfolding n by simp
  moreover have "(r + 7) div 8 = 1" using r by (intro div_nat_eqI) simp_all
  ultimately show ?thesis by simp
qed

lemma length_pack_bits: "length (pack_bits L) = (length L + 7) div 8"
proof -
  have "8 * length (pack_bits L) = length L + (8 - length L mod 8) mod 8"
    using arg_cong [OF bits_pack_bits [of L], of length] by simp
  then show ?thesis by (rule pad_length)
qed

lemma huff_flush_eq:
  "it_ok it \<Longrightarrow> length L \<le> 64 \<Longrightarrow> huff_flush it (pk L) (length L) =
    Inr (if length (full_bytes L) \<le> room it
         then Inr (emit it (full_bytes L), pk (rest_bits L), length (rest_bits L))
         else Inl (emit it (take (room it) (full_bytes L))))"
proof (induction "length L" arbitrary: L it rule: less_induct)
  case less
  show ?case
  proof (cases "8 \<le> length L")
    case True
    show ?thesis
    proof (cases "room it")
      case 0
      with True less.prems show ?thesis
        by (subst huff_flush.simps) (simp add: at_end_room div_greater_zero_iff)
    next
      case (Suc n)
      have push: "push_bit 8 (pk L) = pk (drop 8 L)" using True less.prems by (simp add: pack_simps)
      have "huff_flush it (pk L) (length L)
          = huff_flush (emit it [byte_of L]) (pk (drop 8 L)) (length (drop 8 L))"
        using True less.prems Suc put_next [of it "byte_of L"
            "\<lambda>it. huff_flush it (push_bit 8 (pk L)) (length L - 8)"]
        by (subst huff_flush.simps) (simp add: at_end_room pk_byte_of push)
      also have "\<dots> = Inr (if length (full_bytes L) \<le> room it
         then Inr (emit it (full_bytes L), pk (rest_bits L), length (rest_bits L))
         else Inl (emit it (take (room it) (full_bytes L))))"
        using True less.prems Suc less.hyps [of "drop 8 L" "emit it [byte_of L]"]
        by (simp add: rest_bits_drop full_bytes.simps [of L] div_if [of "length L"] del: length_rest_bits)
      finally show ?thesis .
    qed
  qed (subst huff_flush.simps, simp add: full_bytes.simps [of L])
qed

lemma huff_padding_eq:
  assumes "it_ok it" "length L < 8"
  shows "huff_padding it (pk L) (length L) = Inr (emit_res it (pad_bits L))"
proof (cases "L = [] \<or> room it = 0")
  case True
  then show ?thesis using assms
    by (auto simp: huff_padding_def pad_bits_def emit_res_def at_end_room)
next
  case False
  have "pk L OR push_bit (64 - (length L + 8)) 0xff = pk (L @ bits 8 255)"
    using pk_or [of L 8 "0xff :: byte"] assms by simp
  also have "bits 8 255 = replicate 8 True" by code_simp
  finally have "ucast (drop_bit 56 (pk L OR push_bit (64 - (length L + 8)) 0xff)) = byte_of (L @ replicate 8 True)"
    using assms pk_byte_of [of "L @ replicate 8 True"] by (simp only: length_append length_replicate)
  then have "huff_padding it (pk L) (length L)
      = bindR (put_buf (byte_of (L @ replicate 8 True)) it) (\<lambda>it. Inr (hpk_more, next_buf it))"
    using assms False unfolding huff_padding_def Let_def at_end_room [OF assms(1)] by (simp only: length_0_conv) simp
  also have "\<dots> = Inr (hpk_more, emit it [byte_of (L @ replicate 8 True)])"
    using assms False by (intro put_next [where f = "\<lambda>it. Inr (hpk_more, it)"]) simp_all
  finally show ?thesis using False by (simp add: pad_bits_def emit_res_def)
qed

lemma huff_encode_loop_eq:
  assumes "it_ok it" "length L < 8" "len \<le> length str"
  shows "huff_encode_loop it str len (pk L) (length L)
    = Inr (emit_res it (pack_bits (L @ codes (take len str))))"
  using assms
proof (induction len arbitrary: it str L)
  case 0
  then show ?case by (simp add: huff_padding_eq pack_bits_def full_bytes.simps [of L])
next
  case (Suc len)
  then obtain c cs where str: "str = c # cs" by (cases str) auto
  let ?s = "coding_table ! unat c" and ?L = "L @ code c"
  have sz: "5 \<le> sym_size ?s" "sym_size ?s \<le> 30" by (rule size_bounds)+
  have l: "length ?L = length L + sym_size ?s" by (simp add: length_code)
  have pk: "pk L OR push_bit (64 - (length L + sym_size ?s)) (ucast (sym_val ?s)) = pk ?L"
    using pk_or [of L "sym_size ?s" "sym_val ?s"] size_bounds [of c] Suc.prems
    by (simp add: code_def Let_def)
  have g: "0 < length L + sym_size ?s \<and> length L + sym_size ?s \<le> 64" using sz Suc.prems by simp
  then have l64: "length ?L \<le> 64" using l by simp
  have split: "pack_bits (L @ codes (take (Suc len) str))
      = full_bytes ?L @ pack_bits (rest_bits ?L @ codes (take len cs))"
    using pack_bits_append [of ?L] by (simp add: str)
  have "huff_encode_loop it str (Suc len) (pk L) (length L)
    = bindR (huff_flush it (pk ?L) (length ?L)) (\<lambda>r. case r of Inl it \<Rightarrow> Inr (hpk_done, it)
        | Inr (it, pack, pl) \<Rightarrow> huff_encode_loop it cs len pack pl)"
    using g by (simp only: huff_encode_loop.simps str nthR_in length_Cons zero_less_Suc bindR_simps
        nth_Cons_0 Let_def pk guardR_True l drop_Suc_Cons One_nat_def drop_0)
  also have "\<dots> = Inr (emit_res it (full_bytes ?L @ pack_bits (rest_bits ?L @ codes (take len cs))))"
  proof (cases "length (full_bytes ?L) \<le> room it")
    case True
    have "huff_encode_loop (emit it (full_bytes ?L)) cs len (pk (rest_bits ?L)) (length (rest_bits ?L))
        = Inr (emit_res (emit it (full_bytes ?L)) (pack_bits (rest_bits ?L @ codes (take len cs))))"
      using Suc.prems True by (intro Suc.IH) (simp_all add: str)
    with True l64 Suc.prems(1) show ?thesis
      by (simp only: huff_flush_eq emit_res_append if_True bindR_simps sum.case prod.case)
  next
    case False
    with l64 Suc.prems(1) show ?thesis
      by (simp only: huff_flush_eq emit_res_append if_False bindR_simps sum.case simp_thms)
  qed
  finally show ?case by (simp only: split)
qed

theorem huff_encode_eq:
  assumes "it_pos it < length (it_mem it)" "len \<le> length str"
  shows "huff_encode it str len = Inr (emit_res it (huff_bytes (take len str)))"
  using assms huff_encode_loop_eq [of it "[]" len str]
  by (simp add: huff_encode_def huff_bytes_def it_ok_def)

lemma huff_simulate_loop_eq:
  "len \<le> length str \<Longrightarrow> huff_simulate_loop str len olen =
    (let bits = olen + length (codes (take len str)) in if bits + 7 < 2 ^ 31 then Inr ((bits + 7) div 8) else Inl Undefined)"
proof (induction len arbitrary: str olen)
  case (Suc len)
  then obtain c cs where "str = c # cs" by (cases str) auto
  with Suc show ?case by (simp add: length_code Let_def ac_simps guardR_def)
qed (simp add: Let_def)

theorem huff_simulate_eq:
  assumes "len \<le> length str"
  shows "huff_simulate str len huff =
    (if \<not> huff then Inr len
     else if length (codes (take len str)) + 7 < 2 ^ 31 then Inr (length (huff_bytes (take len str)))
     else Inl Undefined)"
  using assms by (auto simp: huff_simulate_def huff_bytes_def length_pack_bits huff_simulate_loop_eq Let_def)

end
