(* ===== verification/Huffman_Dec.thy ===== *)
theory Huffman_Dec
  imports Huffman
begin

text \<open>
  The correctness of \<open>huff_decode\<close> for any decoding tables that satisfy the laws of the locale
  \<open>huff_tables\<close>.  A table \<open>tb\<close> stands for the bit string \<open>pre tb\<close> that leads to it; the
  accumulator holds a bit string \<open>L\<close> (\<open>pk L\<close>), and \<open>inp it ilen\<close> are the bits still to be read.

  \<open>decode_codes\<close>: if \<open>pre tb\<close>, the accumulator and the input are the codes of a string followed
  by fewer than eight ones, the decoder returns that string.  \<open>decode_safe\<close>: on any input the
  decoder writes at most one character per five bits.
\<close>

subsection \<open>The accumulator of the decoder\<close>

definition inp :: "hpk_iter \<Rightarrow> nat \<Rightarrow> bool list" where
  "inp it ilen = bits_of_bytes (take ilen (drop (it_pos it) (it_mem it)))"

definition skip :: "nat \<Rightarrow> hpk_iter \<Rightarrow> hpk_iter" where
  "skip n it = it\<lparr>it_pos := it_pos it + n\<rparr>"

lemma skip_simps [simp]:
  "it_pos (skip n it) = it_pos it + n" "it_mem (skip n it) = it_mem it" "it_ctx (skip n it) = it_ctx it"
  "skip 0 it = it" "skip m (skip n it) = skip (n + m) it"
  by (simp_all add: skip_def ac_simps)

lemma length_inp: "it_pos it + ilen \<le> length (it_mem it) \<Longrightarrow> length (inp it ilen) = 8 * ilen"
  by (simp add: inp_def)

lemma inp_0 [simp]: "inp it 0 = []"
  by (simp add: inp_def)

lemma inp_Suc:
  "it_pos it < length (it_mem it) \<Longrightarrow>
   inp it (Suc n) = bits 8 (unat (it_mem it ! it_pos it)) @ inp (skip 1 it) n"
  by (simp add: inp_def Cons_nth_drop_Suc [symmetric] del: drop_drop)

lemma huff_fill_eq:
  assumes "length L \<le> 64" "it_pos it + ilen \<le> length (it_mem it)"
  shows "\<exists>n L'. n \<le> ilen \<and> length L' \<le> 64
    \<and> huff_fill it (pk L) (length L) ilen = Inr (skip n it, pk L', length L', ilen - n)
    \<and> L' @ inp (skip n it) (ilen - n) = L @ inp it ilen \<and> (56 < length L' \<or> n = ilen)"
  using assms
proof (induction ilen arbitrary: it L)
  case 0
  then show ?case by (intro exI [of _ 0] exI [of _ L]) simp
next
  case (Suc ilen)
  show ?case
  proof (cases "length L \<le> 56")
    case True
    let ?b = "it_mem it ! it_pos it"
    let ?M = "L @ bits 8 (unat ?b)"
    have "next_buf it = skip 1 it" by (simp add: next_buf_def skip_def)
    then have eq: "huff_fill it (pk L) (length L) (Suc ilen) = huff_fill (skip 1 it) (pk ?M) (length ?M) ilen"
      using True Suc.prems pk_or_byte [OF True, of ?b] by (simp add: get_buf_def)
    from Suc.IH [of ?M "skip 1 it"] True Suc.prems
    obtain n L' where *: "n \<le> ilen" "length L' \<le> 64"
      "huff_fill (skip 1 it) (pk ?M) (length ?M) ilen = Inr (skip (1 + n) it, pk L', length L', ilen - n)"
      "L' @ inp (skip (1 + n) it) (ilen - n) = ?M @ inp (skip 1 it) ilen" "56 < length L' \<or> n = ilen"
      by auto
    show ?thesis
      by (rule exI [of _ "1 + n"], rule exI [of _ L'])
        (use * eq Suc.prems in \<open>simp add: inp_Suc\<close>)
  next
    case False
    with Suc.prems show ?thesis by (intro exI [of _ 0] exI [of _ L]) simp
  qed
qed

lemma huff_refill_eq:
  assumes "length L \<le> 64" "it_pos it + ilen \<le> length (it_mem it)" "m \<le> 8"
  shows "\<exists>n L'. n \<le> ilen \<and> length L' \<le> 64
    \<and> huff_refill it (pk L) (length L) ilen m = Inr (skip n it, pk L', length L', ilen - n)
    \<and> L' @ inp (skip n it) (ilen - n) = L @ inp it ilen \<and> (m \<le> length L' \<or> n = ilen)"
proof (cases "length L < m")
  case True
  from huff_fill_eq [OF assms(1,2)] obtain n L' where "n \<le> ilen" "length L' \<le> 64"
    "huff_fill it (pk L) (length L) ilen = Inr (skip n it, pk L', length L', ilen - n)"
    "L' @ inp (skip n it) (ilen - n) = L @ inp it ilen" "56 < length L' \<or> n = ilen" by blast
  with True assms(3) show ?thesis
    by (intro exI [of _ n] exI [of _ L']) (auto simp: huff_refill_def)
next
  case False
  with assms show ?thesis by (intro exI [of _ 0] exI [of _ L]) (simp add: huff_refill_def)
qed

lemma MASK_ones:
  assumes "length L < 64"
  shows "MASK (pk L) (length L) = push_bit (length L) 1 - 1 \<longleftrightarrow> L = replicate (length L) True"
proof -
  have m: "(push_bit (length L) 1 - 1 :: u64) = mask (length L)"
    by (simp add: mask_eq_exp_minus_1 push_bit_eq_mult)
  have b: "bit (MASK (pk L) (length L)) k \<longleftrightarrow> k < length L \<and> L ! (length L - Suc k)" for k
  proof -
    have "63 - (64 - length L + k) = length L - Suc k" "64 - length L + k < 64 \<longleftrightarrow> k < length L"
      using assms by auto
    then show ?thesis using assms by (auto simp: MASK_def bit_drop_bit_eq bit_pk)
  qed
  show ?thesis
  proof
    assume *: "MASK (pk L) (length L) = push_bit (length L) 1 - 1"
    have "L ! i" if "i < length L" for i
    proof -
      have "bit (MASK (pk L) (length L)) (length L - Suc i)"
        unfolding * m using that assms by (auto simp: bit_mask_iff)
      then show ?thesis using that unfolding b by (simp add: Suc_diff_Suc)
    qed
    then show "L = replicate (length L) True" by (simp add: list_eq_iff_nth_eq)
  next
    assume *: "L = replicate (length L) True"
    have "L ! i" if "i < length L" for i using that by (subst *) simp
    then show "MASK (pk L) (length L) = push_bit (length L) 1 - 1"
      unfolding m using b by (intro bit_word_eqI) (auto simp: bit_mask_iff)
  qed
qed

lemma MASK_index:
  assumes "m \<le> 64" "length L \<le> 64"
  shows "bits m (unat (MASK (pk L) m)) = take m (L @ replicate m False)" "unat (MASK (pk L) m) < 2 ^ m"
  using bits_pk_top [OF assms] unat_drop_bit_less [OF assms(1)] by (simp_all add: MASK_def)

subsection \<open>The decoding tables\<close>

definition eos :: "bool list" where
  "eos = replicate 30 True"

locale huff_tables =
  fixes dt :: "nat \<Rightarrow> stbl" and pre :: "nat \<Rightarrow> bool list" and ids :: "nat set"
  assumes root: "0 \<in> ids" "pre 0 = []" "msk (dt 0) = 8"
    and msk_bounds: "tb \<in> ids \<Longrightarrow> 1 \<le> msk (dt tb) \<and> msk (dt tb) \<le> 8"
    and length_syms: "tb \<in> ids \<Longrightarrow> length (syms (dt tb)) = 2 ^ msk (dt tb)"
    and inner: "tb \<in> ids \<Longrightarrow> \<exists>c. strict_prefix (pre tb) (code c)"
    and csm_bounds: "tb \<in> ids \<Longrightarrow> e \<in> set (syms (dt tb)) \<Longrightarrow> 1 \<le> csm e \<and> csm e \<le> msk (dt tb)"
    and leaf: "tb \<in> ids \<Longrightarrow> j < 2 ^ msk (dt tb) \<Longrightarrow> nxt (syms (dt tb) ! j) = None \<Longrightarrow>
      pre tb @ take (csm (syms (dt tb) ! j)) (bits (msk (dt tb)) j) \<in> {code (chr (syms (dt tb) ! j)), eos}"
    and link: "tb \<in> ids \<Longrightarrow> j < 2 ^ msk (dt tb) \<Longrightarrow> nxt (syms (dt tb) ! j) = Some tb' \<Longrightarrow>
      csm (syms (dt tb) ! j) = msk (dt tb) \<and> tb' \<in> ids \<and> pre tb' = pre tb @ bits (msk (dt tb)) j"
    and ones: "tb \<in> ids \<Longrightarrow> csm (syms (dt tb) ! (2 ^ msk (dt tb) - 1)) = msk (dt tb)"
    and ff_msk: "tb \<in> ids \<Longrightarrow> pre tb = replicate 8 True \<Longrightarrow> msk (dt tb) = 8"
begin

definition look :: "nat \<Rightarrow> bool list \<Rightarrow> ssym" where
  "look tb L = syms (dt tb) ! unat (MASK (pk L) (msk (dt tb)))"

definition win :: "nat \<Rightarrow> bool list \<Rightarrow> bool list" where
  "win tb L = take (msk (dt tb)) (L @ replicate (msk (dt tb)) False)"

lemma look_in:
  assumes "tb \<in> ids" "length L \<le> 64"
  shows "look tb L \<in> set (syms (dt tb))" "unat (MASK (pk L) (msk (dt tb))) < 2 ^ msk (dt tb)"
    "bits (msk (dt tb)) (unat (MASK (pk L) (msk (dt tb)))) = win tb L"
  using MASK_index [of "msk (dt tb)" L] msk_bounds [OF assms(1)] length_syms [OF assms(1)] assms(2)
  by (auto simp: look_def win_def)

lemma look_leaf:
  "tb \<in> ids \<Longrightarrow> length L \<le> 64 \<Longrightarrow> nxt (look tb L) = None \<Longrightarrow>
   pre tb @ take (csm (look tb L)) (win tb L) \<in> {code (chr (look tb L)), eos}"
  using leaf [of tb "unat (MASK (pk L) (msk (dt tb)))"] look_in [of tb L] by (simp add: look_def)

lemma look_link:
  "tb \<in> ids \<Longrightarrow> length L \<le> 64 \<Longrightarrow> nxt (look tb L) = Some tb' \<Longrightarrow>
   csm (look tb L) = msk (dt tb) \<and> tb' \<in> ids \<and> pre tb' = pre tb @ win tb L"
  using link [of tb "unat (MASK (pk L) (msk (dt tb)))"] look_in [of tb L] by (simp add: look_def)

text \<open>One turn of the loop that does not return.\<close>

lemma loop_step:
  assumes "tb \<in> ids" "length L \<le> 64" "it_pos it + ilen \<le> length (it_mem it)"
    "L @ inp it ilen \<noteq> []" "\<not> (length L < msk (dt tb) \<and> ilen = 0 \<and> L = replicate (length L) True)"
  shows "\<exists>n L'. n \<le> ilen \<and> length L' \<le> 64 \<and> L' @ inp (skip n it) (ilen - n) = L @ inp it ilen
    \<and> (msk (dt tb) \<le> length L' \<or> n = ilen)
    \<and> huff_decode_loop dt cap out it (pk L) (length L) ilen tb =
      (if length L' < csm (look tb L') then Inr (0, out, skip n it)
       else case nxt (look tb L') of
         Some tb' \<Rightarrow> huff_decode_loop dt cap out (skip n it) (pk (drop (csm (look tb L')) L'))
           (length (drop (csm (look tb L')) L')) (ilen - n) tb'
       | None \<Rightarrow> guardR Undefined (length out < cap)
           (huff_decode_loop dt cap (out @ [chr (look tb L')]) (skip n it) (pk (drop (csm (look tb L')) L'))
             (length (drop (csm (look tb L')) L')) (ilen - n) 0))"
proof -
  let ?m = "msk (dt tb)"
  have m: "1 \<le> ?m" "?m \<le> 8" using msk_bounds assms(1) by auto
  from huff_refill_eq [OF assms(2,3) m(2)] obtain n L' where r: "n \<le> ilen" "length L' \<le> 64"
    "huff_refill it (pk L) (length L) ilen ?m = Inr (skip n it, pk L', length L', ilen - n)"
    "L' @ inp (skip n it) (ilen - n) = L @ inp it ilen" "?m \<le> length L' \<or> n = ilen" by blast
  have nz: "\<not> (ilen = 0 \<and> length L = 0)" using assms(4) by auto
  have nu: "\<not> (length L < ?m \<and> ilen = 0 \<and> 32 \<le> length L)" using m by auto
  have no: "\<not> (length L < ?m \<and> ilen = 0 \<and> (length L = 0 \<or> MASK (pk L) (length L) = push_bit (length L) 1 - 1))"
    using MASK_ones [of L] m nz assms(5) by auto
  have nth: "nthR (syms (dt tb)) (unat (MASK (pk L') ?m)) = Inr (look tb L')"
    using look_in [OF assms(1) r(2)] length_syms [OF assms(1)] by (simp add: look_def)
  have c: "1 \<le> csm (look tb L')" "csm (look tb L') \<le> ?m"
    using csm_bounds [OF assms(1) look_in(1) [OF assms(1) r(2)]] by auto
  have dr: "push_bit (csm (look tb L')) (pk L') = pk (drop (csm (look tb L')) L')"
    if "csm (look tb L') \<le> length L'" using that r(2) by (simp add: pack_simps)
  have "huff_decode_loop dt cap out it (pk L) (length L) ilen tb =
      (if length L' < csm (look tb L') then Inr (0, out, skip n it)
       else case nxt (look tb L') of
         Some tb' \<Rightarrow> huff_decode_loop dt cap out (skip n it) (pk (drop (csm (look tb L')) L'))
           (length (drop (csm (look tb L')) L')) (ilen - n) tb'
       | None \<Rightarrow> guardR Undefined (length out < cap)
           (huff_decode_loop dt cap (out @ [chr (look tb L')]) (skip n it) (pk (drop (csm (look tb L')) L'))
             (length (drop (csm (look tb L')) L')) (ilen - n) 0))"
    unfolding huff_decode_loop.simps [of dt cap out it "pk L"] if_not_P [OF nz] if_not_P [OF nu] if_not_P [OF no] r(3)
    using c m nth dr by (auto split: option.splits)
  with r show ?thesis by blast
qed

lemma pre_cases:
  assumes "tb \<in> ids" "pre tb @ B = code c @ X"
  shows "\<exists>R. R \<noteq> [] \<and> code c = pre tb @ R \<and> B = R @ X"
proof -
  obtain d where d: "strict_prefix (pre tb) (code d)" using inner assms(1) by blast
  have "\<not> prefix (code c) (pre tb)"
    using d code_prefix_free [of c d] by (metis prefix_order.less_le_not_le prefix_order.trans)
  then obtain R where R: "code c = pre tb @ R"
    using assms(2) by (metis prefix_def append_eq_append_conv2)
  moreover have "R \<noteq> []" using R \<open>\<not> prefix (code c) (pre tb)\<close> by auto
  moreover have "B = R @ X" using assms(2) R by simp
  ultimately show ?thesis by blast
qed

lemma eos_not_code: "\<not> prefix (code c) eos" "\<not> prefix eos (code c)"
proof -
  show 1: "\<not> prefix (code c) eos"
    using code_not_ones [of c] set_mono_prefix [of "code c" eos] by (auto simp: eos_def)
  then show "\<not> prefix eos (code c)"
    using code_length_bounds(2) [of c] prefix_length_le [of eos "code c"]
    by (metis eos_def length_replicate not_equal_is_parallel parallelD2 prefix_order.dual_order.eq_iff
        prefix_order.order_refl le_antisym prefix_length_prefix prefix_def same_prefix_prefix)
qed

text \<open>The window starts with the rest of a code: the entry is that code's.\<close>

lemma look_code:
  assumes "tb \<in> ids" "length L \<le> 64" "code c = pre tb @ R" "R \<noteq> []" "prefix R (win tb L)"
  shows "nxt (look tb L) = None \<and> csm (look tb L) = length R \<and> chr (look tb L) = c"
proof -
  let ?e = "look tb L" and ?w = "win tb L"
  have cs: "1 \<le> csm ?e" "csm ?e \<le> msk (dt tb)"
    using csm_bounds [OF assms(1) look_in(1) [OF assms(1,2)]] by auto
  have lw: "length ?w = msk (dt tb)" by (simp add: win_def)
  have cmp: "prefix R (take (csm ?e) ?w) \<or> prefix (take (csm ?e) ?w) R"
    using assms(5) take_is_prefix prefix_same_cases by blast
  show ?thesis
  proof (cases "nxt ?e")
    case None
    let ?W = "take (csm ?e) ?w"
    from cmp have "prefix (code c) (pre tb @ ?W) \<or> prefix (pre tb @ ?W) (code c)"
      using assms(3) by simp
    then have "pre tb @ ?W = code (chr ?e)" "chr ?e = c"
      using look_leaf [OF assms(1,2) None] eos_not_code code_prefix_free by (metis insertE singletonD)+
    then have "?W = R" using assms(3) by simp
    then show ?thesis using None \<open>chr ?e = c\<close> cs lw by auto
  next
    case (Some tb')
    then have l: "csm ?e = msk (dt tb)" "tb' \<in> ids" "pre tb' = pre tb @ ?w"
      using look_link [OF assms(1,2)] by auto
    obtain d where d: "strict_prefix (pre tb') (code d)" using inner l by blast
    have "prefix (code c) (pre tb')" using assms(3,5) l by simp
    with d code_prefix_free [of c d] show ?thesis
      by (metis prefix_order.less_le_not_le prefix_order.trans)
  qed
qed

lemma look_prefix:
  assumes "tb \<in> ids" "length L \<le> 64" "code c = pre tb @ R" "msk (dt tb) < length R" "prefix (win tb L) R"
  shows "\<exists>tb'. nxt (look tb L) = Some tb'"
proof (rule ccontr)
  assume "\<nexists>tb'. nxt (look tb L) = Some tb'"
  then have None: "nxt (look tb L) = None" by (cases "nxt (look tb L)") auto
  let ?W = "take (csm (look tb L)) (win tb L)"
  have "prefix ?W R" using assms(5) take_is_prefix prefix_order.trans by blast
  then have p: "prefix (pre tb @ ?W) (code c)" using assms(3) by simp
  then have "pre tb @ ?W = code c"
    using look_leaf [OF assms(1,2) None] eos_not_code code_prefix_free by (metis insertE singletonD)
  then have "?W = R" using assms(3) by simp
  then show False using assms(4) by (auto simp: win_def)
qed

end

text \<open>
  The outcomes of the decoder on any input: the assertion on the table fails, or at most \<open>n\<close>
  characters are written and \<open>q\<close> bytes of input consumed, all of them unless it returns 0.
\<close>

definition safe_res :: "nat \<Rightarrow> hpk_iter \<Rightarrow> nat \<Rightarrow> (nat \<times> byte list \<times> hpk_iter) res \<Rightarrow> bool" where
  "safe_res n it ilen r \<longleftrightarrow> r = Inl AssertFail
     \<or> (\<exists>l out q. r = Inr (l, out, skip q it) \<and> q \<le> ilen \<and> length out \<le> n
          \<and> (l = 0 \<or> l = length out \<and> q = ilen))"

lemma safe_res_skip:
  assumes "safe_res n (skip q it) (ilen - q) r" "q \<le> ilen"
  shows "safe_res n it ilen r"
  using assms(1) unfolding safe_res_def
proof (elim disjE exE conjE, goal_cases)
  case (2 l out q')
  then show ?case using assms(2) by (intro disjI2 exI [of _ l] exI [of _ out] exI [of _ "q + q'"]) simp
next
  case (3 l out q')
  then show ?case using assms(2) by (intro disjI2 exI [of _ l] exI [of _ out] exI [of _ "q + q'"]) simp
qed simp

lemma safe_res_Inr: "q \<le> ilen \<Longrightarrow> length out \<le> n \<Longrightarrow> l = 0 \<or> l = length out \<and> q = ilen
    \<Longrightarrow> safe_res n it ilen (Inr (l, out, skip q it))"
  unfolding safe_res_def by blast

context huff_tables
begin

lemma rest_not_ones:
  assumes "tb \<in> ids" "code c = pre tb @ R" "R \<noteq> []" "length R < msk (dt tb)"
  shows "R \<noteq> replicate (length R) True"
proof
  assume R: "R = replicate (length R) True"
  let ?m = "msk (dt tb)"
  let ?L = "replicate ?m True"
  have m: "1 \<le> ?m" "?m \<le> 8" using msk_bounds [OF assms(1)] by auto
  have "prefix R (win tb ?L)"
    using assms(4) by (subst R) (simp add: win_def prefix_def, metis le_add_diff_inverse less_imp_le replicate_add)
  then have "csm (look tb ?L) = length R" using look_code [of tb ?L c R] assms m by simp
  moreover note bits_ones [of ?m]
  then have "unat (MASK (pk ?L) ?m) = 2 ^ ?m - 1"
    using look_in(2,3) [of tb ?L] assms(1) m by (intro bits_inj [of ?m]) (auto simp: win_def)
  then have "look tb ?L = syms (dt tb) ! (2 ^ ?m - 1)" by (simp add: look_def)
  ultimately show False using ones [OF assms(1)] assms(4) by simp
qed

lemma decode_prefix:
  assumes "tb \<in> ids" "length L \<le> 64" "it_pos it + ilen \<le> length (it_mem it)"
    "pre tb @ L @ inp it ilen = codes str @ Z" "tb \<noteq> 0 \<Longrightarrow> str \<noteq> []"
    "length out + length str \<le> cap"
  shows "\<exists>n L'. n \<le> ilen \<and> length L' \<le> 64 \<and> L' @ inp (skip n it) (ilen - n) = Z
    \<and> huff_decode_loop dt cap out it (pk L) (length L) ilen tb
      = huff_decode_loop dt cap (out @ str) (skip n it) (pk L') (length L') (ilen - n) 0"
  using assms
proof (induction "8 * ilen + length L" arbitrary: ilen L it tb str out rule: less_induct)
  case less
  note li = length_inp [OF less.prems(3)]
  show ?case
  proof (cases str)
    case Nil
    then have "tb = 0" using less.prems(5) by auto
    then show ?thesis using Nil less.prems root by (intro exI [of _ 0] exI [of _ L]) simp
  next
    case (Cons c cs)
    let ?X = "codes cs @ Z" and ?m = "msk (dt tb)"
    from pre_cases [OF less.prems(1), of "L @ inp it ilen" c ?X] less.prems(4) Cons
    obtain R where R: "R \<noteq> []" "code c = pre tb @ R" "L @ inp it ilen = R @ ?X" by auto
    have no: "\<not> (length L < ?m \<and> ilen = 0 \<and> L = replicate (length L) True)"
    proof
      assume *: "length L < ?m \<and> ilen = 0 \<and> L = replicate (length L) True"
      then have "L = R @ ?X" using R by simp
      then have "length R < ?m" "set R \<subseteq> {True}" using * by (auto, metis Un_iff in_set_replicate set_append)
      then have "R = replicate (length R) True" by (metis replicate_length_same singletonD subset_iff)
      with rest_not_ones [OF less.prems(1) R(2,1)] \<open>length R < ?m\<close> show False by simp
    qed
    from R have ne: "L @ inp it ilen \<noteq> []" by simp
    from loop_step [OF less.prems(1-3) ne no, of cap out] obtain n L' where
      n: "n \<le> ilen" and L': "length L' \<le> 64" and B: "L' @ inp (skip n it) (ilen - n) = L @ inp it ilen" and
      ml: "?m \<le> length L' \<or> n = ilen" and
      step: "huff_decode_loop dt cap out it (pk L) (length L) ilen tb =
      (if length L' < csm (look tb L') then Inr (0, out, skip n it)
       else case nxt (look tb L') of
         Some tb' \<Rightarrow> huff_decode_loop dt cap out (skip n it) (pk (drop (csm (look tb L')) L'))
           (length (drop (csm (look tb L')) L')) (ilen - n) tb'
       | None \<Rightarrow> guardR Undefined (length out < cap)
           (huff_decode_loop dt cap (out @ [chr (look tb L')]) (skip n it) (pk (drop (csm (look tb L')) L'))
             (length (drop (csm (look tb L')) L')) (ilen - n) 0))" by blast
    have ok: "it_pos (skip n it) + (ilen - n) \<le> length (it_mem (skip n it))" using less.prems(3) n by simp
    have len: "length L' + 8 * (ilen - n) = 8 * ilen + length L"
      using arg_cong [OF B, of length] li length_inp [OF ok] by simp
    have dr: "drop q L' @ inp (skip n it) (ilen - n) = drop q (R @ ?X)" if "q \<le> length L'" for q
      using that unfolding R(3) [symmetric] B [symmetric] by simp
    show ?thesis
    proof (cases "length R \<le> ?m")
      case True
      have rl: "length R \<le> length L'"
      proof (cases "n = ilen")
        case True
        then have "L' = R @ ?X" using B R by simp
        then show ?thesis by simp
      qed (use ml True in simp)
      have pw: "prefix R (win tb L')"
      proof -
        have "prefix R L'" using B R rl by (metis prefix_length_prefix prefixI)
        then obtain Z where "L' = R @ Z" by (auto simp: prefix_def)
        then show ?thesis using True by (simp add: win_def)
      qed
      from look_code [OF less.prems(1) L' R(2,1) pw]
      have lk: "nxt (look tb L') = None" "csm (look tb L') = length R" "chr (look tb L') = c" by auto
      have "\<exists>n' L''. n' \<le> ilen - n \<and> length L'' \<le> 64
        \<and> L'' @ inp (skip n' (skip n it)) (ilen - n - n') = Z
        \<and> huff_decode_loop dt cap (out @ [c]) (skip n it) (pk (drop (length R) L'))
            (length (drop (length R) L')) (ilen - n) 0
          = huff_decode_loop dt cap ((out @ [c]) @ cs) (skip n' (skip n it)) (pk L'') (length L'') (ilen - n - n') 0"
      proof (rule less.hyps)
        show "8 * (ilen - n) + length (drop (length R) L') < 8 * ilen + length L"
          using len rl R(1) by (cases R) auto
        show "pre 0 @ drop (length R) L' @ inp (skip n it) (ilen - n) = ?X"
          using dr [OF rl] root by simp
      qed (use root L' ok less.prems Cons in auto)
      then obtain n' L'' where h: "n' \<le> ilen - n" "length L'' \<le> 64"
        "L'' @ inp (skip (n + n') it) (ilen - (n + n')) = Z"
        "huff_decode_loop dt cap (out @ [c]) (skip n it) (pk (drop (length R) L'))
            (length (drop (length R) L')) (ilen - n) 0
          = huff_decode_loop dt cap (out @ str) (skip (n + n') it) (pk L'') (length L'') (ilen - (n + n')) 0"
        using Cons by auto
      with step lk rl less.prems(6) Cons n show ?thesis
        by (intro exI [of _ "n + n'"] exI [of _ L'']) simp
    next
      case False
      have "?m < length L' + 8 * (ilen - n)"
        using False arg_cong [OF R(3), of length] li len by simp
      then have mL: "?m \<le> length L'" using ml by auto
      have "prefix (win tb L') R"
      proof -
        have "win tb L' = take ?m (R @ ?X)" using mL unfolding R(3) [symmetric] B [symmetric] by (simp add: win_def)
        then show ?thesis using False by (simp add: take_is_prefix)
      qed
      with look_prefix [OF less.prems(1) L' R(2)] False obtain tb' where nx: "nxt (look tb L') = Some tb'" by auto
      from look_link [OF less.prems(1) L' nx] have
        l: "csm (look tb L') = ?m" "tb' \<in> ids" "pre tb' = pre tb @ win tb L'" by auto
      have "\<exists>n' L''. n' \<le> ilen - n \<and> length L'' \<le> 64
        \<and> L'' @ inp (skip n' (skip n it)) (ilen - n - n') = Z
        \<and> huff_decode_loop dt cap out (skip n it) (pk (drop ?m L')) (length (drop ?m L')) (ilen - n) tb'
          = huff_decode_loop dt cap (out @ str) (skip n' (skip n it)) (pk L'') (length L'') (ilen - n - n') 0"
      proof (rule less.hyps)
        show "8 * (ilen - n) + length (drop ?m L') < 8 * ilen + length L"
          using len mL msk_bounds [OF less.prems(1)] by auto
        have "win tb L' = take ?m L'" using mL by (simp add: win_def)
        then show "pre tb' @ drop ?m L' @ inp (skip n it) (ilen - n) = codes str @ Z"
          using l(3) B less.prems(4) by (metis append.assoc append_take_drop_id)
      qed (use L' ok less.prems Cons l in auto)
      then obtain n' L'' where h: "n' \<le> ilen - n" "length L'' \<le> 64"
        "L'' @ inp (skip (n + n') it) (ilen - (n + n')) = Z"
        "huff_decode_loop dt cap out (skip n it) (pk (drop ?m L')) (length (drop ?m L')) (ilen - n) tb'
          = huff_decode_loop dt cap (out @ str) (skip (n + n') it) (pk L'') (length L'') (ilen - (n + n')) 0"
        by auto
      with step nx l(1) mL n show ?thesis
        by (intro exI [of _ "n + n'"] exI [of _ L'']) simp
    qed
  qed
qed


lemma decode_codes:
  assumes "it_pos it + ilen \<le> length (it_mem it)" "inp it ilen = codes str @ replicate k True" "k < 8"
    "length str \<le> cap"
  shows "huff_decode dt cap it ilen = Inr (length str, str, skip ilen it)"
proof -
  from decode_prefix [of 0 "[]" it ilen str "replicate k True" "[]" cap] assms root
  obtain n L where n: "n \<le> ilen" and L: "L @ inp (skip n it) (ilen - n) = replicate k True" and
    eq: "huff_decode dt cap it ilen = huff_decode_loop dt cap str (skip n it) (pk L) (length L) (ilen - n) 0"
    by (auto simp: huff_decode_def)
  have "length L + 8 * (ilen - n) = k"
    using arg_cong [OF L, of length] length_inp [of "skip n it" "ilen - n"] assms(1) n by simp
  then have "n = ilen" "length L < 8" using assms(3) n by auto
  moreover from this have "L = replicate (length L) True" using L by simp
  ultimately show ?thesis using MASK_ones [of L] root eq
    by (subst (asm) huff_decode_loop.simps) (auto split: if_splits)
qed

text \<open>Eight ones of padding are accepted, nine to fifteen end in the assertion on the table.\<close>

lemma decode_long_padding:
  assumes "it_pos it + ilen \<le> length (it_mem it)" "inp it ilen = codes str @ replicate k True"
    "8 \<le> k" "k < 16" "length str \<le> cap"
  shows "huff_decode dt cap it ilen = (if k = 8 then Inr (length str, str, skip ilen it) else Inl AssertFail)"
proof -
  from decode_prefix [of 0 "[]" it ilen str "replicate k True" "[]" cap] assms root
  obtain n L where n: "n \<le> ilen" "length L \<le> 64" and L: "L @ inp (skip n it) (ilen - n) = replicate k True" and
    eq: "huff_decode dt cap it ilen = huff_decode_loop dt cap str (skip n it) (pk L) (length L) (ilen - n) 0"
    by (auto simp: huff_decode_def)
  have ok: "it_pos (skip n it) + (ilen - n) \<le> length (it_mem (skip n it))" using n assms(1) by simp
  have ne: "L @ inp (skip n it) (ilen - n) \<noteq> []" using L assms(3) by simp
  have no: "\<not> (length L < msk (dt 0) \<and> ilen - n = 0 \<and> L = replicate (length L) True)"
    using arg_cong [OF L, of length] assms(3) root by auto
  from loop_step [OF root(1) n(2) ok ne no, of cap str] obtain n' L' where
    n': "n' \<le> ilen - n" "length L' \<le> 64" and
    L'': "L' @ inp (skip n' (skip n it)) (ilen - n - n') = L @ inp (skip n it) (ilen - n)" and
    ml: "msk (dt 0) \<le> length L' \<or> n' = ilen - n" and
    st: "huff_decode_loop dt cap str (skip n it) (pk L) (length L) (ilen - n) 0 =
      (if length L' < csm (look 0 L') then Inr (0, str, skip n' (skip n it))
       else case nxt (look 0 L') of
         Some tb' \<Rightarrow> huff_decode_loop dt cap str (skip n' (skip n it)) (pk (drop (csm (look 0 L')) L'))
           (length (drop (csm (look 0 L')) L')) (ilen - n - n') tb'
       | None \<Rightarrow> guardR Undefined (length str < cap)
           (huff_decode_loop dt cap (str @ [chr (look 0 L')]) (skip n' (skip n it)) (pk (drop (csm (look 0 L')) L'))
             (length (drop (csm (look 0 L')) L')) (ilen - n - n') 0))" by blast
  have L': "L' @ inp (skip (n + n') it) (ilen - n - n') = replicate k True" using L'' L by simp
  have k: "length L' + 8 * (ilen - n - n') = k"
    using arg_cong [OF L', of length] length_inp [of "skip (n + n') it" "ilen - n - n'"] assms(1) n n' by simp
  then have l8: "8 \<le> length L'" using ml assms(3) root by auto
  have tL: "L' = replicate (length L') True"
    using arg_cong [OF L', of "take (length L')"] k by (simp add: min_def)
  have w: "win 0 L' = replicate 8 True"
    using l8 root by (simp add: win_def) (subst tL, simp)
  have "nxt (look 0 L') \<noteq> None"
  proof
    assume "nxt (look 0 L') = None"
    from look_leaf [OF root(1) n'(2) this] have *: "take (csm (look 0 L')) (replicate 8 True) \<in> {code (chr (look 0 L')), eos}"
      using w root by simp
    show False
    proof (cases "take (csm (look 0 L')) (replicate 8 True) = eos")
      case True
      from arg_cong [OF this, of length] show False by (simp add: eos_def)
    next
      case False
      then show False using * code_not_ones [of "chr (look 0 L')"] by (metis in_set_takeD in_set_replicate insertE singletonD)
    qed
  qed
  then obtain tb where tb: "nxt (look 0 L') = Some tb" by auto
  from look_link [OF root(1) n'(2) tb] have c: "csm (look 0 L') = 8" "tb \<in> ids" "pre tb = replicate 8 True"
    using w root by auto
  then have m: "msk (dt tb) = 8" using ff_msk by blast
  have tb0: "tb \<noteq> 0" using c(3) root(2) by (metis length_replicate list.size(3) zero_neq_numeral)
  have i: "ilen - n - n' = 0" "length L' = k" using k l8 assms(4) by auto
  then have il: "n + n' = ilen" using n n' by auto
  have d: "drop 8 L' = replicate (k - 8) True" using tL i by (metis drop_replicate)
  let ?R = "replicate (k - 8) True"
  have mo: "MASK (pk ?R) (length ?R) = push_bit (length ?R) 1 - 1" using MASK_ones [of ?R] assms(4) by simp
  have "huff_decode_loop dt cap str (skip ilen it) (pk ?R) (length ?R) 0 tb
      = (if k = 8 then Inr (length str, str, skip ilen it) else Inl AssertFail)"
    unfolding huff_decode_loop.simps [of dt cap str "skip ilen it" "pk ?R"] mo
    using m tb0 assms(3,4) by (auto simp: guardR_def)
  then show ?thesis unfolding eq st using c(1) tb i l8 d il by simp
qed

text \<open>Padding with one to four zeros is an incomplete code.\<close>

lemma decode_zero_tail:
  assumes "it_pos it + ilen \<le> length (it_mem it)" "inp it ilen = codes str @ replicate k False"
    "1 \<le> k" "k < 5" "length str \<le> cap"
  shows "huff_decode dt cap it ilen = Inr (0, str, skip ilen it)"
proof -
  from decode_prefix [of 0 "[]" it ilen str "replicate k False" "[]" cap] assms root
  obtain n L where n: "n \<le> ilen" "length L \<le> 64" and L: "L @ inp (skip n it) (ilen - n) = replicate k False" and
    eq: "huff_decode dt cap it ilen = huff_decode_loop dt cap str (skip n it) (pk L) (length L) (ilen - n) 0"
    by (auto simp: huff_decode_def)
  have ok: "it_pos (skip n it) + (ilen - n) \<le> length (it_mem (skip n it))" using n assms(1) by simp
  have k: "length L + 8 * (ilen - n) = k"
    using arg_cong [OF L, of length] length_inp [OF ok] by simp
  then have i: "n = ilen" using assms(4) n by auto
  then have L0: "L = replicate k False" using L by simp
  have ne: "L @ inp (skip n it) (ilen - n) \<noteq> []" using L assms(3) by simp
  have "replicate k False \<noteq> replicate k True" using assms(3) by (cases k) auto
  then have no: "\<not> (length L < msk (dt 0) \<and> ilen - n = 0 \<and> L = replicate (length L) True)" using L0 by simp
  from loop_step [OF root(1) n(2) ok ne no, of cap str] obtain n' L' where
    n': "n' \<le> ilen - n" "length L' \<le> 64" and
    L': "L' @ inp (skip n' (skip n it)) (ilen - n - n') = L @ inp (skip n it) (ilen - n)" and
    st: "huff_decode_loop dt cap str (skip n it) (pk L) (length L) (ilen - n) 0 =
      (if length L' < csm (look 0 L') then Inr (0, str, skip n' (skip n it))
       else case nxt (look 0 L') of
         Some tb' \<Rightarrow> huff_decode_loop dt cap str (skip n' (skip n it)) (pk (drop (csm (look 0 L')) L'))
           (length (drop (csm (look 0 L')) L')) (ilen - n - n') tb'
       | None \<Rightarrow> guardR Undefined (length str < cap)
           (huff_decode_loop dt cap (str @ [chr (look 0 L')]) (skip n' (skip n it)) (pk (drop (csm (look 0 L')) L'))
             (length (drop (csm (look 0 L')) L')) (ilen - n - n') 0))" by blast
  have "n' = 0" using n' i by simp
  then have LL: "L' = replicate k False" using L' i L0 by simp
  have c0: "code 0x30 = replicate 5 False" by code_simp
  have "win 0 L' = replicate 8 False"
    using assms(4) root by (simp add: win_def LL flip: replicate_add)
  then have "prefix (replicate 5 False) (win 0 L')" by (simp add: prefix_def) (rule exI [of _ "replicate 3 False"], simp flip: replicate_add)
  with look_code [OF root(1) n'(2), of "0x30" "replicate 5 False"] c0 root have "csm (look 0 L') = 5" by simp
  then show ?thesis unfolding eq st using LL assms(4) i \<open>n' = 0\<close> by simp
qed

lemma decode_safe:
  assumes "tb \<in> ids" "length L \<le> 64" "it_pos it + ilen \<le> length (it_mem it)"
    "5 * length out + length (pre tb) + (8 * ilen + length L) \<le> 5 * n + 4" "n \<le> cap"
  shows "safe_res n it ilen (huff_decode_loop dt cap out it (pk L) (length L) ilen tb)"
  using assms
proof (induction "8 * ilen + length L" arbitrary: ilen L it tb out rule: less_induct)
  case less
  note li = length_inp [OF less.prems(3)]
  let ?m = "msk (dt tb)"
  consider (empty) "L = []" "ilen = 0" | (ones) "L \<noteq> []" "length L < ?m" "ilen = 0" "L = replicate (length L) True"
    | (step) "L @ inp it ilen \<noteq> []" "\<not> (length L < ?m \<and> ilen = 0 \<and> L = replicate (length L) True)"
    using li by (cases "ilen = 0") (fastforce, metis append_is_Nil_conv list.size(3) mult_is_0 zero_neq_numeral)
  then show ?case
  proof cases
    case empty
    then show ?thesis using less.prems(4) safe_res_Inr [of 0 ilen out n "length out" it]
      by (subst huff_decode_loop.simps) simp
  next
    case ones
    then have "MASK (pk L) (length L) = push_bit (length L) 1 - 1" "length L < 8"
      using MASK_ones [of L] msk_bounds [OF less.prems(1)] by auto
    with ones less.prems(4) show ?thesis using safe_res_Inr [of 0 ilen out n "length out" it]
      by (subst huff_decode_loop.simps) (auto simp: guardR_def, simp add: safe_res_def)
  next
    case step
    from loop_step [OF less.prems(1-3) step, of cap out] obtain q L' where
      q: "q \<le> ilen" and L': "length L' \<le> 64" and B: "L' @ inp (skip q it) (ilen - q) = L @ inp it ilen" and
      eq: "huff_decode_loop dt cap out it (pk L) (length L) ilen tb =
      (if length L' < csm (look tb L') then Inr (0, out, skip q it)
       else case nxt (look tb L') of
         Some tb' \<Rightarrow> huff_decode_loop dt cap out (skip q it) (pk (drop (csm (look tb L')) L'))
           (length (drop (csm (look tb L')) L')) (ilen - q) tb'
       | None \<Rightarrow> guardR Undefined (length out < cap)
           (huff_decode_loop dt cap (out @ [chr (look tb L')]) (skip q it) (pk (drop (csm (look tb L')) L'))
             (length (drop (csm (look tb L')) L')) (ilen - q) 0))" by blast
    let ?e = "look tb L'"
    have ok: "it_pos (skip q it) + (ilen - q) \<le> length (it_mem (skip q it))" using less.prems(3) q by simp
    have len: "length L' + 8 * (ilen - q) = 8 * ilen + length L"
      using arg_cong [OF B, of length] li length_inp [OF ok] by simp
    have c: "1 \<le> csm ?e" "csm ?e \<le> ?m" using csm_bounds [OF less.prems(1) look_in(1) [OF less.prems(1) L']] by auto
    have wl: "length (take (csm ?e) (win tb L')) = csm ?e" using c by (simp add: win_def)
    show ?thesis
    proof (cases "length L' < csm ?e")
      case True
      then show ?thesis using eq q less.prems(4) by (simp add: safe_res_Inr)
    next
      case False
      then have dl: "8 * (ilen - q) + length (drop (csm ?e) L') < 8 * ilen + length L" using len c by simp
      show ?thesis
      proof (cases "nxt ?e")
        case None
        have "5 \<le> length (pre tb @ take (csm ?e) (win tb L'))"
          using look_leaf [OF less.prems(1) L' None] code_length_bounds(1) [of "chr ?e"]
          by (elim insertE) (simp_all only: eos_def length_replicate singleton_iff, simp)
        then have p: "5 \<le> length (pre tb) + csm ?e" using wl by simp
        then have b: "5 * length (out @ [chr ?e]) + length (pre 0) + (8 * (ilen - q) + length (drop (csm ?e) L'))
            \<le> 5 * n + 4" using less.prems(4) len False root by simp
        then have "length out < cap" using less.prems(5) by simp
        then have "huff_decode_loop dt cap out it (pk L) (length L) ilen tb
          = huff_decode_loop dt cap (out @ [chr ?e]) (skip q it) (pk (drop (csm ?e) L'))
              (length (drop (csm ?e) L')) (ilen - q) 0" using eq False None by simp
        moreover have "length (drop (csm ?e) L') \<le> 64" using L' by simp
        note less.hyps [OF dl root(1) this ok b less.prems(5)]
        ultimately show ?thesis using q safe_res_skip by simp
      next
        case (Some tb')
        then have l: "csm ?e = ?m" "tb' \<in> ids" "pre tb' = pre tb @ win tb L'"
          using look_link [OF less.prems(1) L'] by auto
        then have b: "5 * length out + length (pre tb') + (8 * (ilen - q) + length (drop (csm ?e) L')) \<le> 5 * n + 4"
          using less.prems(4) len False wl by (simp add: win_def)
        have "length (drop (csm ?e) L') \<le> 64" using L' by simp
        from safe_res_skip [OF less.hyps [OF dl l(2) this ok b less.prems(5)] q] show ?thesis
          using eq False Some by simp
      qed
    qed
  qed
qed

end

end
