(* ===== verification/Huffman_Gen.thy ===== *)
theory Huffman_Gen
  imports Huffman_Dec "HOL-Library.AList"
begin

text \<open>
  The generator of the decoding tables, \<open>src/huffman_gen.py\<close>, which the build runs on
  \<open>tbl/vhp_huffman.h\<close> to make \<open>vtc_h2_dectbl.h\<close>.  \<open>gen_tbls\<close> is its dictionary of tables,
  filled line by line, and \<open>dectbl\<close> the arrays it prints.  A table is named by the prefix it
  stands for, as in the generated names \<open>tbl_0\<close>, \<open>tbl_fe\<close>, and so on.

  The lemmas show that the tables are complete and satisfy the laws of \<open>huff_tables\<close>, so that
  \<open>decode_codes\<close>, \<open>decode_long_padding\<close> and \<open>decode_safe\<close> hold of the decoder as it is built.
\<close>

subsection \<open>The generator\<close>

record gsym =
  gs_vall :: nat
  gs_val :: int
  gs_pfx :: int
  gs_chr :: int
  gs_esc :: "int option"

definition mk_sym :: "int \<Rightarrow> int \<Rightarrow> int \<Rightarrow> int option \<Rightarrow> gsym" where
  "mk_sym bigval bigvall ch esc =
     (let vall = if bigvall mod 8 \<noteq> 0 then nat (bigvall mod 8) else 8
      in \<lparr>gs_vall = vall, gs_val = bigval mod 2 ^ vall, gs_pfx = bigval div 2 ^ vall,
          gs_chr = ch, gs_esc = esc\<rparr>)"

type_synonym gtbl = "(int \<times> gsym) list"

text \<open>\<open>tbls[p][k] = s\<close>, with \<open>tbls[p]\<close> created when it is not there.\<close>

definition tbls_put :: "int \<Rightarrow> int \<Rightarrow> gsym \<Rightarrow> (int \<times> gtbl) list \<Rightarrow> (int \<times> gtbl) list" where
  "tbls_put p k s tbls =
     AList.update p (AList.update k s (case map_of tbls p of None \<Rightarrow> [] | Some tb \<Rightarrow> tb)) tbls"

definition gen_line :: "(int \<times> gtbl) list \<Rightarrow> huff_entry \<Rightarrow> (int \<times> gtbl) list" where
  "gen_line tbls = (\<lambda>(c, v, l).
     let s = mk_sym v l c None; pfx = gs_pfx s; tbls = tbls_put pfx (gs_val s) s tbls
     in if pfx \<noteq> 0 then tbls_put (pfx div 256) (pfx mod 256) (mk_sym (pfx mod 256) 8 0 (Some pfx)) tbls
        else tbls)"

definition gen_eos :: gsym where
  "gen_eos = mk_sym 63 6 0 None"

definition gen_tbls :: "huff_entry list \<Rightarrow> (int \<times> gtbl) list" where
  "gen_tbls es = tbls_put 0xffffff 63 gen_eos (foldl gen_line [] es)"

definition gen_msl :: "gtbl \<Rightarrow> nat" where
  "gen_msl tb = foldl (\<lambda>n (_, s). max n (gs_vall s)) 0 tb"

definition gen_sorted :: "gtbl \<Rightarrow> gsym list" where
  "gen_sorted tb = sort_key (\<lambda>s. gs_val s * 2 ^ (gen_msl tb - gs_vall s)) (map snd tb)"

definition gen_array :: "gtbl \<Rightarrow> gsym list" where
  "gen_array tb = concat (map (\<lambda>s. replicate (2 ^ (gen_msl tb - gs_vall s)) s) (gen_sorted tb))"

definition to_ssym :: "gsym \<Rightarrow> ssym" where
  "to_ssym s = \<lparr>csm = gs_vall s, chr = word_of_int (gs_chr s mod 256), nxt = map_option nat (gs_esc s)\<rparr>"

definition dectbl :: "nat \<Rightarrow> stbl" where
  "dectbl p = (case map_of (gen_tbls vhp_huffman) (int p) of
     None \<Rightarrow> \<lparr>msk = 0, syms = []\<rparr>
   | Some tb \<Rightarrow> \<lparr>msk = gen_msl tb, syms = map to_ssym (gen_array tb)\<rparr>)"

subsection \<open>The symbols of a table\<close>

text \<open>
  \<open>tbl_syms p\<close> lists what the lines of the file put into table \<open>p\<close>; \<open>runs_ok\<close> says that the runs
  of the symbols, one after the other, cover the table.
\<close>

fun runs_ok :: "nat \<Rightarrow> int \<Rightarrow> gsym list \<Rightarrow> bool" where
  "runs_ok m n [] = (n = 2 ^ m)"
| "runs_ok m n (s # ss) = (gs_val s * 2 ^ (m - gs_vall s) = n \<and> 1 \<le> gs_vall s \<and> gs_vall s \<le> m
     \<and> 0 \<le> gs_val s \<and> runs_ok m (n + 2 ^ (m - gs_vall s)) ss)"

definition nbytes :: "int \<Rightarrow> nat" where
  "nbytes p = (if p = 0 then 0 else if p < 0x100 then 1 else if p < 0x10000 then 2 else 3)"

definition esc_ok :: "int list \<Rightarrow> int \<Rightarrow> gsym \<Rightarrow> bool" where
  "esc_ok ks p s = (case gs_esc s of None \<Rightarrow> True
     | Some q \<Rightarrow> gs_vall s = 8 \<and> gs_val s < 256 \<and> q \<in> set ks \<and> q = p * 256 + gs_val s \<and> nbytes q = nbytes p + 1)"


definition leaf_sym :: "huff_entry \<Rightarrow> gsym" where
  "leaf_sym = (\<lambda>(c, v, l). mk_sym v l c None)"

definition esc_sym :: "int \<Rightarrow> gsym" where
  "esc_sym q = mk_sym (q mod 256) 8 0 (Some q)"

definition contrib :: "int \<Rightarrow> int \<times> huff_entry list \<Rightarrow> gsym list" where
  "contrib p = (\<lambda>(q, es). if q = p then map leaf_sym es
     else if q \<noteq> 0 \<and> q div 256 = p then [esc_sym q] else [])"

definition tbl_syms :: "int \<Rightarrow> gsym list" where
  "tbl_syms p = concat (map (contrib p) vhp_chunks) @ (if p = 0xffffff then [gen_eos] else [])"

definition tbl_keys :: "int list" where
  "tbl_keys = map fst vhp_chunks"

definition tbl_msl :: "int \<Rightarrow> nat" where
  "tbl_msl p = gs_vall (last (tbl_syms p))"

definition tbl_ok :: "int list \<Rightarrow> int \<Rightarrow> bool" where
  "tbl_ok ks p = (0 \<le> p \<and> tbl_syms p \<noteq> [] \<and> tbl_msl p \<le> 8 \<and> (p = 0 \<or> p = 0xff \<longrightarrow> tbl_msl p = 8)
     \<and> runs_ok (tbl_msl p) 0 (tbl_syms p) \<and> distinct (map gs_val (tbl_syms p)) \<and> list_all (esc_ok ks p) (tbl_syms p))"

lemma tbls_ok: "list_all (tbl_ok tbl_keys) tbl_keys"
  by code_simp

lemma chunks_ok:
  "list_all (\<lambda>(q, es). es \<noteq> [] \<and> list_all (\<lambda>e. gs_pfx (leaf_sym e) = q) es) vhp_chunks"
  by code_simp

lemma tbl_keys_distinct: "distinct tbl_keys"
  by code_simp

lemma lines_ok:
  "list_all (\<lambda>(c, v, l). l = 8 * int (nbytes (gs_pfx (mk_sym v l c None))) + int (gs_vall (mk_sym v l c None)))
    vhp_huffman"
  by code_simp

subsection \<open>The dictionary holds these symbols\<close>

definition tab :: "gtbl option \<Rightarrow> gtbl" where
  "tab d = (case d of None \<Rightarrow> [] | Some tb \<Rightarrow> tb)"

definition add_sym :: "gtbl \<Rightarrow> gsym \<Rightarrow> gtbl" where
  "add_sym tb s = AList.update (gs_val s) s tb"

definition line_syms :: "huff_entry \<Rightarrow> (int \<times> gsym) list" where
  "line_syms e = (let s = leaf_sym e; q = gs_pfx s in (q, s) # (if q \<noteq> 0 then [(q div 256, esc_sym q)] else []))"

definition put_sym :: "(int \<times> gtbl) list \<Rightarrow> int \<times> gsym \<Rightarrow> (int \<times> gtbl) list" where
  "put_sym tbls = (\<lambda>(p, s). tbls_put p (gs_val s) s tbls)"

definition syms_at :: "int \<Rightarrow> (int \<times> gsym) list \<Rightarrow> gsym list" where
  "syms_at p us = map snd (filter (\<lambda>u. fst u = p) us)"

lemma syms_at_simps [simp]:
  "syms_at p [] = []" "syms_at p ((q, s) # us) = (if q = p then [s] else []) @ syms_at p us"
  "syms_at p (us @ vs) = syms_at p us @ syms_at p vs"
  by (simp_all add: syms_at_def)

lemma gs_val_esc [simp]: "gs_val (esc_sym q) = q mod 256"
  by (simp add: esc_sym_def mk_sym_def)

lemma gen_line_puts: "gen_line tbls e = foldl put_sym tbls (line_syms e)"
  by (cases e) (simp add: gen_line_def line_syms_def put_sym_def leaf_sym_def esc_sym_def [symmetric] Let_def)

lemma tab_put: "tab (map_of (put_sym tbls (q, s)) p) = (if p = q then add_sym (tab (map_of tbls p)) s else tab (map_of tbls p))"
  by (simp add: put_sym_def tbls_put_def AList.update_conv' add_sym_def tab_def)

lemma tab_puts: "tab (map_of (foldl put_sym tbls us) p) = foldl add_sym (tab (map_of tbls p)) (syms_at p us)"
proof (induction us arbitrary: tbls)
  case (Cons u us)
  then show ?case by (cases u) (simp add: tab_put)
qed simp

lemma foldl_gen_line: "foldl gen_line tbls es = foldl put_sym tbls (concat (map line_syms es))"
  by (induction es arbitrary: tbls) (simp_all add: gen_line_puts)

lemma tab_gen_tbls:
  "tab (map_of (gen_tbls es) p)
   = foldl add_sym [] (syms_at p (concat (map line_syms es)) @ (if p = 0xffffff then [gen_eos] else []))"
proof -
  have "gs_val gen_eos = 63" by code_simp
  then have "gen_tbls es = put_sym (foldl gen_line [] es) (0xffffff, gen_eos)"
    by (simp add: gen_tbls_def put_sym_def)
  then show ?thesis by (simp add: tab_put foldl_gen_line tab_puts) (simp add: tab_def)
qed

lemma syms_at_chunk:
  assumes "\<forall>e \<in> set es. gs_pfx (leaf_sym e) = q" "0 \<le> q"
  shows "syms_at p (concat (map line_syms es)) =
    (if q = p then map leaf_sym es else if q \<noteq> 0 \<and> q div 256 = p then replicate (length es) (esc_sym q) else [])"
  using assms(1)
proof (induction es)
  case (Cons e es)
  moreover have "q div 256 \<noteq> q" if "q \<noteq> 0" using int_div_less_self [of q 256] that assms(2) by simp
  ultimately show ?case by (auto simp: line_syms_def Let_def)
qed simp

lemma update_twice: "AList.update k v (AList.update k v al) = AList.update k v al"
  by (induction al) auto

lemma add_sym_replicate: "0 < n \<Longrightarrow> foldl add_sym tb (replicate n s) = add_sym tb s"
proof (induction n arbitrary: tb)
  case (Suc n)
  then show ?case by (cases n) (simp_all add: add_sym_def update_twice)
qed simp

lemma add_sym_chunk:
  assumes "es \<noteq> []" "\<forall>e \<in> set es. gs_pfx (leaf_sym e) = q" "0 \<le> q"
  shows "foldl add_sym tb (syms_at p (concat (map line_syms es))) = foldl add_sym tb (contrib p (q, es))"
  using assms(1) by (simp add: syms_at_chunk [OF assms(2,3)] contrib_def add_sym_replicate)

lemma add_sym_chunks:
  assumes "\<forall>(q, es) \<in> set chs. es \<noteq> [] \<and> (\<forall>e \<in> set es. gs_pfx (leaf_sym e) = q) \<and> 0 \<le> q"
  shows "foldl add_sym tb (syms_at p (concat (map line_syms (concat (map snd chs)))))
    = foldl add_sym tb (concat (map (contrib p) chs))"
  using assms
proof (induction chs arbitrary: tb)
  case (Cons ch chs)
  obtain q es where "ch = (q, es)" by (cases ch)
  with Cons show ?case by (simp add: add_sym_chunk [of es q])
qed simp

lemma update_fresh: "k \<notin> fst ` set al \<Longrightarrow> AList.update k v al = al @ [(k, v)]"
  by (induction al) auto

lemma add_sym_distinct:
  "distinct (map fst tb @ map gs_val ss) \<Longrightarrow> foldl add_sym tb ss = tb @ map (\<lambda>s. (gs_val s, s)) ss"
proof (induction ss arbitrary: tb)
  case (Cons s ss)
  then have "add_sym tb s = tb @ [(gs_val s, s)]" by (auto simp: add_sym_def update_fresh)
  with Cons show ?case by simp
qed simp

lemma tbl_ok: "p \<in> set tbl_keys \<Longrightarrow> tbl_ok tbl_keys p"
  using tbls_ok by (simp add: list_all_iff)

lemma gen_tbls_syms:
  assumes "p \<in> set tbl_keys"
  shows "map_of (gen_tbls vhp_huffman) p = Some (map (\<lambda>s. (gs_val s, s)) (tbl_syms p))"
proof -
  have "\<forall>(q, es) \<in> set vhp_chunks. es \<noteq> [] \<and> (\<forall>e \<in> set es. gs_pfx (leaf_sym e) = q) \<and> 0 \<le> q"
  proof (clarify, goal_cases)
    case (1 q es)
    then have "q \<in> set tbl_keys" by (force simp: tbl_keys_def)
    with 1 chunks_ok tbl_ok [of q] show ?case by (auto simp: list_all_iff tbl_ok_def)
  qed
  note add_sym_chunks [OF this]
  then have "tab (map_of (gen_tbls vhp_huffman) p) = foldl add_sym [] (tbl_syms p)"
    by (simp add: tab_gen_tbls tbl_syms_def vhp_huffman_def)
  also have "\<dots> = map (\<lambda>s. (gs_val s, s)) (tbl_syms p)"
    using tbl_ok [OF assms] by (subst add_sym_distinct) (simp_all add: tbl_ok_def)
  finally show ?thesis
    using tbl_ok [OF assms] by (auto simp: tab_def tbl_ok_def split: option.splits)
qed

subsection \<open>The arrays\<close>

definition start :: "nat \<Rightarrow> gsym \<Rightarrow> int" where
  "start m s = gs_val s * 2 ^ (m - gs_vall s)"

lemma runs_sorted: "runs_ok m n ss \<Longrightarrow> sorted (map (start m) ss) \<and> (\<forall>s \<in> set ss. n \<le> start m s)"
proof (induction ss arbitrary: n)
  case (Cons s ss)
  then have "runs_ok m (n + 2 ^ (m - gs_vall s)) ss" "n = start m s" by (auto simp: start_def)
  with Cons.IH have "n = start m s" "\<forall>s' \<in> set ss. n + 2 ^ (m - gs_vall s) \<le> start m s'"
    "sorted (map (start m) ss)" by blast+
  moreover from this(2) have "\<forall>s' \<in> set ss. n \<le> start m s'"
    by (metis add_increasing2 order_refl order_trans zero_le_numeral zero_le_power)
  ultimately show ?case by simp
qed simp

lemma runs_bounds: "runs_ok m n ss \<Longrightarrow> s \<in> set ss \<Longrightarrow> 1 \<le> gs_vall s \<and> gs_vall s \<le> m \<and> 0 \<le> gs_val s"
  by (induction ss arbitrary: n) auto

lemma runs_nth:
  assumes "runs_ok m n ss" "0 \<le> n" "n \<le> int j" "int j < 2 ^ m"
  shows "\<exists>s \<in> set ss. concat (map (\<lambda>s. replicate (2 ^ (m - gs_vall s)) s) ss) ! (j - nat n) = s
    \<and> start m s \<le> int j \<and> int j < start m s + 2 ^ (m - gs_vall s)"
  using assms
proof (induction ss arbitrary: n)
  case (Cons s ss)
  let ?w = "2 ^ (m - gs_vall s) :: nat"
  have n: "n = start m s" "runs_ok m (n + int ?w) ss" using Cons.prems(1) by (simp_all add: start_def)
  show ?case
  proof (cases "int j < n + int ?w")
    case True
    then have "j - nat n < ?w" using Cons.prems(2,3) by linarith
    then show ?thesis using True n(1) Cons.prems(3) by (intro bexI [of _ s]) (simp_all add: nth_append)
  next
    case False
    then have "\<not> j - nat n < ?w" "j - nat n - ?w = j - nat (n + int ?w)"
      using Cons.prems(2,3) by linarith+
    moreover have "0 \<le> n + int ?w" "n + int ?w \<le> int j" using Cons.prems(2) False by simp_all
    note Cons.IH [OF n(2) this Cons.prems(4)]
    ultimately show ?thesis by (auto simp: nth_append simp del: of_nat_power)
  qed
qed simp

lemma runs_length:
  "runs_ok m n ss \<Longrightarrow> int (length (concat (map (\<lambda>s. replicate (2 ^ (m - gs_vall s)) s) ss))) = 2 ^ m - n"
proof (induction ss arbitrary: n)
  case (Cons s ss)
  then have "runs_ok m (n + 2 ^ (m - gs_vall s)) ss" by simp
  from Cons.IH [OF this] show ?case by simp
qed simp

lemma runs_last: "ss \<noteq> [] \<Longrightarrow> last (concat (map (\<lambda>s. replicate (2 ^ (m - gs_vall s)) s) ss)) = last ss"
proof (induction ss rule: rev_induct)
  case (snoc s ss)
  then show ?case by (simp add: last_append last_replicate)
qed simp

lemma foldl_max:
  "\<forall>s \<in> set ss. f s \<le> m \<Longrightarrow> a \<le> (m :: nat) \<Longrightarrow> a = m \<or> (\<exists>s \<in> set ss. f s = m)
   \<Longrightarrow> foldl (\<lambda>n s. max n (f s)) a ss = m"
  by (induction ss arbitrary: a) (auto simp: max_def split: if_splits)

lemma gen_msl_syms:
  assumes "p \<in> set tbl_keys"
  shows "gen_msl (map (\<lambda>s. (gs_val s, s)) (tbl_syms p)) = tbl_msl p"
proof -
  note ok = tbl_ok [OF assms, unfolded tbl_ok_def]
  have "gen_msl (map (\<lambda>s. (gs_val s, s)) (tbl_syms p)) = foldl (\<lambda>n s. max n (gs_vall s)) 0 (tbl_syms p)"
    by (simp add: gen_msl_def foldl_map)
  also have "\<dots> = tbl_msl p"
    using ok runs_bounds [of "tbl_msl p" 0 "tbl_syms p"] by (intro foldl_max) (auto simp: tbl_msl_def)
  finally show ?thesis .
qed

lemma dectbl_eq:
  assumes "p \<in> set tbl_keys"
  shows "dectbl (nat p) = \<lparr>msk = tbl_msl p,
    syms = map to_ssym (concat (map (\<lambda>s. replicate (2 ^ (tbl_msl p - gs_vall s)) s) (tbl_syms p)))\<rparr>"
proof -
  note ok = tbl_ok [OF assms, unfolded tbl_ok_def]
  have "sorted (map (start (tbl_msl p)) (tbl_syms p))" using runs_sorted ok by blast
  then have "sort_key (start (tbl_msl p)) (tbl_syms p) = tbl_syms p" by (rule sort_key_id_if_sorted)
  then have "gen_sorted (map (\<lambda>s. (gs_val s, s)) (tbl_syms p)) = tbl_syms p"
    by (simp add: gen_sorted_def gen_msl_syms [OF assms] comp_def start_def [abs_def])
  then show ?thesis using ok
    by (simp add: dectbl_def gen_tbls_syms [OF assms] gen_array_def gen_msl_syms [OF assms])
qed

subsection \<open>The laws of the decoder\<close>

definition tbl_pre :: "nat \<Rightarrow> bool list" where
  "tbl_pre n = bits (8 * nbytes (int n)) n"

definition tbl_ids :: "nat set" where
  "tbl_ids = nat ` set tbl_keys"

text \<open>A symbol that is no link comes from a line of the file, or is the end of string.\<close>

lemma vhp_code:
  assumes "(c, v, l) \<in> set vhp_huffman"
  shows "code (word_of_int c) = bits (nat l) (nat v)" "0 \<le> v" "0 \<le> c" "c < 256" "v < 2 ^ nat l"
proof -
  have "(c, v, l) \<in> set (take 256 enctbl)" using assms by (simp flip: enctbl_vhp)
  then obtain n where n: "n < 256" "take 256 enctbl ! n = (c, v, l)"
    by (auto simp: in_set_conv_nth length_enctbl)
  have "map fst (take 256 enctbl) ! n = c" using n by (simp add: length_enctbl)
  then have c: "c = int n" using n(1) by (simp add: enctbl_chars)
  then have u: "unat (word_of_int c :: byte) = n" using n(1) by (simp add: unat_of_nat)
  then have e: "entry (word_of_int c) = (c, v, l)" using n by (simp add: entry_def length_enctbl)
  show "code (word_of_int c) = bits (nat l) (nat v)"
    using coding_table_nth [OF e] by (simp add: code_def Let_def)
  show "0 \<le> v" "v < 2 ^ nat l" using entry_bounds [OF e] by auto
  show "0 \<le> c" "c < 256" using c n(1) by auto
qed

lemma chunk_pfx:
  assumes "(q, es) \<in> set vhp_chunks" "e \<in> set es"
  shows "gs_pfx (leaf_sym e) = q" "e \<in> set vhp_huffman"
proof -
  show "gs_pfx (leaf_sym e) = q" using chunks_ok assms unfolding list_all_iff by blast
  show "e \<in> set vhp_huffman" using assms unfolding vhp_huffman_def by force
qed

lemma syms_origin:
  assumes "s \<in> set (tbl_syms p)" "gs_esc s = None"
  shows "(\<exists>e \<in> set vhp_huffman. s = leaf_sym e \<and> gs_pfx s = p) \<or> s = gen_eos \<and> p = 0xffffff"
proof -
  consider (eos) "s = gen_eos" "p = 0xffffff" | (ch) q es where "(q, es) \<in> set vhp_chunks" "s \<in> set (contrib p (q, es))"
    using assms(1) unfolding tbl_syms_def by (auto split: if_splits)
  then show ?thesis
  proof cases
    case ch
    have "gs_esc (esc_sym q) \<noteq> None" by (simp add: esc_sym_def mk_sym_def)
    then have "q = p" "s \<in> leaf_sym ` set es"
      using ch(2) assms(2) by (auto simp: contrib_def split: if_splits)
    then show ?thesis using chunk_pfx [OF ch(1)] by blast
  qed simp
qed

lemma mk_sym_vall: "1 \<le> gs_vall (mk_sym v l c x)" "gs_vall (mk_sym v l c x) \<le> 8"
proof -
  have "0 \<le> l mod 8" "l mod 8 < 8" by simp_all
  then show "1 \<le> gs_vall (mk_sym v l c x)" "gs_vall (mk_sym v l c x) \<le> 8"
    by (simp_all add: mk_sym_def Let_def) linarith+
qed

lemma line_code:
  assumes "e \<in> set vhp_huffman" "leaf_sym e = s" "gs_pfx s = int n"
  shows "code (chr (to_ssym s)) = tbl_pre n @ bits (gs_vall s) (nat (gs_val s))"
proof -
  obtain c v l where e: "e = (c, v, l)" by (cases e)
  then have s: "s = mk_sym v l c None" using assms(2) by (simp add: leaf_sym_def)
  let ?a = "gs_vall s"
  note vc = vhp_code [OF assms(1) [unfolded e]]
  have l: "l = 8 * int (nbytes (int n)) + int ?a"
    using bspec [OF lines_ok [unfolded list_all_iff] assms(1)] by (simp only: e s assms(3) [unfolded s] split_conv)
  have d: "gs_val s = v mod 2 ^ ?a" "int n = v div 2 ^ ?a"
    using assms(3) s by (simp_all add: mk_sym_def Let_def)
  then have "v = int n * 2 ^ ?a + gs_val s" by (metis div_mult_mod_eq)
  then have "int (nat v) = int (n * 2 ^ ?a + nat (gs_val s))" using vc(2) d(1) by simp
  then have nv: "nat v = n * 2 ^ ?a + nat (gs_val s)" by (simp only: of_nat_eq_iff)
  have "nat (gs_val s) < 2 ^ ?a" using d(1) by (simp add: nat_less_iff)
  then have "tbl_pre n @ bits ?a (nat (gs_val s)) = bits (8 * nbytes (int n) + ?a) (nat v)"
    by (simp add: tbl_pre_def bits_append nv)
  moreover have "nat l = 8 * nbytes (int n) + ?a" using l by simp
  moreover have "chr (to_ssym s) = word_of_int c" using vc(3,4) s by (simp add: to_ssym_def mk_sym_def Let_def)
  ultimately show ?thesis using vc(1) by simp
qed

definition arr :: "nat \<Rightarrow> gsym list" where
  "arr n = concat (map (\<lambda>s. replicate (2 ^ (tbl_msl (int n) - gs_vall s)) s) (tbl_syms (int n)))"

lemma tbl_ids_facts:
  assumes "n \<in> tbl_ids"
  shows "int n \<in> set tbl_keys" "msk (dectbl n) = tbl_msl (int n)" "syms (dectbl n) = map to_ssym (arr n)"
    "runs_ok (msk (dectbl n)) 0 (tbl_syms (int n))" "tbl_syms (int n) \<noteq> []" "msk (dectbl n) \<le> 8"
    "\<forall>s \<in> set (tbl_syms (int n)). esc_ok tbl_keys (int n) s" "int n = 0xff \<longrightarrow> msk (dectbl n) = 8"
proof -
  obtain p where p: "p \<in> set tbl_keys" "n = nat p" using assms by (auto simp: tbl_ids_def)
  then have np: "p = int n" using tbl_ok [of p] by (simp add: tbl_ok_def)
  note dt = dectbl_eq [OF p(1), unfolded np nat_int, folded arr_def]
  show "int n \<in> set tbl_keys" using p(1) np by simp
  show m: "msk (dectbl n) = tbl_msl (int n)" "syms (dectbl n) = map to_ssym (arr n)"
    by (simp_all only: dt stbl.select_convs)
  note tbl_ok [OF p(1), unfolded np tbl_ok_def list_all_iff, folded m(1)]
  then show "runs_ok (msk (dectbl n)) 0 (tbl_syms (int n))" "tbl_syms (int n) \<noteq> []" "msk (dectbl n) \<le> 8"
    "\<forall>s \<in> set (tbl_syms (int n)). esc_ok tbl_keys (int n) s" "int n = 0xff \<longrightarrow> msk (dectbl n) = 8" by blast+
qed

lemma length_arr: "n \<in> tbl_ids \<Longrightarrow> length (arr n) = 2 ^ msk (dectbl n)"
  using runs_length [OF tbl_ids_facts(4), of n] tbl_ids_facts(2) [of n]
  by (simp add: arr_def)

lemma set_arr: "set (arr n) \<subseteq> set (tbl_syms (int n))"
  by (auto simp: arr_def)

text \<open>The symbol behind an entry of a table.\<close>

lemma entry_sym:
  assumes "n \<in> tbl_ids" "j < 2 ^ msk (dectbl n)"
  shows "\<exists>s \<in> set (tbl_syms (int n)). syms (dectbl n) ! j = to_ssym s
    \<and> gs_vall s \<le> msk (dectbl n) \<and> 0 \<le> gs_val s
    \<and> take (gs_vall s) (bits (msk (dectbl n)) j) = bits (gs_vall s) (nat (gs_val s))"
proof -
  note f = tbl_ids_facts [OF assms(1)]
  let ?m = "msk (dectbl n)"
  have "int j < 2 ^ ?m" using assms(2) by (metis of_nat_less_iff of_nat_numeral of_nat_power)
  with runs_nth [OF f(4), of j] obtain s where s: "s \<in> set (tbl_syms (int n))" "arr n ! j = s"
    "start ?m s \<le> int j" "int j < start ?m s + 2 ^ (?m - gs_vall s)" by (auto simp: arr_def f(2))
  have b: "gs_vall s \<le> ?m" "0 \<le> gs_val s" using runs_bounds [OF f(4) s(1)] by auto
  have "int j div 2 ^ (?m - gs_vall s) = gs_val s"
    using s(3,4) by (intro int_div_pos_eq [of _ _ _ "int j - start ?m s"]) (simp_all add: start_def)
  then have "j div 2 ^ (?m - gs_vall s) = nat (gs_val s)"
    by (metis nat_int of_nat_numeral of_nat_power zdiv_int)
  then show ?thesis using s(1,2) b assms(2) length_arr [OF assms(1)]
    by (intro bexI [of _ s]) (simp_all add: bits_take f(3))
qed

lemma tbl_inner:
  assumes "n \<in> tbl_ids"
  shows "\<exists>c. strict_prefix (tbl_pre n) (code c)"
proof -
  obtain es where es: "(int n, es) \<in> set vhp_chunks" using tbl_ids_facts(1) [OF assms] by (auto simp: tbl_keys_def)
  from bspec [OF chunks_ok [unfolded list_all_iff] this] have "es \<noteq> []" by simp
  then have h: "hd es \<in> set vhp_huffman" "gs_pfx (leaf_sym (hd es)) = int n"
    using chunk_pfx [OF es] hd_in_set by blast+
  have "1 \<le> gs_vall (leaf_sym (hd es))" by (cases "hd es") (simp only: leaf_sym_def mk_sym_vall split_conv)
  then have "bits (gs_vall (leaf_sym (hd es))) (nat (gs_val (leaf_sym (hd es)))) \<noteq> []"
    by (metis length_bits list.size(3) not_one_le_zero)
  then show ?thesis using line_code [OF h(1) refl h(2)] by (metis prefix_order.le_neq_trans prefixI self_append_conv)
qed

lemma tbl_leaf:
  assumes "n \<in> tbl_ids" "j < 2 ^ msk (dectbl n)" "nxt (syms (dectbl n) ! j) = None"
  shows "tbl_pre n @ take (csm (syms (dectbl n) ! j)) (bits (msk (dectbl n)) j)
    \<in> {code (chr (syms (dectbl n) ! j)), eos}"
proof -
  from entry_sym [OF assms(1,2)] obtain s where s: "s \<in> set (tbl_syms (int n))" "syms (dectbl n) ! j = to_ssym s"
    "take (gs_vall s) (bits (msk (dectbl n)) j) = bits (gs_vall s) (nat (gs_val s))" by blast
  then have "gs_esc s = None" using assms(3) by (simp add: to_ssym_def)
  moreover have c: "csm (to_ssym s) = gs_vall s" by (simp add: to_ssym_def)
  ultimately consider (line) e where "e \<in> set vhp_huffman" "s = leaf_sym e" "gs_pfx s = int n"
    | (eos) "s = gen_eos" "int n = 0xffffff" using syms_origin [OF s(1)] by blast
  then show ?thesis
  proof cases
    case line
    from line_code [OF line(1) line(2) [symmetric] line(3)] show ?thesis by (simp add: s c)
  next
    case eos
    have "gs_vall gen_eos = 6" "gs_val gen_eos = 63" by code_simp+
    moreover have "bits 6 63 = replicate 6 True" using bits_ones [of 6] by simp
    moreover have "n = 2 ^ 24 - 1" "nbytes (int n) = 3" using eos(2) by (simp_all add: nbytes_def)
    then have "tbl_pre n = replicate 24 True" using bits_ones [of 24] by (simp add: tbl_pre_def)
    ultimately have "tbl_pre n @ bits (gs_vall s) (nat (gs_val s)) = eos"
      using eos(1) by (simp add: Huffman_Dec.eos_def flip: replicate_add)
    then show ?thesis by (simp add: s c)
  qed
qed

lemma tbl_link:
  assumes "n \<in> tbl_ids" "j < 2 ^ msk (dectbl n)" "nxt (syms (dectbl n) ! j) = Some n'"
  shows "csm (syms (dectbl n) ! j) = msk (dectbl n) \<and> n' \<in> tbl_ids \<and> tbl_pre n' = tbl_pre n @ bits (msk (dectbl n)) j"
proof -
  note f = tbl_ids_facts [OF assms(1)]
  from entry_sym [OF assms(1,2)] obtain s where s: "s \<in> set (tbl_syms (int n))" "syms (dectbl n) ! j = to_ssym s"
    "gs_vall s \<le> msk (dectbl n)" "0 \<le> gs_val s"
    "take (gs_vall s) (bits (msk (dectbl n)) j) = bits (gs_vall s) (nat (gs_val s))" by blast
  obtain q where q: "gs_esc s = Some q" "n' = nat q" using assms(3) s(2) by (auto simp: to_ssym_def)
  have e: "gs_vall s = 8" "q \<in> set tbl_keys" "q = int n * 256 + gs_val s" "nbytes q = nbytes (int n) + 1"
    "gs_val s < 256" using bspec [OF f(7) s(1)] q by (auto simp: esc_ok_def)
  have m: "msk (dectbl n) = 8" using f(6) s(3) e(1) by simp
  have n': "n' = n * 2 ^ 8 + nat (gs_val s)" "int n' = q" using q(2) e(3) s(4) by auto
  have "tbl_pre n' = tbl_pre n @ bits 8 (nat (gs_val s))"
    using bits_append [of "nat (gs_val s)" 8 "8 * nbytes (int n)" n] e(4,5)
    by (simp add: tbl_pre_def n'(2)) (simp add: n'(1) add.commute)
  moreover have "bits 8 j = bits 8 (nat (gs_val s))" using s(5) e(1) m by simp
  moreover have "n' \<in> tbl_ids" using e(2) q(2) by (simp add: tbl_ids_def)
  ultimately show ?thesis using m e(1) s(2) by (simp add: to_ssym_def)
qed

lemma tbl_ones:
  assumes "n \<in> tbl_ids"
  shows "csm (syms (dectbl n) ! (2 ^ msk (dectbl n) - 1)) = msk (dectbl n)"
proof -
  note f = tbl_ids_facts [OF assms] and l = length_arr [OF assms]
  then have "arr n \<noteq> []" by auto
  then have "syms (dectbl n) ! (2 ^ msk (dectbl n) - 1) = to_ssym (last (arr n))"
    unfolding f(3) using l by (simp add: last_conv_nth)
  also have "last (arr n) = last (tbl_syms (int n))" unfolding arr_def by (rule runs_last [OF f(5)])
  finally show ?thesis by (simp add: f(2) to_ssym_def tbl_msl_def)
qed

lemma tbl_ff:
  assumes "n \<in> tbl_ids" "tbl_pre n = replicate 8 True"
  shows "msk (dectbl n) = 8"
proof -
  have "8 * nbytes (int n) = 8" using arg_cong [OF assms(2), of length] by (simp add: tbl_pre_def)
  then have n: "nbytes (int n) = 1" "n < 2 ^ 8" by (auto simp: nbytes_def split: if_splits)
  then have "bits 8 n = bits 8 255" using assms(2) bits_ones [of 8] by (simp add: tbl_pre_def)
  then have "n = 255" using bits_inj [of 8 n 255] n by simp
  then show ?thesis using tbl_ids_facts(8) [OF assms(1)] by simp
qed

lemma tbl_root: "0 \<in> tbl_ids" "msk (dectbl 0) = 8"
proof -
  have "(0 :: int) \<in> set tbl_keys" by code_simp
  then show "0 \<in> tbl_ids" unfolding tbl_ids_def by (metis imageI nat_zero_as_int)
  from tbl_ok [OF \<open>0 \<in> set tbl_keys\<close>] have "tbl_msl 0 = 8" by (simp add: tbl_ok_def)
  then show "msk (dectbl 0) = 8" using tbl_ids_facts(2) [OF \<open>0 \<in> tbl_ids\<close>] by simp
qed

lemma tbl_csm:
  assumes "n \<in> tbl_ids" "e \<in> set (syms (dectbl n))"
  shows "1 \<le> csm e \<and> csm e \<le> msk (dectbl n)"
proof -
  obtain s where "s \<in> set (tbl_syms (int n))" "e = to_ssym s"
    using assms(2) set_arr [of n] unfolding tbl_ids_facts(3) [OF assms(1)] by auto
  then show ?thesis using runs_bounds [OF tbl_ids_facts(4) [OF assms(1)]] by (simp add: to_ssym_def)
qed

lemma tbl_msk:
  assumes "n \<in> tbl_ids"
  shows "1 \<le> msk (dectbl n) \<and> msk (dectbl n) \<le> 8"
proof -
  have "last (tbl_syms (int n)) \<in> set (tbl_syms (int n))" using tbl_ids_facts(5) [OF assms] by simp
  from runs_bounds [OF tbl_ids_facts(4) [OF assms] this] tbl_ids_facts(6) [OF assms] show ?thesis by linarith
qed

lemma tbl_pre_0: "tbl_pre 0 = []"
  by (simp add: tbl_pre_def nbytes_def)

lemma tbl_len: "n \<in> tbl_ids \<Longrightarrow> length (syms (dectbl n)) = 2 ^ msk (dectbl n)"
  using length_arr [of n] tbl_ids_facts(3) [of n] by simp

interpretation gen: huff_tables dectbl tbl_pre tbl_ids
  by unfold_locales (fact tbl_root(1), fact tbl_pre_0, fact tbl_root(2), erule tbl_msk, erule tbl_len,
    erule tbl_inner, erule (1) tbl_csm, erule (2) tbl_leaf, erule (2) tbl_link, erule tbl_ones, erule (1) tbl_ff)

subsection \<open>The coder\<close>

lemma inp_emit:
  assumes "it_ok it" "length bs \<le> room it"
  shows "inp ((emit it bs)\<lparr>it_pos := it_pos it\<rparr>) (length bs) = bits_of_bytes bs"
  using assms by (simp add: inp_def emit_def it_ok_def room_def)

lemma skip_emit: "skip (length bs) ((emit it bs)\<lparr>it_pos := it_pos it\<rparr>) = emit it bs"
  by (simp add: skip_def emit_def)

lemma huff_bytes_bits:
  "\<exists>k < 8. bits_of_bytes (huff_bytes str) = codes str @ replicate k True"
  by (intro exI [of _ "(8 - length (codes str) mod 8) mod 8"]) (simp add: huff_bytes_def bits_pack_bits)

text \<open>C5.  What \<open>huff_encode\<close> writes, \<open>huff_decode\<close> with the generated tables reads back: if the
  block has room for the codes of the string, the encoder returns \<open>hpk_more\<close>, and decoding the
  bytes it wrote gives the string and consumes them all.\<close>

theorem huff_roundtrip:
  assumes "it_pos it < length (it_mem it)" "length (huff_bytes str) \<le> room it" "length str \<le> cap"
  shows "\<exists>it'. huff_encode it str (length str) = Inr (hpk_more, it')
    \<and> huff_decode dectbl cap (it'\<lparr>it_pos := it_pos it\<rparr>) (length (huff_bytes str)) = Inr (length str, str, it')"
proof -
  let ?bs = "huff_bytes str"
  let ?it = "(emit it ?bs)\<lparr>it_pos := it_pos it\<rparr>"
  have ok: "it_ok it" using assms(1) by (simp add: it_ok_def)
  obtain k where k: "k < 8" "bits_of_bytes ?bs = codes str @ replicate k True" using huff_bytes_bits by blast
  have "it_pos ?it + length ?bs \<le> length (it_mem ?it)" using ok assms(2) by (simp add: it_ok_def room_def emit_def)
  then have "huff_decode dectbl cap ?it (length ?bs) = Inr (length str, str, skip (length ?bs) ?it)"
    by (rule gen.decode_codes) (use inp_emit [OF ok assms(2)] k assms(3) in auto)
  then show ?thesis
    using huff_encode_eq [OF assms(1), of "length str" str] assms(2) by (simp add: emit_res_def skip_emit)
qed

definition demo_it :: hpk_iter where
  "demo_it = \<lparr>it_ctx = \<lparr>ct_dyntbl = [], ct_maxsize = 4096, ct_size = 0\<rparr>, it_mem = replicate 8 0, it_pos = 1\<rparr>"

theorem huff_roundtrip_witness:
  "\<exists>it'. huff_encode demo_it [0x61, 0x62] (length [0x61 :: byte, 0x62]) = Inr (hpk_more, it')
    \<and> huff_decode dectbl 4 (it'\<lparr>it_pos := it_pos demo_it\<rparr>) (length (huff_bytes [0x61, 0x62]))
        = Inr (length [0x61 :: byte, 0x62], [0x61, 0x62], it')"
proof (rule huff_roundtrip)
  show "it_pos demo_it < length (it_mem demo_it)" by (simp add: demo_it_def)
  show "length (huff_bytes [0x61, 0x62]) \<le> room demo_it" by code_simp
qed simp

text \<open>C25.  \<open>huff_simulate\<close> is exact and the encoder stays inside the block: the length it computes is
  the number of bytes \<open>huff_encode\<close> writes, the encoder returns \<open>hpk_more\<close> exactly when there is
  that much room, and whatever the room is it never writes outside of the block.  The computation
  counts bits in an \<open>int\<close> and is undefined exactly when their number, rounded up, is more than
  \<open>INT_MAX\<close>, from 256 MiB of coded text on.\<close>

theorem huff_simulate_exact:
  assumes "it_pos it < length (it_mem it)" "len \<le> length str"
  shows "if length (codes (take len str)) + 7 < 2 ^ 31
    then \<exists>n r it'. huff_simulate str len True = Inr n \<and> huff_encode it str len = Inr (r, it')
      \<and> (r = hpk_more \<longleftrightarrow> n \<le> room it) \<and> it_pos it' = it_pos it + min n (room it)
      \<and> length (it_mem it') = length (it_mem it)
      \<and> take (it_pos it) (it_mem it') = take (it_pos it) (it_mem it)
      \<and> drop (it_pos it') (it_mem it') = drop (it_pos it') (it_mem it)
    else huff_simulate str len True = Inl Undefined"
proof (cases "length (codes (take len str)) + 7 < 2 ^ 31")
  case True
  have ok: "it_ok it" using assms(1) by (simp add: it_ok_def)
  let ?bs = "take (room it) (huff_bytes (take len str))"
  have "length (it_mem (emit it ?bs)) = length (it_mem it)
      \<and> take (it_pos it) (it_mem (emit it ?bs)) = take (it_pos it) (it_mem it)
      \<and> drop (it_pos it + length ?bs) (it_mem (emit it ?bs)) = drop (it_pos it + length ?bs) (it_mem it)"
    using ok by (simp add: emit_def it_ok_def room_def)
  moreover have "huff_encode it str len
      = Inr (if length (huff_bytes (take len str)) \<le> room it then hpk_more else hpk_done, emit it ?bs)"
    using huff_encode_eq [OF assms] by (simp add: emit_res_def)
  ultimately show ?thesis using True huff_simulate_eq [OF assms(2), of True] by simp
next
  case False
  then show ?thesis using huff_simulate_eq [OF assms(2), of True] by simp
qed

theorem huff_simulate_exact_witness:
  "\<exists>n r it'. huff_simulate [0x61, 0x62] 2 True = Inr n \<and> huff_encode demo_it [0x61, 0x62] 2 = Inr (r, it')
    \<and> (r = hpk_more \<longleftrightarrow> n \<le> room demo_it) \<and> it_pos it' = it_pos demo_it + min n (room demo_it)
    \<and> length (it_mem it') = length (it_mem demo_it)
    \<and> take (it_pos demo_it) (it_mem it') = take (it_pos demo_it) (it_mem demo_it)
    \<and> drop (it_pos it') (it_mem it') = drop (it_pos it') (it_mem demo_it)"
proof -
  have "length (codes (take 2 [0x61, 0x62])) = 11" by code_simp
  moreover have "it_pos demo_it < length (it_mem demo_it)" by (simp add: demo_it_def)
  ultimately show ?thesis using huff_simulate_exact [of demo_it 2 "[0x61, 0x62]"] by simp
qed

text \<open>C8.  On any input the decoder stays inside the buffer that \<open>str_decode\<close> allocates: with the
  generated tables and \<open>8 * ilen / 5\<close> bytes of output, no access is out of bounds; either the
  assertion on the table fails, or at most that many characters are written and the bytes
  consumed lie in the input.\<close>

theorem huff_decode_in_bounds:
  assumes "it_pos it + ilen \<le> length (it_mem it)" "8 * ilen div 5 \<le> cap"
  shows "huff_decode dectbl cap it ilen = Inl AssertFail
    \<or> (\<exists>l out q. huff_decode dectbl cap it ilen = Inr (l, out, skip q it)
        \<and> q \<le> ilen \<and> length out \<le> 8 * ilen div 5 \<and> (l = 0 \<or> l = length out \<and> q = ilen))"
proof -
  have "5 * length [] + length (tbl_pre 0) + (8 * ilen + length []) \<le> 5 * (8 * ilen div 5) + 4"
    by (simp add: tbl_pre_0)
  from gen.decode_safe [OF tbl_root(1) _ assms(1) this assms(2)] show ?thesis
    by (simp add: huff_decode_def safe_res_def)
qed

theorem huff_decode_in_bounds_witness:
  "huff_decode dectbl 4 demo_it 3 = Inl AssertFail
    \<or> (\<exists>l out q. huff_decode dectbl 4 demo_it 3 = Inr (l, out, skip q demo_it)
        \<and> q \<le> 3 \<and> length out \<le> 8 * 3 div 5 \<and> (l = 0 \<or> l = length out \<and> q = 3))"
  by (rule huff_decode_in_bounds) (simp_all add: demo_it_def)

text \<open>C32.  Padding longer than seven bits, which RFC 7541 makes a decoding error: eight ones after a
  valid text are accepted, nine to fifteen abort the process.\<close>

theorem huff_decode_long_padding:
  assumes "it_pos it + ilen \<le> length (it_mem it)" "inp it ilen = codes str @ replicate k True"
    "8 \<le> k" "k < 16" "length str \<le> cap"
  shows "huff_decode dectbl cap it ilen = (if k = 8 then Inr (length str, str, skip ilen it) else Inl AssertFail)"
  using assms by (rule gen.decode_long_padding)

text \<open>The character \<open>a\<close> followed by eleven ones.\<close>

theorem huff_decode_long_padding_witness:
  "huff_decode dectbl 3 (demo_it\<lparr>it_mem := [0x1f, 0xff], it_pos := 0\<rparr>) 2 = Inl AssertFail"
proof -
  let ?it = "demo_it\<lparr>it_mem := [0x1f, 0xff], it_pos := 0\<rparr>"
  have "inp ?it 2 = codes [0x61] @ replicate 11 True" by code_simp
  then have "huff_decode dectbl 3 ?it 2
      = (if (11 :: nat) = 8 then Inr (length [0x61 :: byte], [0x61], skip 2 ?it) else Inl AssertFail)"
    by (intro huff_decode_long_padding) simp_all
  then show ?thesis by simp
qed

end
