(* ===== verification/Hpack.thy ===== *)
theory Hpack
  imports Huffman_Gen Vend
begin

text \<open>
  The HPACK coder of \<open>src/vtc_h2_hpack.c\<close>: integers with a prefix (\<open>num_encode\<close>,
  \<open>num_decode\<close>), strings (\<open>str_encode\<close>, \<open>str_decode\<close>) and header fields (\<open>HPK_EncHdr\<close>,
  \<open>HPK_DecHdr\<close>), over the block iterator.

  A result is the value the C function returns together with the objects it writes through its
  pointers.  The decoder takes the Huffman tables as the parameter \<open>dt\<close>.
\<close>

named_theorems hpk_defs "definitions of the HPACK coder"

subsection \<open>Iterators\<close>

definition HPK_NewIter :: "hpk_ctx \<Rightarrow> byte list \<Rightarrow> hpk_iter res" where
  "HPK_NewIter ctx buf = guardR AssertFail (buf \<noteq> []) (Inr \<lparr>it_ctx = ctx, it_mem = buf, it_pos = 0\<rparr>)"

definition gethpk_iterLen :: "hpk_iter \<Rightarrow> nat" where
  "gethpk_iterLen it = it_pos it"

subsection \<open>Integers\<close>

text \<open>
  The loop of \<open>num_decode\<close>.  A shift by the width of the type or more has no meaning in C, so
  \<open>shift\<close> must stay below 32.
\<close>

function num_decode_loop :: "hpk_iter \<Rightarrow> u32 \<Rightarrow> nat \<Rightarrow> (hpk_result \<times> u32 \<times> hpk_iter) res" where
  "num_decode_loop it result shift =
     (let it = next_buf it in
      if at_end it then Inr (hpk_err, result, it)
      else bindR (get_buf it) (\<lambda>b.
        guardR Undefined (shift < 32)
          (if drop_bit shift (0xffffffff - result) < ucast (b AND 0x7f) then Inr (hpk_err, result, it)
           else let result = result + push_bit shift (ucast (b AND 0x7f)) in
             if b AND 0x80 \<noteq> 0 then num_decode_loop it result (shift + 7)
             else Inr (ITER_DONE (next_buf it), result, next_buf it))))"
  by pat_completeness auto
termination
  by (relation "measure (\<lambda>(it, result, shift). length (it_mem it) - it_pos it)")
    (auto simp: get_buf_def nthR_Inr_iff next_buf_def)

declare num_decode_loop.simps [simp del]

definition num_decode :: "hpk_iter \<Rightarrow> nat \<Rightarrow> (hpk_result \<times> u32 \<times> hpk_iter) res" where
  "num_decode it pref = guardR AssertFail (it_pos it < length (it_mem it) \<and> pref \<noteq> 0 \<and> pref \<le> 8)
     (bindR (get_buf it) (\<lambda>b.
        let result = ucast (b AND drop_bit (8 - pref) 0xff) in
        if result < push_bit pref 1 - 1 then Inr (ITER_DONE (next_buf it), result, next_buf it)
        else num_decode_loop it result 0))"

text \<open>The loop of \<open>num_encode\<close>, from the point where \<open>num\<close> is what is left to write.\<close>

function num_encode_loop :: "hpk_iter \<Rightarrow> u32 \<Rightarrow> (hpk_result \<times> hpk_iter) res" where
  "num_encode_loop it num =
     (let it = next_buf it in
      if at_end it then Inr (hpk_err, it)
      else bindR (put_buf (ucast (num mod 128) OR 0x80) it) (\<lambda>it.
        if num div 128 \<noteq> 0 then num_encode_loop it (num div 128)
        else bindR (get_buf it) (\<lambda>b. bindR (put_buf (b AND 127) it) (\<lambda>it.
          Inr (ITER_DONE (next_buf it), next_buf it)))))"
  by pat_completeness auto
termination
  by (relation "measure (\<lambda>(it, num). length (it_mem it) - it_pos it)")
    (auto simp: put_buf_def guardR_Inr_iff next_buf_def)

declare num_encode_loop.simps [simp del]

definition num_encode :: "hpk_iter \<Rightarrow> nat \<Rightarrow> u32 \<Rightarrow> (hpk_result \<times> hpk_iter) res" where
  "num_encode it pref num =
     guardR AssertFail (pref \<noteq> 0 \<and> pref \<le> 8 \<and> it_pos it < length (it_mem it))
       (let pmax = ucast (push_bit pref 1 - 1 :: u32) :: byte in
        bindR (get_buf it) (\<lambda>b. bindR (put_buf (b AND push_bit pref 0xff) it) (\<lambda>it.
          if num \<le> ucast pmax
          then bindR (get_buf it) (\<lambda>b. bindR (put_buf (b OR ucast num) it) (\<lambda>it.
            Inr (ITER_DONE (next_buf it), next_buf it)))
          else if length (it_mem it) - it_pos it < 2 then Inr (hpk_err, it)
          else bindR (get_buf it) (\<lambda>b. bindR (put_buf (b OR pmax) it) (\<lambda>it.
            num_encode_loop it (num - ucast pmax))))))"

subsection \<open>Strings\<close>

definition txt_bytes :: "hpk_txt \<Rightarrow> byte list" where
  "txt_bytes t = (case txt_ptr t of None \<Rightarrow> [] | Some bs \<Rightarrow> bs)"

definition str_encode :: "hpk_iter \<Rightarrow> hpk_txt \<Rightarrow> (hpk_result \<times> hpk_iter) res" where
  "str_encode it t =
     bindR (huff_simulate (txt_bytes t) (txt_len t) (txt_huff t)) (\<lambda>slen.
       guardR AssertFail (it_pos it < length (it_mem it))
       (bindR (put_buf (if txt_huff t then 0x80 else 0) it) (\<lambda>it.
        bindR (num_encode it 7 (of_nat slen)) (\<lambda>(r, it).
          if r = hpk_err then Inr (hpk_err, it)
          else if slen > length (it_mem it) - it_pos it then Inr (hpk_err, it)
          else if txt_huff t then huff_encode it (txt_bytes t) (txt_len t)
          else guardR Undefined (slen \<le> length (txt_bytes t))
            (let it = emit it (take slen (txt_bytes t)) in Inr (ITER_DONE it, it))))))"

text \<open>
  \<open>str_decode\<close> gives the new value of \<open>*t\<close>, and whether \<open>t->ptr\<close> was freed and left dangling, as
  on the path where \<open>huff_decode\<close> returns 0; freeing such a pointer again is undefined.  The length
  of a text, a \<open>uint32_t\<close> stored in an \<open>int\<close>, is at most that of the block; blocks are shorter than
  2 GiB.
\<close>

definition str_decode ::
    "(nat \<Rightarrow> stbl) \<Rightarrow> hpk_iter \<Rightarrow> hpk_txt \<Rightarrow> (hpk_result \<times> hpk_txt \<times> bool \<times> hpk_iter) res" where
  "str_decode dt it t =
     guardR AssertFail (it_pos it < length (it_mem it))
     (bindR (get_buf it) (\<lambda>b. let huff = (b AND 0x80 \<noteq> 0) in
      bindR (num_decode it 7) (\<lambda>(r, num, it).
        if r \<noteq> hpk_more then Inr (hpk_err, t, False, it)
        else guardR AssertFail (it_pos it < length (it_mem it))
          (if unat num > length (it_mem it) - it_pos it then Inr (hpk_err, t, False, it)
           else if huff then
             bindR (huff_decode dt (unat num * 8 div 5 + 1) it (unat num)) (\<lambda>(l, out, it).
               if l = 0 then Inr (hpk_err, t, True, it)
               else guardR Undefined (l \<le> unat num * 8 div 5)
                 (Inr (ITER_DONE it, \<lparr>txt_ptr = Some (take l out), txt_len = l, txt_huff = True\<rparr>, False, it)))
           else
             let out = take (unat num) (drop (it_pos it) (it_mem it)); it = it\<lparr>it_pos := it_pos it + unat num\<rparr>
             in Inr (ITER_DONE it, \<lparr>txt_ptr = Some out, txt_len = unat num, txt_huff = False\<rparr>, False, it)))))"

definition txtcpy :: "hpk_txt \<Rightarrow> hpk_txt \<Rightarrow> hpk_txt res" where
  "txtcpy to from = (case txt_ptr from of
     None \<Rightarrow> Inl Undefined
   | Some bs \<Rightarrow> guardR Undefined (txt_len from \<le> length bs)
       (Inr (to\<lparr>txt_ptr := Some (take (txt_len from) bs), txt_len := txt_len from\<rparr>)))"

subsection \<open>Header fields\<close>

definition DecHdr_indexed :: "hpk_iter \<Rightarrow> hpk_hdr \<Rightarrow> (hpk_result \<times> hpk_hdr \<times> hpk_iter) res" where
  "DecHdr_indexed it h =
     (let h = h\<lparr>hk_t := hpk_idx\<rparr> in
      bindR (num_decode it 7) (\<lambda>(r, num, it).
        if r = hpk_err then Inr (hpk_err, h, it)
        else if num \<noteq> 0 then
          (case tbl_get_key (it_ctx it) num of
             None \<Rightarrow> Inr (hpk_err, h, it)
           | Some k \<Rightarrow> bindR (txtcpy (hk_key h) k) (\<lambda>k'. let h = h\<lparr>hk_key := k'\<rparr> in
               case tbl_get_value (it_ctx it) num of
                 None \<Rightarrow> Inr (hpk_err, h, it)
               | Some v \<Rightarrow> bindR (txtcpy (hk_value h) v) (\<lambda>v'.
                   Inr (if it_pos it < length (it_mem it) then hpk_more else hpk_done, h\<lparr>hk_value := v'\<rparr>, it))))
        else Inr (hpk_err, h, it)))"

text \<open>
  The part of \<open>HPK_DecHdr\<close> after the first byte has been classified as a literal.  When the name is
  not read it calls \<open>free(header->key.ptr)\<close>.
\<close>

definition DecHdr_literal ::
    "(nat \<Rightarrow> stbl) \<Rightarrow> hpk_iter \<Rightarrow> hpk_hdr \<Rightarrow> nat \<Rightarrow> bool \<Rightarrow> (hpk_result \<times> hpk_hdr \<times> hpk_iter) res" where
  "DecHdr_literal dt it h pref must_index =
     bindR (num_decode it pref) (\<lambda>(r, num, it).
       if r \<noteq> hpk_more then Inr (hpk_err, h, it)
       else let h = h\<lparr>hk_i := num\<rparr> in
         bindR (if num \<noteq> 0 then
                  (case tbl_get_key (it_ctx it) num of
                     None \<Rightarrow> Inr (False, h, it)
                   | Some k \<Rightarrow> bindR (txtcpy (hk_key h) k) (\<lambda>k'. Inr (True, h\<lparr>hk_key := k'\<rparr>, it)))
                else bindR (str_decode dt it (hk_key h)) (\<lambda>(r, k', dangling, it).
                  if r \<noteq> hpk_more then guardR Undefined (\<not> dangling) (Inr (False, h\<lparr>hk_key := k'\<rparr>, it))
                  else Inr (True, h\<lparr>hk_key := k'\<rparr>, it)))
           (\<lambda>(ok, h, it).
             if \<not> ok then Inr (hpk_err, h, it)
             else bindR (str_decode dt it (hk_value h)) (\<lambda>(r, v', dangling, it).
               let h = h\<lparr>hk_value := v'\<rparr> in
               if r = hpk_err then Inr (hpk_err, h, it)
               else if must_index
               then bindR (push_header (it_ctx it) h) (\<lambda>c. let it = it\<lparr>it_ctx := c\<rparr> in Inr (ITER_DONE it, h, it))
               else Inr (ITER_DONE it, h, it))))"

definition HPK_DecHdr :: "(nat \<Rightarrow> stbl) \<Rightarrow> hpk_iter \<Rightarrow> hpk_hdr \<Rightarrow> (hpk_result \<times> hpk_hdr \<times> hpk_iter) res" where
  "HPK_DecHdr dt it h =
     guardR AssertFail (it_pos it < length (it_mem it))
     (bindR (get_buf it) (\<lambda>b.
        if b AND 128 \<noteq> 0 then DecHdr_indexed it h
        else if drop_bit 6 b = 1 then DecHdr_literal dt it (h\<lparr>hk_t := hpk_inc\<rparr>) 6 True
        else if drop_bit 4 b = 0 then DecHdr_literal dt it (h\<lparr>hk_t := hpk_not\<rparr>) 4 False
        else if drop_bit 4 b = 1 then DecHdr_literal dt it (h\<lparr>hk_t := hpk_never\<rparr>) 4 False
        else if drop_bit 5 b = 1 then
          bindR (num_decode it 5) (\<lambda>(r, num, it).
            if r \<noteq> hpk_done then Inr (hpk_err, h, it)
            else bindR (HPK_ResizeTbl (it_ctx it) num) (\<lambda>(r, c). Inr (r, h, it\<lparr>it_ctx := c\<rparr>)))
        else Inr (hpk_err, h, it)))"

definition EncHdr_literal :: "hpk_iter \<Rightarrow> hpk_hdr \<Rightarrow> byte \<Rightarrow> nat \<Rightarrow> bool \<Rightarrow> (hpk_result \<times> hpk_iter) res" where
  "EncHdr_literal it h first pref must_index =
     bindR (put_buf first it) (\<lambda>it.
       bindR (if hk_i h \<noteq> 0 then num_encode it pref (hk_i h) else str_encode (next_buf it) (hk_key h)) (\<lambda>(r, it).
         if r \<noteq> hpk_more then Inr (hpk_err, it)
         else bindR (str_encode it (hk_value h)) (\<lambda>(ret, it).
           if ret = hpk_err then Inr (hpk_err, it)
           else if must_index then bindR (push_header (it_ctx it) h) (\<lambda>c. Inr (ret, it\<lparr>it_ctx := c\<rparr>))
           else Inr (ret, it))))"

definition HPK_EncHdr :: "hpk_iter \<Rightarrow> hpk_hdr \<Rightarrow> (hpk_result \<times> hpk_iter) res" where
  "HPK_EncHdr it h = (case hk_t h of
     hpk_idx \<Rightarrow> bindR (put_buf 0x80 it) (\<lambda>it. bindR (num_encode it 7 (hk_i h)) (\<lambda>(r, it).
       guardR AssertFail (r \<noteq> hpk_err) (Inr (ITER_DONE it, it))))
   | hpk_inc \<Rightarrow> EncHdr_literal it h 0x40 6 True
   | hpk_not \<Rightarrow> EncHdr_literal it h 0x00 4 False
   | hpk_never \<Rightarrow> EncHdr_literal it h 0x10 4 False
   | hpk_unset \<Rightarrow> Inl AssertFail)"

lemmas coder_defs [hpk_defs] = num_decode_def num_encode_def str_encode_def str_decode_def txtcpy_def
  DecHdr_indexed_def DecHdr_literal_def HPK_DecHdr_def EncHdr_literal_def HPK_EncHdr_def

subsection \<open>The wire format of integers\<close>

text \<open>\<open>vnum n\<close>: seven bits per byte, least significant first, the high bit set on all but the last.\<close>

fun vnum :: "nat \<Rightarrow> byte list" where
  "vnum n = (if n < 128 then [of_nat n] else (of_nat (n mod 128) OR 0x80) # vnum (n div 128))"

declare vnum.simps [simp del]

definition pmax :: "nat \<Rightarrow> nat" where
  "pmax pref = 2 ^ pref - 1"

definition num_wire :: "nat \<Rightarrow> byte \<Rightarrow> nat \<Rightarrow> byte list" where
  "num_wire pref f n = (if n \<le> pmax pref then [f OR of_nat n] else (f OR of_nat (pmax pref)) # vnum (n - pmax pref))"

text \<open>The bytes at the position of the iterator.\<close>

definition reads :: "hpk_iter \<Rightarrow> byte list \<Rightarrow> bool" where
  "reads it bs \<longleftrightarrow> it_pos it \<le> length (it_mem it) \<and> take (length bs) (drop (it_pos it) (it_mem it)) = bs"

lemma reads_Cons:
  "reads it (b # bs) \<longleftrightarrow> it_pos it < length (it_mem it) \<and> it_mem it ! it_pos it = b \<and> reads (skip 1 it) bs"
proof (cases "it_pos it < length (it_mem it)")
  case True
  then show ?thesis by (auto simp: reads_def Cons_nth_drop_Suc [symmetric] simp del: drop_Suc)
next
  case False
  then show ?thesis by (auto simp: reads_def)
qed

lemma reads_Nil [simp]: "reads it [] \<longleftrightarrow> it_ok it"
  by (simp add: reads_def it_ok_def)

lemma reads_append: "reads it (bs @ cs) \<longleftrightarrow> reads it bs \<and> reads (skip (length bs) it) cs"
proof (induction bs arbitrary: it)
  case Nil
  then show ?case by (auto simp: reads_def)
next
  case (Cons b bs)
  then show ?case by (simp add: reads_Cons)
qed

lemma reads_len: "reads it bs \<Longrightarrow> it_pos it + length bs \<le> length (it_mem it)"
  by (auto simp: reads_def dest!: arg_cong [where f = length])

lemma reads_emit:
  assumes "it_ok it" "length bs \<le> room it"
  shows "reads ((emit it bs)\<lparr>it_pos := it_pos it\<rparr>) bs"
  using assms by (simp add: reads_def emit_def it_ok_def room_def)

lemma next_skip: "next_buf it = skip 1 it"
  by (simp add: next_buf_def skip_def)

subsection \<open>Bits of the first byte\<close>

lemma bit_consts:
  "bit (255 :: nat) k \<longleftrightarrow> k < 8" "bit (255 :: int) k \<longleftrightarrow> k < 8" "bit (127 :: nat) k \<longleftrightarrow> k < 7"
  "bit (127 :: int) k \<longleftrightarrow> k < 7" "bit (128 :: nat) k \<longleftrightarrow> k = 7" "bit (128 :: int) k \<longleftrightarrow> k = 7"
  using bit_mask_iff [of 8 k, where ?'a = nat] bit_mask_iff [of 8 k, where ?'a = int]
    bit_mask_iff [of 7 k, where ?'a = nat] bit_mask_iff [of 7 k, where ?'a = int]
    bit_exp_iff [of 7 k, where ?'a = nat] bit_exp_iff [of 7 k, where ?'a = int]
  by (auto simp add: mask_eq_exp_minus_1)

lemma bit_byte_consts:
  "bit (255 :: byte) k \<longleftrightarrow> k < 8" "bit (127 :: byte) k \<longleftrightarrow> k < 7" "bit (128 :: byte) k \<longleftrightarrow> k = 7"
  by (auto simp add: bit_consts)

lemma low_mask: "pref \<le> 8 \<Longrightarrow> drop_bit (8 - pref) (0xff :: byte) = mask pref"
proof (rule bit_word_eqI)
  fix k assume "pref \<le> 8" "k < LENGTH(8)"
  then show "bit (drop_bit (8 - pref) (0xff :: byte)) k = bit (mask pref :: byte) k"
    by (auto simp: bit_drop_bit_eq bit_mask_iff bit_consts)
qed

lemma high_clear: "pref \<le> 8 \<Longrightarrow> (f :: byte) AND push_bit pref 0xff = f \<Longrightarrow> k < pref \<Longrightarrow> \<not> bit f k"
  by (drule arg_cong [where f = "\<lambda>w. bit w k"]) (auto simp: bit_simps)

lemma small_bits: "n < 2 ^ m \<Longrightarrow> m \<le> k \<Longrightarrow> \<not> bit (of_nat n :: 'a :: len word) k"
proof
  assume n: "n < 2 ^ m" "m \<le> k" and b: "bit (of_nat n :: 'a word) k"
  then have "bit n k" by (simp add: bit_simps)
  moreover have "n < 2 ^ k" using n by (meson less_le_trans one_le_numeral power_increasing)
  ultimately show False by (simp add: bit_iff_odd)
qed

lemma low_bits:
  assumes "pref \<le> 8" "f AND push_bit pref 0xff = f" "n < 2 ^ pref"
  shows "(f OR of_nat n) AND drop_bit (8 - pref) 0xff = (of_nat n :: byte)"
    "(f OR of_nat n) AND push_bit pref 0xff = f"
proof -
  note hc = high_clear [OF assms(1,2)] and sb = small_bits [OF assms(3)]
  show "(f OR of_nat n) AND drop_bit (8 - pref) 0xff = (of_nat n :: byte)"
    unfolding low_mask [OF assms(1)]
  proof (rule bit_word_eqI, goal_cases)
    case (1 k)
    then show ?case using hc [of k] sb [of k, where ?'a = 8] by (cases "k < pref") (auto simp: bit_simps)
  qed
  show "(f OR of_nat n) AND push_bit pref 0xff = f"
  proof (rule bit_word_eqI, goal_cases)
    case (1 k)
    then show ?case using hc [of k] sb [of k, where ?'a = 8] by (cases "k < pref") (auto simp: bit_simps bit_consts)
  qed
qed

lemma group_bits:
  assumes "n < 128"
  shows "(of_nat n OR 0x80) AND 0x7f = (of_nat n :: byte)" "(of_nat n OR 0x80) AND 0x80 \<noteq> (0 :: byte)"
    "of_nat n AND 0x7f = (of_nat n :: byte)" "of_nat n AND 0x80 = (0 :: byte)"
    "of_nat n AND 127 = (of_nat n :: byte)"
proof -
  have sb: "7 \<le> k \<Longrightarrow> \<not> bit (of_nat n :: byte) k" for k using small_bits [of n 7 k] assms by simp
  show "(of_nat n OR 0x80) AND 0x7f = (of_nat n :: byte)"
  proof (rule bit_word_eqI, goal_cases)
    case (1 k) then show ?case using sb [of k] by (cases "k < 7") (auto simp: bit_simps bit_consts)
  qed
  show a: "of_nat n AND 0x7f = (of_nat n :: byte)"
  proof (rule bit_word_eqI, goal_cases)
    case (1 k) then show ?case using sb [of k] by (cases "k < 7") (auto simp: bit_simps bit_consts)
  qed
  then show "of_nat n AND 127 = (of_nat n :: byte)" by simp
  show "of_nat n AND 0x80 = (0 :: byte)"
    using sb by (intro bit_word_eqI) (auto simp: bit_simps bit_consts)
  have "bit ((of_nat n OR 0x80) AND 0x80 :: byte) 7" by (simp add: bit_simps bit_consts)
  then show "(of_nat n OR 0x80) AND 0x80 \<noteq> (0 :: byte)" by auto
qed

subsection \<open>Integers\<close>

lemma unat_mod128: "(ucast ((num :: u32) mod 128) :: byte) = of_nat (unat num mod 128)"
proof -
  have "unat (ucast (num mod 128) :: byte) = unat (of_nat (unat num mod 128) :: byte)"
    by (simp add: unat_of_nat unsigned_ucast_eq unat_mod take_bit_eq_mod)
  then show ?thesis by (simp only: unsigned_word_eqI)
qed

lemma emit_last_and:
  assumes "it_pos it < length (it_mem it)"
  shows "bindR (put_buf b it) (\<lambda>it. bindR (get_buf it) (\<lambda>c. bindR (put_buf (c AND m) it) (\<lambda>it. f (next_buf it))))
    = f (emit it [b AND m])"
  using assms by (simp add: put_buf_def get_buf_def next_buf_def emit_def upd_conv_take_nth_drop nth_append)

lemma num_encode_loop_eq:
  assumes "it_pos it < length (it_mem it)"
  shows "if length (vnum (unat num)) < room it
    then num_encode_loop it num = Inr (ITER_DONE (emit (skip 1 it) (vnum (unat num))), emit (skip 1 it) (vnum (unat num)))
    else \<exists>it'. num_encode_loop it num = Inr (hpk_err, it')"
  using assms
proof (induction "unat num" arbitrary: num it rule: less_induct)
  case less
  let ?it = "skip 1 it" and ?n = "unat num"
  have ok: "it_ok ?it" and rm: "room ?it = room it - 1" using less.prems by (auto simp: it_ok_def room_def)
  show ?case
  proof (cases "room it = 1")
    case True
    then have "at_end ?it" using less.prems by (simp add: at_end_def room_def)
    moreover have "\<not> length (vnum ?n) < 1" by (subst vnum.simps) auto
    ultimately show ?thesis using True by (subst num_encode_loop.simps) (auto simp: next_skip)
  next
    case False
    then have ne: "\<not> at_end ?it" and lt: "it_pos ?it < length (it_mem ?it)"
      using less.prems by (auto simp: at_end_def room_def)
    have d: "num div 128 \<noteq> 0 \<longleftrightarrow> \<not> ?n < 128" "unat (num div 128) = ?n div 128"
      by (auto simp: unat_div word_less_nat_alt unat_eq_0 [symmetric] div_eq_0_iff simp del: unat_eq_0)
    have lm: "?n mod 128 < 128" by simp
    show ?thesis
    proof (cases "?n < 128")
      case True
      have "num_encode_loop it num = Inr (ITER_DONE (emit ?it [of_nat ?n]), emit ?it [of_nat ?n])"
        using ne lt d True group_bits(1) [OF True]
          emit_last_and [OF lt, of "of_nat ?n OR 0x80" 127 "\<lambda>it. Inr (ITER_DONE it, it)"]
        by (subst num_encode_loop.simps) (simp add: next_skip unat_mod128 Let_def)
      then show ?thesis using True False less.prems by (auto simp: vnum.simps [of ?n] room_def)
    next
      case big: False
      let ?b = "of_nat (?n mod 128) OR 0x80 :: byte"
      let ?it2 = "?it\<lparr>it_mem := (it_mem ?it)[it_pos ?it := ?b]\<rparr>"
      have step: "num_encode_loop it num = num_encode_loop ?it2 (num div 128)"
        using ne lt d big by (subst num_encode_loop.simps) (simp add: next_skip unat_mod128 Let_def put_buf_def)
      have e: "emit (skip 1 ?it2) bs = emit ?it (?b # bs)" for bs
        using lt by (simp add: emit_def skip_def upd_conv_take_nth_drop add.commute)
      have lt2: "it_pos ?it2 < length (it_mem ?it2)" "room ?it2 = room it - 1" using lt by (auto simp: room_def)
      have v: "vnum ?n = ?b # vnum (?n div 128)" using big by (subst vnum.simps) simp
      have "unat (num div 128) < ?n" using big d by simp
      note IH = less.hyps [OF this lt2(1)]
      have "length (vnum (?n div 128)) < room it - 1 \<longleftrightarrow> length (?b # vnum (?n div 128)) < room it" by auto
      with IH show ?thesis unfolding step e d(2) v lt2(2) by (simp only:)
    qed
  qed
qed


lemma unat_ucast_byte: "k < 256 \<Longrightarrow> unat (ucast (of_nat k :: byte) :: u32) = k"
  by (simp add: unsigned_ucast_eq unat_of_nat take_bit_nat_eq_self)

lemma pmax_words:
  assumes "pref \<noteq> 0" "pref \<le> 8"
  shows "(ucast (2 ^ pref - 1 :: u32) :: byte) = of_nat (pmax pref)"
    "unat (ucast (of_nat (pmax pref) :: byte) :: u32) = pmax pref" "pmax pref < 2 ^ pref" "pmax pref < 256"
    "(2 ^ pref - 1 :: u32) = of_nat (pmax pref)"
proof -
  consider "pref = 1" | "pref = 2" | "pref = 3" | "pref = 4" | "pref = 5" | "pref = 6" | "pref = 7" | "pref = 8"
    using assms by linarith
  then show "(ucast (2 ^ pref - 1 :: u32) :: byte) = of_nat (pmax pref)"
    "unat (ucast (of_nat (pmax pref) :: byte) :: u32) = pmax pref" "pmax pref < 2 ^ pref" "pmax pref < 256"
    "(2 ^ pref - 1 :: u32) = of_nat (pmax pref)"
    by (cases, simp_all add: pmax_def)+
qed

lemma num_encode_eq:
  assumes p: "pref \<noteq> 0" "pref \<le> 8" and it: "it_pos it < length (it_mem it)"
  shows "let w = num_wire pref (it_mem it ! it_pos it AND push_bit pref 0xff) (unat num) in
    if length w \<le> room it then num_encode it pref num = Inr (ITER_DONE (emit it w), emit it w)
    else \<exists>it'. num_encode it pref num = Inr (hpk_err, it')"
proof -
  let ?f = "it_mem it ! it_pos it AND push_bit pref 0xff"
  let ?upd = "\<lambda>b. it\<lparr>it_mem := (it_mem it)[it_pos it := b]\<rparr>"
  note pm = pmax_words [OF p]
  have le: "num \<le> ucast (of_nat (pmax pref) :: byte) \<longleftrightarrow> unat num \<le> pmax pref"
    using pm(2) by (simp add: word_le_nat_alt)
  have rm: "0 < room it" using it by (simp add: room_def)
  show ?thesis
  proof (cases "unat num \<le> pmax pref")
    case True
    then have "(ucast num :: byte) = of_nat (unat num)" by simp
    then have "num_encode it pref num = Inr (ITER_DONE (emit it [?f OR of_nat (unat num)]), emit it [?f OR of_nat (unat num)])"
      using it True le p
      by (simp add: num_encode_def get_buf_def put_buf_def pm(1) Let_def next_buf_def emit_def upd_conv_take_nth_drop nth_append)
    then show ?thesis using True rm by (simp add: num_wire_def Let_def)
  next
    case False
    let ?it = "?upd (?f OR of_nat (pmax pref))"
    have num: "unat (num - ucast (of_nat (pmax pref) :: byte)) = unat num - pmax pref"
      using False pm(2) by (simp add: unat_sub word_le_nat_alt)
    have "num_encode it pref num = (if room it < 2 then Inr (hpk_err, ?upd ?f)
       else num_encode_loop ?it (num - ucast (of_nat (pmax pref) :: byte)))"
      using it False le p by (simp add: num_encode_def get_buf_def put_buf_def pm(1) Let_def room_def)
    moreover have "room ?it = room it" "it_pos ?it < length (it_mem ?it)" using it by (auto simp: room_def)
    moreover have "emit (skip 1 ?it) bs = emit it ((?f OR of_nat (pmax pref)) # bs)" for bs
      using it by (simp add: emit_def skip_def upd_conv_take_nth_drop add.commute)
    moreover have "0 < length (vnum (unat num - pmax pref))" by (subst vnum.simps) auto
    then have "room it < 2 \<Longrightarrow> \<not> length (vnum (unat num - pmax pref)) < room it" by linarith
    moreover note num_encode_loop_eq [of ?it "num - ucast (of_nat (pmax pref) :: byte)", unfolded num]
    ultimately show ?thesis using False
      by (cases "room it < 2") (auto simp: num_wire_def Let_def Suc_le_eq split: if_splits)
  qed
qed


text \<open>One round of the loop on a group that does not overflow.\<close>

lemma num_decode_step:
  assumes it: "it_pos (skip 1 it) < length (it_mem it)" and b: "it_mem it ! it_pos (skip 1 it) = b"
    and s: "s < 32" and lt: "unat r + unat (b AND 0x7f) * 2 ^ s < 2 ^ 32"
  shows "\<exists>r'. unat r' = unat r + unat (b AND 0x7f) * 2 ^ s \<and>
    num_decode_loop it r s = (if b AND 0x80 \<noteq> 0 then num_decode_loop (skip 1 it) r' (s + 7)
      else Inr (ITER_DONE (skip 2 it), r', skip 2 it))"
proof -
  let ?d = "unat (b AND 0x7f)" and ?w = "ucast (b AND 0x7f) :: u32"
  let ?r = "r + push_bit s ?w"
  have ne: "\<not> at_end (skip 1 it)" using it by (simp add: at_end_def)
  have "?d < 256" using unsigned_less [of "b AND 0x7f", where 'a = nat] by simp
  then have ud: "unat ?w = ?d" using unat_ucast_byte [of ?d] by simp
  have "?d * 2 ^ s < 2 ^ 32" using lt by linarith
  then have up: "unat (push_bit s ?w) = ?d * 2 ^ s"
    unfolding unsigned_push_bit_eq ud by (simp add: take_bit_nat_eq_self push_bit_eq_mult)
  have ov: "\<not> drop_bit s (0xffffffff - r) < ?w"
  proof -
    have "unat (0xffffffff - r) = 2 ^ 32 - 1 - unat r"
      using unat_u32_less [of r] by (subst unat_sub_u32) auto
    moreover have "?d * 2 ^ s \<le> 2 ^ 32 - 1 - unat r" using lt by linarith
    then have "?d \<le> (2 ^ 32 - 1 - unat r) div 2 ^ s" by (simp add: less_eq_div_iff_mult_less_eq)
    ultimately show ?thesis
      unfolding not_less word_le_nat_alt unat_drop_bit_eq ud by (simp only: drop_bit_eq_div)
  qed
  have "unat ?r = unat r + ?d * 2 ^ s" using lt up by (subst unat_add_u32) auto
  moreover have "num_decode_loop it r s = (if b AND 0x80 \<noteq> 0 then num_decode_loop (skip 1 it) ?r (s + 7)
      else Inr (ITER_DONE (skip 2 it), ?r, skip 2 it))"
    using ne it b s ov by (subst num_decode_loop.simps) (simp add: next_skip get_buf_def Let_def numeral_2_eq_2)
  ultimately show ?thesis by blast
qed

lemma num_decode_loop_eq:
  assumes "reads (skip 1 it) (vnum m)" "unat r + m * 2 ^ s < 2 ^ 32" "s < 32"
  shows "let it' = skip (1 + length (vnum m)) it
    in num_decode_loop it r s = Inr (ITER_DONE it', of_nat (unat r + m * 2 ^ s), it')"
  using assms
proof (induction m arbitrary: it r s rule: less_induct)
  case (less m)
  let ?it = "skip 1 it" and ?d = "m mod 128"
  let ?b = "if m < 128 then of_nat m else of_nat ?d OR 0x80 :: byte"
  have v: "vnum m = ?b # (if m < 128 then [] else vnum (m div 128))" by (subst vnum.simps) simp
  have rd: "it_pos ?it < length (it_mem it)" "it_mem it ! it_pos ?it = ?b"
    and tl: "\<not> m < 128 \<Longrightarrow> reads (skip 1 ?it) (vnum (m div 128))"
    using less.prems(1) unfolding v by (auto simp: reads_Cons split: if_splits)
  have dm: "m < 128 \<Longrightarrow> ?d = m" by simp
  have b7: "?b AND 0x7f = of_nat ?d" "?b AND 0x80 \<noteq> 0 \<longleftrightarrow> \<not> m < 128"
    using group_bits [of ?d] dm by (auto split: if_splits)
  have ud: "unat (?b AND 0x7f) = ?d" unfolding b7(1) by (simp add: unat_of_nat)
  have ms: "m * 2 ^ s = ?d * 2 ^ s + (m div 128) * 2 ^ (s + 7)"
  proof -
    have "m = ?d + m div 128 * 128" by simp
    then have "m * 2 ^ s = (?d + m div 128 * 128) * 2 ^ s" by simp
    then show ?thesis unfolding add_mult_distrib power_add by simp
  qed
  then have "unat r + ?d * 2 ^ s < 2 ^ 32" using less.prems(2) by linarith
  then obtain r' where ur: "unat r' = unat r + ?d * 2 ^ s" and step: "num_decode_loop it r s =
      (if \<not> m < 128 then num_decode_loop ?it r' (s + 7) else Inr (ITER_DONE (skip 2 it), r', skip 2 it))"
    using num_decode_step [OF rd less.prems(3), of r] unfolding ud b7(2) by blast
  show ?case
  proof (cases "m < 128")
    case True
    then have "r' = of_nat (unat r + m * 2 ^ s)" using ur dm by (metis of_nat_unat ucast_id)
    then show ?thesis using step True v by (simp add: Let_def numeral_2_eq_2)
  next
    case False
    then have q: "1 \<le> m div 128" by simp
    have b2: "unat r' + m div 128 * 2 ^ (s + 7) < 2 ^ 32" using less.prems(2) ms ur by simp
    have "s + 7 < 32"
    proof (rule ccontr)
      assume "\<not> s + 7 < 32"
      then have "(2 :: nat) ^ 32 \<le> 2 ^ (s + 7)" by (intro power_increasing) auto
      also have "\<dots> \<le> m div 128 * 2 ^ (s + 7)" using q by simp
      finally show False using b2 by simp
    qed
    from less.IH [OF _ tl [OF False] b2 this] False
    have "num_decode_loop ?it r' (s + 7) = Inr (ITER_DONE (skip (1 + length (vnum m)) it),
       of_nat (unat r' + m div 128 * 2 ^ (s + 7)), skip (1 + length (vnum m)) it)"
      by (simp add: v Let_def)
    then show ?thesis using step False ms ur by (simp add: Let_def add.assoc)
  qed
qed

text \<open>The value of a run of groups, least significant first, and what happens when it is too long.\<close>

lemma num_decode_loop_shift:
  assumes "reads (skip 1 it) (cs @ [c])" "\<forall>c \<in> set cs. c AND 0x80 \<noteq> 0"
    "unat r + foldr (\<lambda>c v. unat (c AND 0x7f) + 128 * v) cs 0 * 2 ^ s < 2 ^ 32" "32 \<le> s + 7 * length cs"
  shows "num_decode_loop it r s = Inl Undefined"
  using assms
proof (induction cs arbitrary: it r s)
  case Nil
  then show ?case by (subst num_decode_loop.simps) (simp add: reads_Cons next_skip at_end_def get_buf_def)
next
  case (Cons a cs)
  let ?v = "foldr (\<lambda>c v. unat (c AND 0x7f) + 128 * v) cs 0" and ?a = "unat (a AND 0x7f)"
  have rd: "it_pos (skip 1 it) < length (it_mem it)" "it_mem it ! it_pos (skip 1 it) = a"
    and tl: "reads (skip 1 (skip 1 it)) (cs @ [c])" using Cons.prems(1) by (simp_all add: reads_Cons)
  show ?case
  proof (cases "s < 32")
    case True
    have vs: "foldr (\<lambda>c v. unat (c AND 0x7f) + 128 * v) (a # cs) 0 * 2 ^ s = ?a * 2 ^ s + ?v * 2 ^ (s + 7)"
      by (simp add: add_mult_distrib power_add)
    have "unat r + ?a * 2 ^ s < 2 ^ 32" using Cons.prems(3) unfolding vs by linarith
    then obtain r' where r': "unat r' = unat r + ?a * 2 ^ s" "num_decode_loop it r s = num_decode_loop (skip 1 it) r' (s + 7)"
      using num_decode_step [OF rd True, of r] Cons.prems(2) by auto
    have "num_decode_loop (skip 1 it) r' (s + 7) = Inl Undefined"
      by (rule Cons.IH [OF tl]) (use Cons.prems(2-4) r'(1) vs in auto)
    then show ?thesis using r'(2) by simp
  next
    case False
    then show ?thesis using rd by (subst num_decode_loop.simps) (simp add: next_skip at_end_def get_buf_def)
  qed
qed

lemma num_decode_wire:
  assumes p: "pref \<noteq> 0" "pref \<le> 8" "f AND push_bit pref 0xff = f" and n: "n \<noteq> pmax pref" "n < 2 ^ 32"
    and rd: "reads it (num_wire pref f n)"
  shows "let it' = skip (length (num_wire pref f n)) it in num_decode it pref = Inr (ITER_DONE it', of_nat n, it')"
proof -
  note pm = pmax_words [OF p(1,2)]
  show ?thesis
  proof (cases "n \<le> pmax pref")
    case True
    then have lt: "n < 2 ^ pref" "n < pmax pref" "n < 256" using n(1) pm by auto
    from rd have "it_pos it < length (it_mem it)" "it_mem it ! it_pos it = f OR of_nat n"
      using True by (simp_all add: num_wire_def reads_Cons)
    moreover have "(ucast (of_nat n :: byte) :: u32) < push_bit pref 1 - 1"
      using lt pm unat_ucast_byte [of n] by (simp add: word_less_nat_alt unat_of_nat)
    moreover have "(ucast (of_nat n :: byte) :: u32) = of_nat n" using unat_ucast_byte [OF lt(3)] by (metis of_nat_unat ucast_id)
    ultimately show ?thesis using p low_bits(1) [OF p(2,3) lt(1)] True
      by (simp add: num_decode_def get_buf_def Let_def next_skip num_wire_def)
  next
    case False
    let ?m = "n - pmax pref"
    from rd False have "it_pos it < length (it_mem it)" "it_mem it ! it_pos it = f OR of_nat (pmax pref)"
      and r1: "reads (skip 1 it) (vnum ?m)" by (simp_all add: num_wire_def reads_Cons)
    moreover have "\<not> (ucast (of_nat (pmax pref) :: byte) :: u32) < push_bit pref 1 - 1"
      using pm unat_ucast_byte by (simp add: word_less_nat_alt unat_of_nat)
    ultimately have "num_decode it pref = num_decode_loop it (ucast (of_nat (pmax pref) :: byte)) 0"
      using p low_bits(1) [OF p(2,3) pm(3)] by (simp add: num_decode_def get_buf_def Let_def)
    then show ?thesis using num_decode_loop_eq [OF r1, of "ucast (of_nat (pmax pref) :: byte)" 0] False n(2) pm(2)
      by (simp add: Let_def num_wire_def)
  qed
qed

subsection \<open>Strings\<close>

definition txt_str :: "hpk_txt \<Rightarrow> byte list" where
  "txt_str t = take (txt_len t) (txt_bytes t)"

definition txt_coded :: "hpk_txt \<Rightarrow> byte list" where
  "txt_coded t = (if txt_huff t then huff_bytes (txt_str t) else txt_str t)"

definition str_flag :: "hpk_txt \<Rightarrow> byte" where
  "str_flag t = (if txt_huff t then 0x80 else 0)"

definition str_wire :: "hpk_txt \<Rightarrow> byte list" where
  "str_wire t = num_wire 7 (str_flag t) (length (txt_coded t)) @ txt_coded t"

lemma emit_put:
  "it_pos it < length (it_mem it) \<Longrightarrow> w \<noteq> [] \<Longrightarrow> emit (it\<lparr>it_mem := (it_mem it)[it_pos it := b]\<rparr>) w = emit it w"
  by (cases w) (simp_all add: emit_def)

lemma num_wire_ne [simp]: "num_wire pref f n \<noteq> []"
  by (simp add: num_wire_def)

lemma huff_bytes_Nil [simp]: "huff_bytes [] = []"
  by (simp add: huff_bytes_def pack_bits_def full_bytes.simps pad_bits_def)

lemma str_flag_clear: "str_flag t AND push_bit 7 0xff = str_flag t"
  by (simp add: str_flag_def)

lemma ITER_DONE_err [simp]: "ITER_DONE it \<noteq> hpk_err"
  by (simp add: ITER_DONE_def)

text \<open>
  The texts that survive a trip through the coder.  An empty text must not be Huffman coded, for the
  decoder takes it for an error, and the number of coded bits must be an \<open>int\<close>.
\<close>

definition str_rt :: "hpk_txt \<Rightarrow> bool" where
  "str_rt t \<longleftrightarrow> txt_ok t \<and> length (txt_coded t) \<noteq> 127 \<and>
     (txt_huff t \<longrightarrow> txt_len t \<noteq> 0 \<and> length (codes (txt_str t)) + 7 < 2 ^ 31)"

lemma length_huff_bytes: "length (huff_bytes bs) = (length (codes bs) + 7) div 8"
  by (simp add: huff_bytes_def length_pack_bits)

lemma huff_bytes_pos: "bs \<noteq> [] \<Longrightarrow> 0 < length (huff_bytes bs)"
  using code_length_bounds(1) [of "hd bs"] by (cases bs) (simp_all add: length_huff_bytes)

lemma txt_ok_str: "txt_ok t \<Longrightarrow> length (txt_str t) = txt_len t"
  by (auto simp: txt_ok_def txt_str_def txt_bytes_def split: option.splits)

lemma str_rtD:
  assumes "str_rt t"
  shows "txt_ok t" "length (txt_coded t) < 2 ^ 31" "length (txt_coded t) \<noteq> 127"
    "txt_huff t \<Longrightarrow> length (codes (txt_str t)) + 7 < 2 ^ 31" "txt_huff t \<Longrightarrow> 0 < length (txt_coded t)"
proof -
  show "txt_ok t" "length (txt_coded t) \<noteq> 127" "txt_huff t \<Longrightarrow> length (codes (txt_str t)) + 7 < 2 ^ 31"
    using assms by (simp_all add: str_rt_def)
  show "length (txt_coded t) < 2 ^ 31"
    using assms txt_ok_str [of t] by (cases "txt_huff t") (auto simp: str_rt_def txt_coded_def length_huff_bytes txt_ok_def)
  have "txt_huff t \<Longrightarrow> txt_str t \<noteq> []" using assms txt_ok_str [of t] by (cases "txt_str t") (auto simp: str_rt_def)
  then show "txt_huff t \<Longrightarrow> 0 < length (txt_coded t)" using huff_bytes_pos [of "txt_str t"] by (simp add: txt_coded_def)
qed

lemma str_encode_eq:
  assumes rt: "str_rt t" and it: "it_pos it < length (it_mem it)"
  shows "if length (str_wire t) \<le> room it
    then str_encode it t = Inr (if txt_huff t then hpk_more else ITER_DONE (emit it (str_wire t)), emit it (str_wire t))
    else \<exists>it'. str_encode it t = Inr (hpk_err, it')"
proof -
  let ?n = "length (txt_coded t)" and ?w = "num_wire 7 (str_flag t) (length (txt_coded t))"
  let ?it = "it\<lparr>it_mem := (it_mem it)[it_pos it := str_flag t]\<rparr>"
  note t = str_rtD [OF rt]
  obtain bs where bs: "txt_ptr t = Some bs" "length bs = txt_len t" using t(1) by (auto simp: txt_ok_def split: option.splits)
  then have tb: "txt_bytes t = bs" "txt_str t = bs" by (simp_all add: txt_bytes_def txt_str_def)
  have sim: "huff_simulate (txt_bytes t) (txt_len t) (txt_huff t) = Inr ?n"
    using huff_simulate_eq [of "txt_len t" bs "txt_huff t"] bs tb t(4) by (auto simp: txt_coded_def)
  have un: "unat (of_nat ?n :: u32) = ?n" using t(2) by (intro unat_of_nat_u32) simp
  have ok: "it_ok it" "0 < room it" using it by (auto simp: it_ok_def room_def)
  have put: "put_buf (str_flag t) it = Inr ?it" using it by (simp add: put_buf_def)
  have rm: "room ?it = room it" "it_pos ?it < length (it_mem ?it)" using it by (auto simp: room_def)
  have "it_mem ?it ! it_pos ?it = str_flag t" using it by simp
  then have fb: "it_mem ?it ! it_pos ?it AND push_bit 7 0xff = str_flag t" by (simp only: str_flag_clear)
  note ne = num_encode_eq [of 7 ?it "of_nat ?n", unfolded fb un rm(1) Let_def, OF _ _ rm(2)]
  have ew: "emit ?it ?w = emit it ?w" using it by (rule emit_put) simp
  have start: "str_encode it t = bindR (num_encode ?it 7 (of_nat ?n)) (\<lambda>(r, it).
          if r = hpk_err then Inr (hpk_err, it)
          else if ?n > length (it_mem it) - it_pos it then Inr (hpk_err, it)
          else if txt_huff t then huff_encode it bs (txt_len t)
          else guardR Undefined (?n \<le> length bs) (let it = emit it (take ?n bs) in Inr (ITER_DONE it, it)))"
    using it by (simp only: str_encode_def sim bindR_simps str_flag_def [symmetric] put guardR_True tb(1) sim [unfolded tb(1)])
  show ?thesis
  proof (cases "length ?w \<le> room it")
    case True
    let ?it1 = "emit it ?w"
    have e1: "num_encode ?it 7 (of_nat ?n) = Inr (ITER_DONE ?it1, ?it1)" using ne True ew by simp
    have r1: "room ?it1 = room it - length ?w" "it_ok ?it1" using ok True by simp_all
    have em: "emit ?it1 (txt_coded t) = emit it (str_wire t)" using ok True by (simp add: str_wire_def)
    show ?thesis
    proof (cases "?n \<le> room ?it1")
      case fits: True
      have "str_encode it t = (if txt_huff t then huff_encode ?it1 bs (txt_len t)
          else Inr (ITER_DONE (emit ?it1 (txt_coded t)), emit ?it1 (txt_coded t)))"
        using fits unfolding start e1 by (simp add: room_def txt_coded_def tb Let_def)
      moreover have "huff_encode ?it1 bs (txt_len t) = Inr (hpk_more, emit ?it1 (txt_coded t))" if "txt_huff t"
      proof -
        have "0 < ?n" using t(5) [OF that] .
        then have "it_pos ?it1 < length (it_mem ?it1)" using fits unfolding room_def by linarith
        from huff_encode_eq [OF this, of "txt_len t" bs] fits that bs show ?thesis
          by (simp add: txt_coded_def tb emit_res_def)
      qed
      ultimately show ?thesis using fits True r1(1) by (simp add: em) (simp add: str_wire_def)
    next
      case False
      then have "str_encode it t = Inr (hpk_err, ?it1)" unfolding start e1 by (simp add: room_def)
      moreover have "\<not> length (str_wire t) \<le> room it" using False r1(1) by (simp add: str_wire_def)
      ultimately show ?thesis by simp
    qed
  next
    case False
    then obtain it' where "num_encode ?it 7 (of_nat ?n) = Inr (hpk_err, it')" using ne by auto
    then show ?thesis using False unfolding start by (simp add: str_wire_def)
  qed
qed

lemma length_codes: "5 * length bs \<le> length (codes bs)"
proof (induction bs)
  case (Cons b bs)
  then show ?case using code_length_bounds(1) [of b] by simp
qed simp

lemma reads_inp: "reads it bs \<Longrightarrow> inp it (length bs) = bits_of_bytes bs"
  by (simp add: reads_def inp_def)

text \<open>The flag in the first byte of a text.\<close>

lemma num_wire_flag:
  assumes "reads it (num_wire 7 (if hf then 0x80 else 0) n)"
  shows "(it_mem it ! it_pos it AND 0x80 \<noteq> 0) = hf"
proof -
  have "\<exists>k < 128. it_mem it ! it_pos it = (if hf then 0x80 else 0) OR of_nat k"
  proof (cases "n \<le> pmax 7")
    case True
    then show ?thesis using assms by (intro exI [of _ n]) (simp add: num_wire_def reads_Cons pmax_def)
  next
    case False
    then show ?thesis using assms by (intro exI [of _ "pmax 7"]) (simp add: num_wire_def reads_Cons pmax_def)
  qed
  then obtain k where "k < 128" "it_mem it ! it_pos it = (if hf then 0x80 else 0) OR of_nat k" by blast
  then show ?thesis using group_bits [of k] by (auto simp: or.commute)
qed

lemma str_decode_wire:
  assumes rt: "str_rt t" and rd: "reads it (str_wire t)"
    and ne: "txt_coded t \<noteq> [] \<or> it_pos it + length (str_wire t) < length (it_mem it)"
  shows "let it' = skip (length (str_wire t)) it in str_decode dectbl it t0 = Inr (ITER_DONE it', t, False, it')"
proof -
  let ?n = "length (txt_coded t)" and ?w = "num_wire 7 (str_flag t) (length (txt_coded t))"
  note t = str_rtD [OF rt]
  obtain bs where bs: "txt_ptr t = Some bs" "length bs = txt_len t" using t(1) by (auto simp: txt_ok_def split: option.splits)
  then have tb: "txt_str t = bs" by (simp add: txt_bytes_def txt_str_def)
  have r1: "reads it ?w" and r2: "reads (skip (length ?w) it) (txt_coded t)"
    using rd by (simp_all add: str_wire_def reads_append)
  let ?it1 = "skip (length ?w) it" and ?it2 = "skip (length (str_wire t)) it"
  have l2: "it_pos ?it1 + ?n \<le> length (it_mem ?it1)" by (rule reads_len [OF r2])
  have more: "it_pos it + length ?w < length (it_mem it)"
    using ne l2 length_greater_0_conv [of "txt_coded t"] unfolding str_wire_def skip_simps length_append by linarith
  then have "it_pos ?it1 \<noteq> length (it_mem ?it1)" by simp
  then have nd: "num_decode it 7 = Inr (hpk_more, of_nat ?n, ?it1)"
    using num_decode_wire [OF _ _ str_flag_clear _ _ r1] t(2,3)
    by (simp add: pmax_def Let_def ITER_DONE_def)
  have un: "unat (of_nat ?n :: u32) = ?n" using t(2) by (intro unat_of_nat_u32) simp
  have p0: "it_pos it < length (it_mem it)" using more by linarith
  have p1: "it_pos it + length ?w < length (it_mem it)" "\<not> length (it_mem it) - (it_pos it + length ?w) < ?n"
    using l2 more unfolding skip_simps by linarith+
  have hf: "(it_mem it ! it_pos it AND 0x80 \<noteq> 0) = txt_huff t"
    using num_wire_flag [of it "txt_huff t"] r1 by (simp add: str_flag_def)
  have i2: "skip ?n ?it1 = ?it2" by (simp add: str_wire_def)
  show ?thesis
  proof (cases "txt_huff t")
    case True
    have c: "txt_coded t = huff_bytes bs" using True tb by (simp add: txt_coded_def)
    obtain k where k: "k < 8" "inp ?it1 ?n = codes bs @ replicate k True"
      using huff_bytes_bits [of bs] reads_inp [OF r2] c by auto
    have "5 * length bs \<le> 8 * ?n"
      using length_codes [of bs] arg_cong [OF k(2), of length] length_inp [OF l2] by simp
    then have cap: "length bs \<le> ?n * 8 div 5" by simp
    then have hd: "huff_decode dectbl (?n * 8 div 5 + 1) ?it1 ?n = Inr (length bs, bs, ?it2)"
      using gen.decode_codes [OF l2 k(2,1)] i2 by simp
    have "bs \<noteq> []" using t(5) [OF True] c by auto
    then have "txt_len t \<noteq> 0" using bs(2) by (metis length_0_conv)
    then show ?thesis using p0 p1 nd un hf True hd cap bs
      by (simp add: str_decode_def get_buf_def Let_def)
  next
    case False
    have "take ?n (drop (it_pos ?it1) (it_mem ?it1)) = bs" using r2 False tb by (simp add: reads_def txt_coded_def)
    moreover have "?n = txt_len t" using False tb bs by (simp add: txt_coded_def)
    moreover have "?it1\<lparr>it_pos := it_pos ?it1 + ?n\<rparr> = ?it2" using i2 by (simp add: skip_def)
    ultimately show ?thesis using p0 p1 nd un hf False bs
      by (simp add: str_decode_def get_buf_def Let_def)
  qed
qed


subsection \<open>Header fields\<close>

text \<open>The first byte of a literal field and the length of its prefix.\<close>

definition lit_first :: "hpk_indexed \<Rightarrow> byte" where
  "lit_first ty = (case ty of hpk_inc \<Rightarrow> 0x40 | hpk_never \<Rightarrow> 0x10 | _ \<Rightarrow> 0)"

definition lit_pref :: "hpk_indexed \<Rightarrow> nat" where
  "lit_pref ty = (case ty of hpk_inc \<Rightarrow> 6 | _ \<Rightarrow> 4)"

definition name_wire :: "hpk_hdr \<Rightarrow> byte list" where
  "name_wire h = num_wire (lit_pref (hk_t h)) (lit_first (hk_t h)) (unat (hk_i h)) @
     (if hk_i h = 0 then str_wire (hk_key h) else [])"

definition hdr_wire :: "hpk_hdr \<Rightarrow> byte list" where
  "hdr_wire h = name_wire h @ str_wire (hk_value h)"

lemma str_wire_ne [simp]: "str_wire t \<noteq> []"
  by (simp add: str_wire_def)

lemma push_header_cong:
  "hk_key h = hk_key h' \<Longrightarrow> hk_value h = hk_value h' \<Longrightarrow> hk_i h = hk_i h' \<Longrightarrow> push_header c h = push_header c h'"
  by (simp only: push_header_def push_key_def)

lemma emit_first:
  "it_pos it < length (it_mem it) \<Longrightarrow> bs \<noteq> [] \<Longrightarrow>
   emit (next_buf (it\<lparr>it_mem := (it_mem it)[it_pos it := b]\<rparr>)) bs = emit it (b # bs)"
  by (simp add: emit_def next_buf_def upd_conv_take_nth_drop add.commute)

lemma num_wire_0: "num_wire pref b 0 = [b]"
  by (simp add: num_wire_def)

lemma lit_byte:
  assumes "ty \<in> {hpk_inc, hpk_not, hpk_never}"
  shows "lit_pref ty \<noteq> 0" "lit_pref ty \<le> 8" "lit_first ty AND push_bit (lit_pref ty) 0xff = lit_first ty"
    "pmax (lit_pref ty) \<noteq> 0"
  using assms by (auto simp: lit_first_def lit_pref_def pmax_def)

text \<open>The encoder up to the value.\<close>

lemma enc_name:
  assumes ty: "hk_t h \<in> {hpk_inc, hpk_not, hpk_never}" and k: "hk_i h = 0 \<Longrightarrow> str_rt (hk_key h)"
    and rm: "length (name_wire h) < room it"
  shows "bindR (put_buf (lit_first (hk_t h)) it) (\<lambda>it. if hk_i h \<noteq> 0 then num_encode it (lit_pref (hk_t h)) (hk_i h)
      else str_encode (next_buf it) (hk_key h)) = Inr (hpk_more, emit it (name_wire h))"
proof -
  let ?b = "lit_first (hk_t h)" and ?p = "lit_pref (hk_t h)"
  let ?u = "it\<lparr>it_mem := (it_mem it)[it_pos it := ?b]\<rparr>"
  note lb = lit_byte [OF ty]
  have it: "it_pos it < length (it_mem it)" "it_ok it" using rm by (simp_all add: room_def it_ok_def)
  then have put: "put_buf ?b it = Inr ?u" by (simp add: put_buf_def)
  have dn: "ITER_DONE (emit it (name_wire h)) = hpk_more"
    using rm it by (simp add: ITER_DONE_def room_def)
  show ?thesis
  proof (cases "hk_i h = 0")
    case True
    let ?k = "str_wire (hk_key h)"
    have w: "name_wire h = ?b # ?k" using True by (simp add: name_wire_def num_wire_0)
    have r1: "it_pos (next_buf ?u) < length (it_mem (next_buf ?u))" "length ?k \<le> room (next_buf ?u)"
      using rm unfolding w room_def next_buf_def by simp_all
    have "emit (next_buf ?u) ?k = emit it (name_wire h)" unfolding w using it(1) by (intro emit_first) simp_all
    then show ?thesis using str_encode_eq [OF k [OF True] r1(1)] r1(2) True dn by (simp add: put)
  next
    case False
    have w: "name_wire h = num_wire ?p ?b (unat (hk_i h))" using False by (simp add: name_wire_def)
    have u: "it_pos ?u < length (it_mem ?u)" "room ?u = room it" "it_mem ?u ! it_pos ?u AND push_bit ?p 0xff = ?b"
      using it(1) lb(3) by (simp_all add: room_def)
    have "emit ?u (name_wire h) = emit it (name_wire h)" using it(1) by (intro emit_put) (simp_all add: w)
    then show ?thesis
      using num_encode_eq [OF lb(1,2) u(1), of "hk_i h", unfolded u(2,3), folded w] rm False dn by (simp add: put Let_def)
  qed
qed

lemma EncHdr_literal_eq:
  assumes ty: "hk_t h \<in> {hpk_inc, hpk_not, hpk_never}" and k: "hk_i h = 0 \<Longrightarrow> str_rt (hk_key h)"
    and v: "str_rt (hk_value h)" and ok: "it_ok it" and rm: "length (hdr_wire h) \<le> room it"
    and p: "mi \<Longrightarrow> push_header (it_ctx it) h = Inr c" "\<not> mi \<Longrightarrow> c = it_ctx it"
  shows "\<exists>r. r \<noteq> hpk_err \<and> EncHdr_literal it h (lit_first (hk_t h)) (lit_pref (hk_t h)) mi
    = Inr (r, (emit it (hdr_wire h))\<lparr>it_ctx := c\<rparr>)"
proof -
  let ?v = "str_wire (hk_value h)" and ?it1 = "emit it (name_wire h)"
  have "0 < length ?v" by simp
  then have r0: "length (name_wire h) < room it" using rm by (simp add: hdr_wire_def del: length_greater_0_conv)
  have r1: "room ?it1 = room it - length (name_wire h)" using ok r0 by simp
  then have lt: "it_pos ?it1 < length (it_mem ?it1)" using r0 by (simp add: room_def del: room_emit)
  let ?it2 = "emit ?it1 ?v"
  have e2: "?it2 = emit it (hdr_wire h)" using ok r0 by (simp add: hdr_wire_def)
  have "\<exists>r. r \<noteq> hpk_err \<and> str_encode ?it1 (hk_value h) = Inr (r, ?it2)"
    using str_encode_eq [OF v lt] rm r1 by (simp add: hdr_wire_def)
  then obtain r where r: "r \<noteq> hpk_err" "str_encode ?it1 (hk_value h) = Inr (r, ?it2)" by blast
  let ?f = "\<lambda>(r, it). if r \<noteq> hpk_more then Inr (hpk_err, it)
         else bindR (str_encode it (hk_value h)) (\<lambda>(ret, it).
           if ret = hpk_err then Inr (hpk_err, it)
           else if mi then bindR (push_header (it_ctx it) h) (\<lambda>c. Inr (ret, it\<lparr>it_ctx := c\<rparr>))
           else Inr (ret, it))"
  have "EncHdr_literal it h (lit_first (hk_t h)) (lit_pref (hk_t h)) mi
      = bindR (bindR (put_buf (lit_first (hk_t h)) it) (\<lambda>it. if hk_i h \<noteq> 0 then num_encode it (lit_pref (hk_t h)) (hk_i h)
          else str_encode (next_buf it) (hk_key h))) ?f"
    by (simp only: EncHdr_literal_def bindR_assoc)
  also have "\<dots> = ?f (hpk_more, ?it1)" by (simp only: enc_name [OF ty k r0] bindR_simps)
  also have "\<dots> = Inr (r, ?it2\<lparr>it_ctx := c\<rparr>)" using p r by (cases mi) simp_all
  finally have "EncHdr_literal it h (lit_first (hk_t h)) (lit_pref (hk_t h)) mi = Inr (r, ?it2\<lparr>it_ctx := c\<rparr>)" .
  then show ?thesis using r(1) e2 by auto
qed

text \<open>
  What the decoder makes of a header: the name is the decoded text, or a copy of the one in the
  table, which leaves the flag \<open>huff\<close> of the target as it was.
\<close>

definition dec_hdr :: "hpk_hdr \<Rightarrow> hpk_txt \<Rightarrow> hpk_hdr \<Rightarrow> hpk_hdr" where
  "dec_hdr h k h0 = h0\<lparr>hk_i := hk_i h,
     hk_key := (if hk_i h = 0 then hk_key h else (hk_key h0)\<lparr>txt_ptr := txt_ptr k, txt_len := txt_len k\<rparr>),
     hk_value := hk_value h\<rparr>"

lemma txtcpy_ok: "txt_ok k \<Longrightarrow> txtcpy to k = Inr (to\<lparr>txt_ptr := txt_ptr k, txt_len := txt_len k\<rparr>)"
  by (auto simp: txtcpy_def txt_ok_def split: option.splits)

lemma DecHdr_literal_eq:
  assumes ty: "hk_t h \<in> {hpk_inc, hpk_not, hpk_never}" and k0: "hk_i h = 0 \<Longrightarrow> str_rt (hk_key h)"
    and k1: "hk_i h \<noteq> 0 \<Longrightarrow> tbl_get_key (it_ctx it) (hk_i h) = Some k \<and> txt_ok k" "unat (hk_i h) \<noteq> pmax (lit_pref (hk_t h))"
    and v: "str_rt (hk_value h)" "txt_coded (hk_value h) \<noteq> [] \<or> it_pos it + length (hdr_wire h) < length (it_mem it)"
    and rd: "reads it (hdr_wire h)"
    and p: "mi \<Longrightarrow> push_header (it_ctx it) (dec_hdr h k h0) = Inr c" "\<not> mi \<Longrightarrow> c = it_ctx it"
  shows "let it' = (skip (length (hdr_wire h)) it)\<lparr>it_ctx := c\<rparr>
    in DecHdr_literal dectbl it h0 (lit_pref (hk_t h)) mi = Inr (ITER_DONE it', dec_hdr h k h0, it')"
proof -
  let ?n = "num_wire (lit_pref (hk_t h)) (lit_first (hk_t h)) (unat (hk_i h))" and ?v = "str_wire (hk_value h)"
  let ?k = "if hk_i h = 0 then str_wire (hk_key h) else []"
  let ?it1 = "skip (length ?n) it" and ?it2 = "skip (length (name_wire h)) it"
  note lb = lit_byte [OF ty]
  have l: "0 < length ?v" by simp
  have w: "name_wire h = ?n @ ?k" by (simp add: name_wire_def)
  have r0: "reads it ?n" and r1: "reads ?it1 ?k" and r2: "reads ?it2 ?v"
    using rd unfolding hdr_wire_def w by (simp_all add: reads_append)
  have len: "it_pos it + length (name_wire h) + length ?v \<le> length (it_mem it)" using reads_len [OF rd] by (simp add: hdr_wire_def)
  have d1: "ITER_DONE ?it1 = hpk_more" "ITER_DONE ?it2 = hpk_more"
    using len l unfolding ITER_DONE_def skip_simps w length_append by (auto simp del: length_greater_0_conv)
  have nd: "num_decode it (lit_pref (hk_t h)) = Inr (hpk_more, hk_i h, ?it1)"
    using num_decode_wire [OF lb(1-3) k1(2) unat_u32_less r0] d1(1) by (simp add: Let_def)
  have sk: "str_decode dectbl ?it1 t0 = Inr (hpk_more, hk_key h, False, ?it2)" if "hk_i h = 0" for t0
  proof -
    have "it_pos ?it1 + length (str_wire (hk_key h)) < length (it_mem ?it1)"
      using len l that unfolding skip_simps w length_append by (simp del: length_greater_0_conv)
    then show ?thesis using str_decode_wire [OF k0 [OF that], of ?it1 t0] r1 d1(2) that by (simp add: Let_def w)
  qed
  have "txt_coded (hk_value h) \<noteq> [] \<or> it_pos ?it2 + length ?v < length (it_mem ?it2)"
    using v(2) by (simp add: hdr_wire_def add.assoc)
  then have sv: "str_decode dectbl ?it2 t0
      = Inr (ITER_DONE (skip (length (hdr_wire h)) it), hk_value h, False, skip (length (hdr_wire h)) it)" for t0
    using str_decode_wire [OF v(1) r2, of t0] by (simp add: Let_def hdr_wire_def)
  have id: "ITER_DONE (it'\<lparr>it_ctx := c'\<rparr>) = ITER_DONE it'" for it' c' by (simp add: ITER_DONE_def)
  let ?f = "\<lambda>(ok, h, it). if \<not> ok then Inr (hpk_err, h, it)
             else bindR (str_decode dectbl it (hk_value h)) (\<lambda>(r, v', dangling, it).
               let h = h\<lparr>hk_value := v'\<rparr> in
               if r = hpk_err then Inr (hpk_err, h, it)
               else if mi
               then bindR (push_header (it_ctx it) h) (\<lambda>c. let it = it\<lparr>it_ctx := c\<rparr> in Inr (ITER_DONE it, h, it))
               else Inr (ITER_DONE it, h, it))"
  let ?h = "h0\<lparr>hk_i := hk_i h, hk_key := if hk_i h = 0 then hk_key h
    else (hk_key h0)\<lparr>txt_ptr := txt_ptr k, txt_len := txt_len k\<rparr>\<rparr>"
  have "DecHdr_literal dectbl it h0 (lit_pref (hk_t h)) mi = ?f (True, ?h, ?it2)"
  proof (cases "hk_i h = 0")
    case True
    then show ?thesis using sk [OF True] by (simp add: DecHdr_literal_def nd Let_def)
  next
    case False
    then show ?thesis using k1(1) by (simp add: DecHdr_literal_def nd txtcpy_ok w)
  qed
  moreover have "?f (True, ?h, ?it2)
      = (let it' = (skip (length (hdr_wire h)) it)\<lparr>it_ctx := c\<rparr> in Inr (ITER_DONE it', dec_hdr h k h0, it'))"
  proof -
    have "?h\<lparr>hk_value := hk_value h\<rparr> = dec_hdr h k h0" by (simp add: dec_hdr_def)
    then show ?thesis using p by (cases mi) (simp_all add: sv id Let_def del: if_split)
  qed
  ultimately show ?thesis by (simp add: Let_def)
qed

text \<open>The first byte of a literal field tells the decoder its kind.\<close>

lemma DecHdr_kind:
  assumes ty: "hk_t h \<in> {hpk_inc, hpk_not, hpk_never}" and n: "unat (hk_i h) \<noteq> pmax (lit_pref (hk_t h))"
    and rd: "reads it (hdr_wire h)"
  shows "HPK_DecHdr dt it h0 = DecHdr_literal dt it (h0\<lparr>hk_t := hk_t h\<rparr>) (lit_pref (hk_t h)) (hk_t h = hpk_inc)"
proof -
  let ?b = "lit_first (hk_t h)" and ?p = "lit_pref (hk_t h)"
  obtain m where m: "m \<le> pmax ?p" and b: "it_pos it < length (it_mem it)" "it_mem it ! it_pos it = ?b OR of_nat m"
  proof (cases "unat (hk_i h) \<le> pmax ?p")
    case True
    then show ?thesis using rd that [of "unat (hk_i h)"] by (simp add: hdr_wire_def name_wire_def num_wire_def reads_Cons)
  next
    case False
    then show ?thesis using rd that [of "pmax ?p"] by (simp add: hdr_wire_def name_wire_def num_wire_def reads_Cons)
  qed
  have "\<forall>m \<in> set [0..<64]. (0x40 OR of_nat m :: byte) AND 128 = 0 \<and> drop_bit 6 (0x40 OR of_nat m :: byte) = 1"
    "\<forall>m \<in> set [0..<16]. (of_nat m :: byte) AND 128 = 0 \<and> drop_bit 6 (of_nat m :: byte) = 0 \<and> drop_bit 4 (of_nat m :: byte) = 0"
    "\<forall>m \<in> set [0..<16]. (0x10 OR of_nat m :: byte) AND 128 = 0 \<and> drop_bit 6 (0x10 OR of_nat m :: byte) = 0
      \<and> drop_bit 4 (0x10 OR of_nat m :: byte) = 1" by code_simp+
  note kinds = this [THEN bspec, of m]
  show ?thesis using ty m b(1) kinds unfolding HPK_DecHdr_def get_buf_def nthR_def
    by (auto simp: b(2) lit_first_def lit_pref_def pmax_def)
qed

text \<open>Encoder and decoder insert the same entry.\<close>

lemma push_both:
  assumes c: "ctx_ok c" and nm: "name_of c h = Some k" and k: "hk_i h = 0 \<Longrightarrow> k = hk_key h"
      "hk_i h \<noteq> 0 \<Longrightarrow> tbl_get_key c (hk_i h) = Some k \<and> txt_ok k" "txt_ok k"
    and i: "hk_i h \<noteq> 0 \<longrightarrow> txt_ptr (hk_key h) = None \<and> unat (hk_i h) \<noteq> n \<and> ct_maxsize c \<le> 0xffffffc1"
    and ev: "hk_t h = hpk_inc \<longrightarrow> \<not> name_evicted c h (hsize (h\<lparr>hk_key := k\<rparr>))" and v: "txt_ok (hk_value h)"
  shows "\<exists>c1 c2. (hk_t h = hpk_inc \<longrightarrow> push_header c h = Inr c1 \<and> push_header c ((dec_hdr h k h0)\<lparr>hk_t := ty\<rparr>) = Inr c2) \<and>
    (hk_t h \<noteq> hpk_inc \<longrightarrow> c1 = c \<and> c2 = c) \<and>
    ct_size c2 = ct_size c1 \<and> ct_maxsize c2 = ct_maxsize c1 \<and> unmark (ct_dyntbl c2) = unmark (ct_dyntbl c1) \<and>
    (hk_i h = 0 \<longrightarrow> c2 = c1)"
proof (cases "hk_t h = hpk_inc")
  case True
  let ?h1 = "(dec_hdr h k h0)\<lparr>hk_t := ty\<rparr>"
  have own: "hk_i h = 0 \<Longrightarrow> txt_ptr (hk_key h) \<noteq> None" using k(1,3) by (auto simp: txt_ok_def split: option.splits)
  have mx: "txt_ptr (hk_key h) = None \<Longrightarrow> ct_maxsize c \<le> 0xffffffc1" using i own by auto
  have sz: "hsize (h\<lparr>hk_key := k\<rparr>) < 2 ^ 32" using k(3) v by (simp add: txt_ok_def hsize_def)
  obtain c1 where c1: "push_header c h = Inr c1" "sized c1" "ct_maxsize c1 = ct_maxsize c"
    "unmark (ct_dyntbl c1) = unmark (fit (unat (ct_maxsize c)) (tbl_entry (h\<lparr>hk_key := k\<rparr>) # ct_dyntbl c))"
    using push_header_fit [OF c mx nm k(3) v refl sz] ev True by auto
  have k1: "txt_ok (hk_key ?h1)" "hk_value ?h1 = hk_value h" "(hk_key ?h1)\<lparr>txt_huff := False\<rparr> = k\<lparr>txt_huff := False\<rparr>"
    using k(1,3) by (auto simp: dec_hdr_def txt_ok_def split: option.splits)
  then obtain c2 where c2: "push_header c ?h1 = Inr c2" "sized c2" "ct_maxsize c2 = ct_maxsize c"
    "ct_dyntbl c2 = fit (unat (ct_maxsize c)) (tbl_entry ?h1 # ct_dyntbl c)"
    using push_header_own [OF c k1(1)] v by auto
  have "tbl_entry ?h1 = tbl_entry (h\<lparr>hk_key := k\<rparr>)" using k1(2,3) by (simp add: tbl_entry_def)
  then have um: "unmark (ct_dyntbl c2) = unmark (ct_dyntbl c1)" using c1(4) c2(4) by simp
  then have "unat (ct_size c2) = unat (ct_size c1)" using c1(2) c2(2) unmark_tsize [OF um] by (simp add: sized_def)
  then have "ct_size c2 = ct_size c1" by (rule unsigned_word_eqI)
  moreover have "hk_i h = 0 \<Longrightarrow> c2 = c1"
    using c1(1) c2(1) push_header_cong [of ?h1 h c] k(1) by (simp add: dec_hdr_def)
  ultimately show ?thesis using True c1 c2 um by auto
qed auto

subsection \<open>Properties\<close>

text \<open>C20.  Integers survive a trip through \<open>num_encode\<close> and \<open>num_decode\<close>: for every prefix of 1 to
  8 bits and every value other than the largest one the prefix can hold, if the block has room,
  decoding what was written gives the value, the same result and the same position; the bits of
  the first byte above the prefix are kept.\<close>

theorem num_roundtrip:
  assumes "pref \<noteq> 0" "pref \<le> 8" "num_encode it pref num = Inr (r, it')" "r \<noteq> hpk_err"
    "it_pos it < length (it_mem it)" "unat num \<noteq> 2 ^ pref - 1"
  shows "num_decode (it'\<lparr>it_pos := it_pos it\<rparr>) pref = Inr (r, num, it')
    \<and> it_mem it' ! it_pos it AND push_bit pref 0xff = it_mem it ! it_pos it AND push_bit pref 0xff"
proof -
  let ?f = "it_mem it ! it_pos it AND push_bit pref 0xff"
  let ?w = "num_wire pref ?f (unat num)"
  let ?it = "(emit it ?w)\<lparr>it_pos := it_pos it\<rparr>"
  have ok: "it_ok it" using assms(5) by (simp add: it_ok_def)
  have f: "?f AND push_bit pref 0xff = ?f" by (simp add: and.assoc)
  from num_encode_eq [OF assms(1,2,5), of num] assms(3,4) have rm: "length ?w \<le> room it"
    and e: "r = ITER_DONE (emit it ?w)" "it' = emit it ?w" by (auto simp: Let_def split: if_splits)
  have rd: "reads ?it ?w" by (rule reads_emit [OF ok rm])
  have s: "skip (length ?w) ?it = it'" using e by (simp add: skip_emit)
  have n: "unat num \<noteq> pmax pref" "unat num < 2 ^ 32" using assms(6) unat_u32_less [of num] by (simp_all add: pmax_def)
  have "num_decode ?it pref = Inr (r, num, it')"
    using num_decode_wire [OF assms(1,2) f n rd] s e by (simp add: Let_def)
  moreover have "it_mem ?it ! it_pos ?it AND push_bit pref 0xff = ?f"
  proof -
    note pm = pmax_words(3) [OF assms(1,2)]
    show ?thesis
    proof (cases "unat num \<le> pmax pref")
      case True
      then show ?thesis using rd low_bits(2) [OF assms(2) f, of "unat num"] pm by (simp add: num_wire_def reads_Cons)
    next
      case False
      then show ?thesis using rd low_bits(2) [OF assms(2) f pm] by (simp add: num_wire_def reads_Cons)
    qed
  qed
  ultimately show ?thesis using e by simp
qed

theorem num_roundtrip_witness:
  "\<exists>r it'. num_encode demo_it 5 1337 = Inr (r, it')
    \<and> num_decode (it'\<lparr>it_pos := it_pos demo_it\<rparr>) 5 = Inr (r, 1337, it')
    \<and> it_mem it' ! it_pos demo_it AND push_bit 5 0xff = it_mem demo_it ! it_pos demo_it AND push_bit 5 0xff"
proof -
  let ?it = "demo_it\<lparr>it_mem := [0, 0x1f, 0x9a, 0x0a, 0, 0, 0, 0], it_pos := 4\<rparr>"
  have e: "num_encode demo_it 5 1337 = Inr (hpk_more, ?it)" by code_simp
  from num_roundtrip [OF _ _ e] show ?thesis unfolding e by (force simp: demo_it_def)
qed

text \<open>C33.  The largest value of a prefix is encoded wrongly: \<open>num_encode\<close> compares with \<open><=\<close> where the
  format needs \<open><\<close>, so it writes a single byte, which \<open>num_decode\<close> takes for the start of a longer
  number.  If that byte is the last one of the block, decoding it is an error.\<close>

theorem num_encode_pmax_misread:
  assumes "pref \<noteq> 0" "pref \<le> 8" "it_pos it + 1 = length (it_mem it)"
  shows "\<exists>it' num it''. num_encode it pref (of_nat (2 ^ pref - 1)) = Inr (hpk_done, it')
    \<and> num_decode (it'\<lparr>it_pos := it_pos it\<rparr>) pref = Inr (hpk_err, num, it'')"
proof -
  let ?f = "it_mem it ! it_pos it AND push_bit pref 0xff"
  let ?b = "?f OR of_nat (pmax pref)"
  let ?it = "(emit it [?b])\<lparr>it_pos := it_pos it\<rparr>"
  note pm = pmax_words [OF assms(1,2)]
  have lt: "it_pos it < length (it_mem it)" and rm: "room it = 1" and ok: "it_ok it"
    using assms(3) by (auto simp: room_def it_ok_def)
  have un: "unat (of_nat (2 ^ pref - 1) :: u32) = pmax pref"
    unfolding pmax_def [symmetric] using pm(4) by (intro unat_of_nat_u32) simp
  have w: "num_wire pref ?f (pmax pref) = [?b]" by (simp add: num_wire_def)
  have e: "num_encode it pref (of_nat (2 ^ pref - 1)) = Inr (hpk_done, emit it [?b])"
    using num_encode_eq [OF assms(1,2) lt, of "of_nat (2 ^ pref - 1)", unfolded un w Let_def] rm assms(3)
    by (simp add: ITER_DONE_def emit_def)
  have f: "?f AND push_bit pref 0xff = ?f" by (simp add: and.assoc)
  have rd: "it_pos ?it < length (it_mem ?it)" "it_mem ?it ! it_pos ?it = ?b" "length (it_mem ?it) = length (it_mem it)"
    using lt rm ok by (auto simp: emit_def nth_append)
  have "\<not> (ucast (of_nat (pmax pref) :: byte) :: u32) < 2 ^ pref - 1"
    using pm unat_ucast_byte by (simp add: word_less_nat_alt unat_of_nat)
  then have "num_decode ?it pref = num_decode_loop ?it (ucast (of_nat (pmax pref) :: byte)) 0"
    using assms(1,2) rd low_bits(1) [OF assms(2) f pm(3)] by (simp add: num_decode_def get_buf_def Let_def)
  also have "\<dots> = Inr (hpk_err, ucast (of_nat (pmax pref) :: byte), next_buf ?it)"
    using rd assms(3) by (subst num_decode_loop.simps) (simp add: next_buf_def at_end_def)
  finally show ?thesis using e by blast
qed

theorem num_encode_pmax_misread_witness:
  "\<exists>it' num it''. num_encode (demo_it\<lparr>it_pos := 7\<rparr>) 7 (of_nat (2 ^ 7 - 1)) = Inr (hpk_done, it')
    \<and> num_decode (it'\<lparr>it_pos := it_pos (demo_it\<lparr>it_pos := 7\<rparr>)\<rparr>) 7 = Inr (hpk_err, num, it'')"
  by (rule num_encode_pmax_misread) (simp_all add: demo_it_def)

text \<open>C1.  Literal header fields survive a trip through \<open>HPK_EncHdr\<close> and \<open>HPK_DecHdr\<close>, Huffman coded or
  not, indexed or not, with their own name or with the name given by an index, and leave encoder
  and decoder with the same dynamic table, up to the index that \<open>push_header\<close> records in the entry
  it takes a name from.  The conditions are those the code needs: the block has room; no coded
  length is 127 and the index is not the largest value of its prefix (the defect of
  \<open>num_encode\<close>); no empty text is Huffman coded and an empty value does not end the block, since
  the decoder reports both as errors; the number of coded bits is an \<open>int\<close>; and inserting the field
  does not evict the entry that names it (the defect of \<open>push_header\<close>).\<close>

theorem hdr_roundtrip:
  assumes "hk_t h \<in> {hpk_inc, hpk_not, hpk_never}" "name_of (it_ctx it) h = Some k"
    "hk_i h = 0 \<longrightarrow> str_rt (hk_key h)"
    "hk_i h \<noteq> 0 \<longrightarrow> txt_ptr (hk_key h) = None \<and> unat (hk_i h) \<noteq> pmax (lit_pref (hk_t h)) \<and>
       ct_maxsize (it_ctx it) \<le> 0xffffffc1"
    "hk_t h = hpk_inc \<longrightarrow> \<not> name_evicted (it_ctx it) h (hsize (h\<lparr>hk_key := k\<rparr>))"
    "str_rt (hk_value h)" "txt_coded (hk_value h) = [] \<longrightarrow> length (hdr_wire h) < room it"
    "ctx_ok (it_ctx it)" "it_ok it" "length (hdr_wire h) \<le> room it"
  shows "\<exists>r it' c. HPK_EncHdr it h = Inr (r, it') \<and> r \<noteq> hpk_err
    \<and> HPK_DecHdr dectbl (it'\<lparr>it_pos := it_pos it, it_ctx := it_ctx it\<rparr>) h0
      = Inr (ITER_DONE it', (dec_hdr h k h0)\<lparr>hk_t := hk_t h\<rparr>, it'\<lparr>it_ctx := c\<rparr>)
    \<and> ct_size c = ct_size (it_ctx it') \<and> ct_maxsize c = ct_maxsize (it_ctx it')
    \<and> unmark (ct_dyntbl c) = unmark (ct_dyntbl (it_ctx it')) \<and> (hk_i h = 0 \<longrightarrow> c = it_ctx it')"
proof -
  let ?mi = "hk_t h = hpk_inc" and ?w = "hdr_wire h" and ?h1 = "(dec_hdr h k h0)\<lparr>hk_t := hk_t h\<rparr>"
  have nm: "hk_i h = 0 \<Longrightarrow> k = hk_key h" "hk_i h \<noteq> 0 \<Longrightarrow> tbl_get_key (it_ctx it) (hk_i h) = Some k \<and> txt_ok k"
    "txt_ok k"
  proof -
    show k0: "k = hk_key h" if "hk_i h = 0"
      using that assms(2,3) name_of_own [OF str_rtD(1), of h "it_ctx it"] by simp
    show k1: "tbl_get_key (it_ctx it) (hk_i h) = Some k \<and> txt_ok k" if "hk_i h \<noteq> 0"
      using that assms(2,4) name_of_ok [OF assms(8) _ assms(2)] by (simp add: name_of_def)
    show "txt_ok k" using k0 k1 assms(3) str_rtD(1) by (cases "hk_i h = 0") auto
  qed
  obtain c1 c2 where push: "?mi \<Longrightarrow> push_header (it_ctx it) h = Inr c1" "?mi \<Longrightarrow> push_header (it_ctx it) ?h1 = Inr c2"
      "\<not> ?mi \<Longrightarrow> c1 = it_ctx it" "\<not> ?mi \<Longrightarrow> c2 = it_ctx it"
    and eq: "ct_size c2 = ct_size c1 \<and> ct_maxsize c2 = ct_maxsize c1 \<and> unmark (ct_dyntbl c2) = unmark (ct_dyntbl c1)
      \<and> (hk_i h = 0 \<longrightarrow> c2 = c1)"
    using push_both [OF assms(8,2) nm assms(4,5) str_rtD(1) [OF assms(6)], of "hk_t h" h0] by auto
  have enc: "\<exists>r. r \<noteq> hpk_err \<and> EncHdr_literal it h (lit_first (hk_t h)) (lit_pref (hk_t h)) ?mi = Inr (r, (emit it ?w)\<lparr>it_ctx := c1\<rparr>)"
    using EncHdr_literal_eq [OF assms(1) _ assms(6,9,10) push(1,3)] assms(3) by simp
  have he: "HPK_EncHdr it h = EncHdr_literal it h (lit_first (hk_t h)) (lit_pref (hk_t h)) ?mi"
    using assms(1) by (auto simp: HPK_EncHdr_def lit_first_def lit_pref_def)
  let ?it = "(emit it ?w)\<lparr>it_pos := it_pos it\<rparr>"
  have rd: "reads ?it ?w" by (rule reads_emit [OF assms(9,10)])
  have cx: "it_ctx ?it = it_ctx it" by simp
  have sk: "skip (length ?w) ?it = emit it ?w" by (rule skip_emit)
  have v: "txt_coded (hk_value h) \<noteq> [] \<or> it_pos ?it + length ?w < length (it_mem ?it)"
    using assms(7,9,10) by (auto simp: room_def)
  have h1: "dec_hdr h k (h0\<lparr>hk_t := hk_t h\<rparr>) = ?h1" by (simp add: dec_hdr_def)
  have pm: "unat (hk_i h) \<noteq> pmax (lit_pref (hk_t h))" using assms(4) lit_byte(4) [OF assms(1)] by (cases "hk_i h = 0") auto
  have dec: "DecHdr_literal dectbl ?it (h0\<lparr>hk_t := hk_t h\<rparr>) (lit_pref (hk_t h)) ?mi
      = Inr (ITER_DONE ((emit it ?w)\<lparr>it_ctx := c2\<rparr>), ?h1, (emit it ?w)\<lparr>it_ctx := c2\<rparr>)"
    using DecHdr_literal_eq [OF assms(1) _ _ pm assms(6) v rd, of k ?mi "h0\<lparr>hk_t := hk_t h\<rparr>" c2, unfolded h1 sk Let_def cx]
      assms(3) nm(2) push(2,4) by simp
  have g: "HPK_DecHdr dectbl ?it h0 = DecHdr_literal dectbl ?it (h0\<lparr>hk_t := hk_t h\<rparr>) (lit_pref (hk_t h)) ?mi"
    by (rule DecHdr_kind [OF assms(1) pm rd])
  have e: "((emit it ?w)\<lparr>it_ctx := c1\<rparr>)\<lparr>it_pos := it_pos it, it_ctx := it_ctx it\<rparr> = ?it" by (simp add: emit_def)
  have d: "ITER_DONE ((emit it ?w)\<lparr>it_ctx := c2\<rparr>) = ITER_DONE ((emit it ?w)\<lparr>it_ctx := c1\<rparr>)" by (simp add: ITER_DONE_def)
  obtain r where r: "r \<noteq> hpk_err" "HPK_EncHdr it h = Inr (r, (emit it ?w)\<lparr>it_ctx := c1\<rparr>)" using enc he by auto
  have fin: "HPK_DecHdr dectbl (((emit it ?w)\<lparr>it_ctx := c1\<rparr>)\<lparr>it_pos := it_pos it, it_ctx := it_ctx it\<rparr>) h0
      = Inr (ITER_DONE ((emit it ?w)\<lparr>it_ctx := c1\<rparr>), ?h1, (emit it ?w)\<lparr>it_ctx := c2\<rparr>)"
    unfolding e g dec d by (rule refl)
  show ?thesis
    by (rule exI [of _ r], rule exI [of _ "(emit it ?w)\<lparr>it_ctx := c1\<rparr>"], rule exI [of _ c2]) (use r eq fin in simp)
qed

definition huff_txt :: "string \<Rightarrow> hpk_txt" where
  "huff_txt s = (lit_txt s)\<lparr>txt_huff := True\<rparr>"

definition demo_own :: hpk_hdr where
  "demo_own = (demo_hdr ''a'' ''bc'')\<lparr>hk_value := huff_txt ''bc''\<rparr>"

definition demo_idx :: hpk_hdr where
  "demo_idx = (demo_hdr ''a'' [])\<lparr>hk_key := null_txt, hk_i := 62\<rparr>"

definition demo_blk :: hpk_iter where
  "demo_blk = \<lparr>it_ctx = demo_ctx, it_mem = replicate 32 0, it_pos = 0\<rparr>"

theorem hdr_roundtrip_witness:
  "(\<exists>r it' c. HPK_EncHdr demo_blk demo_own = Inr (r, it') \<and> r \<noteq> hpk_err
    \<and> HPK_DecHdr dectbl (it'\<lparr>it_pos := it_pos demo_blk, it_ctx := it_ctx demo_blk\<rparr>) demo_own
      = Inr (ITER_DONE it', (dec_hdr demo_own (hk_key demo_own) demo_own)\<lparr>hk_t := hk_t demo_own\<rparr>, it'\<lparr>it_ctx := c\<rparr>)
    \<and> ct_size c = ct_size (it_ctx it') \<and> ct_maxsize c = ct_maxsize (it_ctx it')
    \<and> unmark (ct_dyntbl c) = unmark (ct_dyntbl (it_ctx it')) \<and> (hk_i demo_own = 0 \<longrightarrow> c = it_ctx it')) \<and>
   (\<exists>r it' c. HPK_EncHdr demo_blk demo_idx = Inr (r, it') \<and> r \<noteq> hpk_err
    \<and> HPK_DecHdr dectbl (it'\<lparr>it_pos := it_pos demo_blk, it_ctx := it_ctx demo_blk\<rparr>) demo_own
      = Inr (ITER_DONE it', (dec_hdr demo_idx (lit_txt ''abc'') demo_own)\<lparr>hk_t := hk_t demo_idx\<rparr>, it'\<lparr>it_ctx := c\<rparr>)
    \<and> ct_size c = ct_size (it_ctx it') \<and> ct_maxsize c = ct_maxsize (it_ctx it')
    \<and> unmark (ct_dyntbl c) = unmark (ct_dyntbl (it_ctx it')) \<and> (hk_i demo_idx = 0 \<longrightarrow> c = it_ctx it'))"
proof
  have blk: "ctx_ok (it_ctx demo_blk)" "it_ok demo_blk" "room demo_blk = 32" "ct_maxsize (it_ctx demo_blk) \<le> 0xffffffc1"
    by (simp_all add: demo_blk_def demo_defs room_def it_ok_def tbl_entry_def)
  have c: "txt_coded (hk_key demo_own) = [0x61]" "txt_coded (hk_value demo_own) = [0x8c, 0x9f]"
    "length (codes (txt_str (hk_value demo_own))) = 11" "length (hdr_wire demo_own) = 6"
    "hk_i demo_own = 0" "hk_t demo_own = hpk_inc" "name_of (it_ctx demo_blk) demo_own = Some (hk_key demo_own)" by code_simp+
  have rt: "str_rt (hk_key demo_own)" "str_rt (hk_value demo_own)" unfolding str_rt_def c
    by (simp_all add: demo_own_def huff_txt_def demo_defs)
  have ev: "\<not> name_evicted (it_ctx demo_blk) demo_own n" for n using c(5) by (simp add: name_evicted_def)
  show "\<exists>r it' c. HPK_EncHdr demo_blk demo_own = Inr (r, it') \<and> r \<noteq> hpk_err
    \<and> HPK_DecHdr dectbl (it'\<lparr>it_pos := it_pos demo_blk, it_ctx := it_ctx demo_blk\<rparr>) demo_own
      = Inr (ITER_DONE it', (dec_hdr demo_own (hk_key demo_own) demo_own)\<lparr>hk_t := hk_t demo_own\<rparr>, it'\<lparr>it_ctx := c\<rparr>)
    \<and> ct_size c = ct_size (it_ctx it') \<and> ct_maxsize c = ct_maxsize (it_ctx it')
    \<and> unmark (ct_dyntbl c) = unmark (ct_dyntbl (it_ctx it')) \<and> (hk_i demo_own = 0 \<longrightarrow> c = it_ctx it')"
    by (rule hdr_roundtrip) (use blk c rt ev in simp_all)
  have d: "hk_i demo_idx = 62" "hk_t demo_idx = hpk_inc" "txt_ptr (hk_key demo_idx) = None"
    "length (hdr_wire demo_idx) = 2" "txt_coded (hk_value demo_idx) = []" "txt_huff (hk_value demo_idx) = False"
    "name_of (it_ctx demo_blk) demo_idx = Some (lit_txt ''abc'')" "hsize (demo_idx\<lparr>hk_key := lit_txt ''abc''\<rparr>) = 35"
    "\<not> name_evicted (it_ctx demo_blk) demo_idx 35" "pmax (lit_pref hpk_inc) = 63" by code_simp+
  have rt: "str_rt (hk_value demo_idx)" unfolding str_rt_def d by (simp add: demo_idx_def demo_defs)
  show "\<exists>r it' c. HPK_EncHdr demo_blk demo_idx = Inr (r, it') \<and> r \<noteq> hpk_err
    \<and> HPK_DecHdr dectbl (it'\<lparr>it_pos := it_pos demo_blk, it_ctx := it_ctx demo_blk\<rparr>) demo_own
      = Inr (ITER_DONE it', (dec_hdr demo_idx (lit_txt ''abc'') demo_own)\<lparr>hk_t := hk_t demo_idx\<rparr>, it'\<lparr>it_ctx := c\<rparr>)
    \<and> ct_size c = ct_size (it_ctx it') \<and> ct_maxsize c = ct_maxsize (it_ctx it')
    \<and> unmark (ct_dyntbl c) = unmark (ct_dyntbl (it_ctx it')) \<and> (hk_i demo_idx = 0 \<longrightarrow> c = it_ctx it')"
    by (rule hdr_roundtrip) (use blk d rt in simp_all)
qed

text \<open>C34.  A number of six or more groups reaches a shift by 35 bits, which C leaves undefined: for every
  prefix, when all bits of the prefix are set and five continuation bytes follow whose value does
  not overflow 32 bits (bytes that carry no bits always pass), reading the next byte shifts a
  32-bit value by 35.\<close>

theorem num_decode_shift_undefined:
  assumes "pref \<noteq> 0" "pref \<le> 8" "reads it (b # cs @ [c])"
    "b AND drop_bit (8 - pref) 0xff = drop_bit (8 - pref) 0xff"
    "length cs = 5" "\<forall>c \<in> set cs. c AND 0x80 \<noteq> 0"
    "2 ^ pref - 1 + foldr (\<lambda>c v. unat (c AND 0x7f) + 128 * v) cs 0 < 2 ^ 32"
  shows "num_decode it pref = Inl Undefined"
proof -
  let ?r = "ucast (of_nat (pmax pref) :: byte) :: u32"
  note pm = pmax_words [OF assms(1,2)]
  have m: "drop_bit (8 - pref) (0xff :: byte) = of_nat (pmax pref)"
    using low_bits(1) [of pref 0, OF assms(2) _ pm(3)] low_bits(1) [of pref 0 "pmax pref"] low_mask [OF assms(2)] assms(2)
    by (simp add: pmax_def mask_eq_exp_minus_1 of_nat_diff)
  have b: "it_pos it < length (it_mem it)" "it_mem it ! it_pos it = b" "reads (skip 1 it) (cs @ [c])"
    using assms(3) by (simp_all add: reads_Cons)
  have "\<not> ?r < push_bit pref 1 - 1"
    using pm unat_ucast_byte by (simp add: word_less_nat_alt unat_of_nat)
  then have "num_decode it pref = num_decode_loop it ?r 0"
    using assms(1,2,4) b by (simp add: num_decode_def get_buf_def Let_def m)
  also have "\<dots> = Inl Undefined"
    by (rule num_decode_loop_shift [OF b(3) assms(6)]) (use assms(5,7) pm(2) in \<open>simp_all add: pmax_def\<close>)
  finally show ?thesis .
qed

theorem num_decode_shift_undefined_witness:
  "num_decode (demo_it\<lparr>it_mem := [0xff, 0x80, 0x80, 0x80, 0x80, 0x80, 0], it_pos := 0\<rparr>) 7 = Inl Undefined"
  by (rule num_decode_shift_undefined [of 7 _ "0xff" "[0x80, 0x80, 0x80, 0x80, 0x80]" 0])
    (simp_all add: reads_def demo_it_def)

text \<open>C35.  A literal field whose name is Huffman coded and does not decode is freed twice:
  \<open>str_decode\<close> frees the buffer without clearing the pointer, and \<open>HPK_DecHdr\<close> frees it again.
  This holds for the three kinds of literals, wherever the field is in the block and whatever
  follows it, for every name for which \<open>huff_decode\<close> returns 0.\<close>

theorem DecHdr_double_free:
  assumes "ty \<in> {hpk_inc, hpk_not, hpk_never}" "reads it (lit_first ty # num_wire 7 0x80 n @ bs)"
    "length bs = n" "n \<noteq> 127" "n < 2 ^ 32" "it_pos it + 1 + length (num_wire 7 0x80 n) < length (it_mem it)"
    "huff_decode dectbl (n * 8 div 5 + 1) (skip (1 + length (num_wire 7 0x80 n)) it) n = Inr (0, out, it')"
  shows "HPK_DecHdr dectbl it h = Inl Undefined"
proof -
  let ?w = "num_wire 7 0x80 n" and ?it1 = "skip 1 it" and ?it2 = "skip (1 + length (num_wire 7 0x80 n)) it"
  note lb = lit_byte [OF assms(1)]
  have r: "it_pos it < length (it_mem it)" "it_mem it ! it_pos it = lit_first ty" "reads ?it1 ?w" "reads ?it2 bs"
    using assms(2) by (simp_all add: reads_Cons reads_append)
  have d: "ITER_DONE ?it1 = hpk_more" "ITER_DONE ?it2 = hpk_more" using assms(6) by (simp_all add: ITER_DONE_def)
  have n1: "num_decode it (lit_pref ty) = Inr (hpk_more, 0, ?it1)"
    using num_decode_wire [OF lb(1-3), of 0 it] lb(4) r(1,2) d(1) assms(6)
    by (simp add: num_wire_0 reads_Cons it_ok_def Let_def)
  have n2: "num_decode ?it1 7 = Inr (hpk_more, of_nat n, ?it2)"
    using num_decode_wire [of 7 "0x80" n ?it1] assms(4,5) r(3) d(2) by (simp add: pmax_def Let_def)
  have un: "unat (of_nat n :: u32) = n" using assms(5) by (rule unat_of_nat_u32)
  have hf: "it_mem ?it1 ! it_pos ?it1 AND 0x80 \<noteq> 0" using num_wire_flag [of ?it1 True n] r(3) by simp
  have "n \<le> length (it_mem it) - it_pos ?it2" using reads_len [OF r(4)] assms(3) by simp
  then have sd: "str_decode dectbl ?it1 t = Inr (hpk_err, t, True, it')" for t
    using assms(6,7) hf n2 un by (simp add: str_decode_def get_buf_def Let_def)
  have "HPK_DecHdr dectbl it h = DecHdr_literal dectbl it (h\<lparr>hk_t := ty\<rparr>) (lit_pref ty) (ty = hpk_inc)"
    using assms(1) r(1,2) by (auto simp: HPK_DecHdr_def get_buf_def lit_first_def lit_pref_def)
  then show ?thesis using sd by (simp add: DecHdr_literal_def n1 Let_def)
qed

theorem DecHdr_double_free_witness:
  "HPK_DecHdr dectbl (demo_it\<lparr>it_mem := [0x00, 0x81, 0x00, 0x01, 0x61], it_pos := 0\<rparr>) (demo_hdr ''a'' ''b'') = Inl Undefined"
proof -
  let ?it = "\<lambda>n. demo_it\<lparr>it_mem := [0x00, 0x81, 0x00, 0x01, 0x61], it_pos := n\<rparr>"
  have "inp (?it 2) 1 = codes [0x30] @ replicate 3 False" by code_simp
  from gen.decode_zero_tail [OF _ this, of 2]
  have hd: "huff_decode dectbl 2 (?it 2) 1 = Inr (0, [0x30], skip 1 (?it 2))" by simp
  have w: "num_wire 7 0x80 1 = [0x81]" "lit_first hpk_not = 0" by code_simp+
  have sk: "skip (1 + length (num_wire 7 0x80 1)) (?it 0) = ?it 2" unfolding w by (simp add: skip_def)
  show ?thesis
  proof (rule DecHdr_double_free [of hpk_not _ 1 "[0x00]"])
    show "huff_decode dectbl (1 * 8 div 5 + 1) (skip (1 + length (num_wire 7 0x80 1)) (?it 0)) 1 = Inr (0, [0x30], skip 1 (?it 2))"
      unfolding sk using hd by (simp add: numeral_2_eq_2)
  qed (unfold w, simp_all add: reads_def demo_it_def)
qed

end
