(* ===== verification/Teken_State.thy ===== *)
theory Teken_State
  imports VTest_Prelude
begin

text \<open>
  The state of the terminal emulator, \<open>src/src/teken.h\<close>, and the operations of
  \<open>src/src/teken.c\<close> and \<open>src/src/teken_subr.h\<close> that only touch that state: the tab stops,
  saving the cursor, the reset, the window size and the attributes.

  Numbers are unbounded integers and every conversion of the C code is written out: a store to a
  \<open>teken_unit_t\<close> (\<open>unsigned short\<close>) goes through \<open>U16\<close>, arithmetic in \<open>unsigned int\<close> through
  \<open>U32\<close>.  The flags and the tab stops are 32-bit words.  The pointer \<open>t_nextstate\<close> to a state
  function is the prefix, as character codes, of the escape sequences that it handles, and the
  pointers in \<open>t_scs\<close> are the constructors of \<open>teken_scs\<close>.
\<close>

subsection \<open>Integer conversions\<close>

definition U16 :: "int \<Rightarrow> int" where "U16 x = x mod 65536"

definition U32 :: "int \<Rightarrow> int" where "U32 x = x mod 4294967296"

subsection \<open>The structures of teken.h\<close>

record teken_pos =
  tp_row :: int
  tp_col :: int

record teken_rect =
  tr_begin :: teken_pos
  tr_end :: teken_pos

record teken_attr =
  ta_format :: byte
  ta_fgcolor :: byte
  ta_bgcolor :: byte

record teken_span =
  ts_begin :: int
  ts_end :: int

datatype teken_scs = SCS_special_graphics | SCS_uk_national | SCS_us_ascii

record teken =
  t_nextstate :: "int list"
  t_stateflags :: u32
  t_nums :: "int list"
  t_curnum :: nat
  t_cursor :: teken_pos
  t_curattr :: teken_attr
  t_saved_cursor :: teken_pos
  t_saved_curattr :: teken_attr
  t_defattr :: teken_attr
  t_winsize :: teken_pos
  t_scrollreg :: teken_span
  t_originreg :: teken_span
  t_tabstops :: "u32 list"
  t_utf8_left :: nat
  t_utf8_partial :: u32
  t_last :: int
  t_curscs :: nat
  t_saved_curscs :: teken_scs
  t_scs :: "teken_scs list"

definition T_NUMSIZE :: nat where "T_NUMSIZE = 8"
definition T_NUMCOL :: int where "T_NUMCOL = 160"

definition TS_FIRSTDIGIT :: u32 where "TS_FIRSTDIGIT = 0x0001"
definition TS_INSERT :: u32 where "TS_INSERT = 0x0002"
definition TS_AUTOWRAP :: u32 where "TS_AUTOWRAP = 0x0004"
definition TS_ORIGIN :: u32 where "TS_ORIGIN = 0x0008"
definition TS_WRAPPED :: u32 where "TS_WRAPPED = 0x0010"
definition TS_8BIT :: u32 where "TS_8BIT = 0x0020"
definition TS_CONS25 :: u32 where "TS_CONS25 = 0x0040"
definition TS_INSTRING :: u32 where "TS_INSTRING = 0x0080"
definition TS_CURSORKEYS :: u32 where "TS_CURSORKEYS = 0x0100"

definition TF_BOLD :: byte where "TF_BOLD = 0x01"
definition TF_UNDERLINE :: byte where "TF_UNDERLINE = 0x02"
definition TF_BLINK :: byte where "TF_BLINK = 0x04"
definition TF_REVERSE :: byte where "TF_REVERSE = 0x08"
definition TF_CJK_RIGHT :: byte where "TF_CJK_RIGHT = 0x10"

definition TC_WHITE :: byte where "TC_WHITE = 7"
definition TC_BLACK :: byte where "TC_BLACK = 0"

lemmas TS_defs = TS_FIRSTDIGIT_def TS_INSERT_def TS_AUTOWRAP_def TS_ORIGIN_def TS_WRAPPED_def
  TS_8BIT_def TS_CONS25_def TS_INSTRING_def TS_CURSORKEYS_def

text \<open>Reading, setting and clearing flags, and stores to the two halves of the cursor.\<close>

definition flag :: "teken \<Rightarrow> u32 \<Rightarrow> bool" where
  "flag t f = (t_stateflags t AND f \<noteq> 0)"

definition flag_or :: "u32 \<Rightarrow> teken \<Rightarrow> teken" where
  "flag_or f t = t\<lparr>t_stateflags := t_stateflags t OR f\<rparr>"

definition flag_andn :: "u32 \<Rightarrow> teken \<Rightarrow> teken" where
  "flag_andn f t = t\<lparr>t_stateflags := t_stateflags t AND NOT f\<rparr>"

definition set_row :: "int \<Rightarrow> teken \<Rightarrow> teken" where
  "set_row v t = t\<lparr>t_cursor := (t_cursor t)\<lparr>tp_row := U16 v\<rparr>\<rparr>"

definition set_col :: "int \<Rightarrow> teken \<Rightarrow> teken" where
  "set_col v t = t\<lparr>t_cursor := (t_cursor t)\<lparr>tp_col := U16 v\<rparr>\<rparr>"

definition mk_pos :: "int \<Rightarrow> int \<Rightarrow> teken_pos" where
  "mk_pos r c = \<lparr>tp_row = U16 r, tp_col = U16 c\<rparr>"

definition mk_rect :: "int \<Rightarrow> int \<Rightarrow> int \<Rightarrow> int \<Rightarrow> teken_rect" where
  "mk_rect r0 c0 r1 c1 = \<lparr>tr_begin = mk_pos r0 c0, tr_end = mk_pos r1 c1\<rparr>"

subsection \<open>Tab stops\<close>

definition teken_tab_isset :: "teken \<Rightarrow> int \<Rightarrow> bool res" where
  "teken_tab_isset t col =
    (if T_NUMCOL \<le> col then Inr (col mod 8 = 0)
     else bindR (nthR (t_tabstops t) (nat (col div 32)))
       (\<lambda>w. Inr (w AND push_bit (nat (col mod 32)) 1 \<noteq> 0)))"

definition teken_tab_clear :: "int \<Rightarrow> teken \<Rightarrow> teken res" where
  "teken_tab_clear col t =
    (if T_NUMCOL \<le> col then Inr t
     else bindR (nthR (t_tabstops t) (nat (col div 32)))
       (\<lambda>w. bindR (updR (t_tabstops t) (nat (col div 32)) (w AND NOT (push_bit (nat (col mod 32)) 1)))
       (\<lambda>ws. Inr (t\<lparr>t_tabstops := ws\<rparr>))))"

definition teken_tab_set :: "int \<Rightarrow> teken \<Rightarrow> teken res" where
  "teken_tab_set col t =
    (if T_NUMCOL \<le> col then Inr t
     else bindR (nthR (t_tabstops t) (nat (col div 32)))
       (\<lambda>w. bindR (updR (t_tabstops t) (nat (col div 32)) (w OR push_bit (nat (col mod 32)) 1))
       (\<lambda>ws. Inr (t\<lparr>t_tabstops := ws\<rparr>))))"

text \<open>\<open>for (i = 8; i < T_NUMCOL; i += 8)\<close>\<close>

function tab_default_loop :: "int \<Rightarrow> teken \<Rightarrow> teken res" where
  "tab_default_loop i t =
    (if i < T_NUMCOL then bindR (teken_tab_set i t) (tab_default_loop (i + 8)) else Inr t)"
  by pat_completeness auto
termination
  by (relation "measure (\<lambda>(i, _). nat (T_NUMCOL - i))") (auto simp: T_NUMCOL_def)

declare tab_default_loop.simps [simp del]

definition teken_tab_default :: "teken \<Rightarrow> teken res" where
  "teken_tab_default t = tab_default_loop 8 (t\<lparr>t_tabstops := replicate 5 0\<rparr>)"

subsection \<open>Saving, resetting and resizing\<close>

definition teken_subr_save_cursor :: "teken \<Rightarrow> teken res" where
  "teken_subr_save_cursor t =
    bindR (nthR (t_scs t) (t_curscs t))
      (\<lambda>s. Inr (t\<lparr>t_saved_cursor := t_cursor t, t_saved_curattr := t_curattr t, t_saved_curscs := s\<rparr>))"

definition teken_subr_do_resize :: "teken \<Rightarrow> teken" where
  "teken_subr_do_resize t =
    (let reg = \<lparr>ts_begin = 0, ts_end = tp_row (t_winsize t)\<rparr>
     in t\<lparr>t_scrollreg := reg, t_originreg := reg\<rparr>)"

definition teken_subr_do_reset :: "teken \<Rightarrow> teken res" where
  "teken_subr_do_reset t =
    (let reg = \<lparr>ts_begin = 0, ts_end = tp_row (t_winsize t)\<rparr>;
         t1 = t\<lparr>t_curattr := t_defattr t, t_cursor := \<lparr>tp_row = 0, tp_col = 0\<rparr>,
                t_scrollreg := reg, t_originreg := reg,
                t_stateflags := (t_stateflags t AND (TS_8BIT OR TS_CONS25)) OR TS_AUTOWRAP,
                t_scs := [SCS_us_ascii, SCS_us_ascii], t_curscs := 0\<rparr>
     in bindR (teken_subr_save_cursor t1) teken_tab_default)"

definition teken_trim_cursor_pos :: "teken_pos \<Rightarrow> teken \<Rightarrow> teken" where
  "teken_trim_cursor_pos new t =
    (if tp_row (t_winsize t) < tp_row new \<or> tp_col (t_winsize t) < tp_col new then t
     else let t1 = (if tp_row new \<le> tp_row (t_cursor t) then set_row (tp_row new - 1) t else t)
          in if tp_col new \<le> tp_col (t_cursor t1) then set_col (tp_col new - 1) t1 else t1)"

definition teken_set_winsize :: "teken_pos \<Rightarrow> teken \<Rightarrow> teken res" where
  "teken_set_winsize p t = teken_subr_do_reset ((teken_trim_cursor_pos p t)\<lparr>t_winsize := p\<rparr>)"

definition teken_set_winsize_noreset :: "teken_pos \<Rightarrow> teken \<Rightarrow> teken" where
  "teken_set_winsize_noreset p t = teken_subr_do_resize ((teken_trim_cursor_pos p t)\<lparr>t_winsize := p\<rparr>)"

definition teken_init :: "teken \<Rightarrow> teken res" where
  "teken_init t =
    (let t1 = t\<lparr>t_nextstate := [], t_stateflags := 0, t_utf8_left := 0,
                t_defattr := \<lparr>ta_format = 0, ta_fgcolor = TC_WHITE, ta_bgcolor = TC_BLACK\<rparr>\<rparr>
     in bindR (teken_subr_do_reset t1) (teken_set_winsize \<lparr>tp_row = 24, tp_col = 80\<rparr>))"

definition teken_set_cursor :: "teken_pos \<Rightarrow> teken \<Rightarrow> teken res" where
  "teken_set_cursor p t =
    guardR AssertFail (tp_row p < tp_row (t_winsize t))
    (guardR AssertFail (tp_col p < tp_col (t_winsize t))
      (Inr (t\<lparr>t_cursor := p\<rparr>)))"

definition teken_get_cursor :: "teken \<Rightarrow> teken_pos" where "teken_get_cursor t = t_cursor t"

definition teken_get_curattr :: "teken \<Rightarrow> teken_attr" where "teken_get_curattr t = t_curattr t"

definition teken_get_defattr :: "teken \<Rightarrow> teken_attr" where "teken_get_defattr t = t_defattr t"

definition teken_get_winsize :: "teken \<Rightarrow> teken_pos" where "teken_get_winsize t = t_winsize t"

definition teken_set_curattr :: "teken_attr \<Rightarrow> teken \<Rightarrow> teken" where
  "teken_set_curattr a t = t\<lparr>t_curattr := a\<rparr>"

definition teken_set_defattr :: "teken_attr \<Rightarrow> teken \<Rightarrow> teken" where
  "teken_set_defattr a t = t\<lparr>t_curattr := a, t_saved_curattr := a, t_defattr := a\<rparr>"

definition teken_set_8bit :: "teken \<Rightarrow> teken" where "teken_set_8bit = flag_or TS_8BIT"

definition teken_set_cons25 :: "teken \<Rightarrow> teken" where "teken_set_cons25 = flag_or TS_CONS25"

definition teken_state_switch :: "int list \<Rightarrow> teken \<Rightarrow> teken" where
  "teken_state_switch s t = flag_or TS_FIRSTDIGIT (t\<lparr>t_nextstate := s, t_curnum := 0\<rparr>)"

text \<open>A zeroed structure: the character set pointers are not set yet.\<close>

definition zero_attr :: teken_attr where
  "zero_attr = \<lparr>ta_format = 0, ta_fgcolor = 0, ta_bgcolor = 0\<rparr>"

definition zero_teken :: teken where
  "zero_teken = \<lparr>t_nextstate = [], t_stateflags = 0, t_nums = replicate T_NUMSIZE 0, t_curnum = 0,
     t_cursor = \<lparr>tp_row = 0, tp_col = 0\<rparr>, t_curattr = zero_attr,
     t_saved_cursor = \<lparr>tp_row = 0, tp_col = 0\<rparr>, t_saved_curattr = zero_attr,
     t_defattr = zero_attr, t_winsize = \<lparr>tp_row = 0, tp_col = 0\<rparr>,
     t_scrollreg = \<lparr>ts_begin = 0, ts_end = 0\<rparr>, t_originreg = \<lparr>ts_begin = 0, ts_end = 0\<rparr>,
     t_tabstops = replicate 5 0, t_utf8_left = 0, t_utf8_partial = 0, t_last = 0,
     t_curscs = 0, t_saved_curscs = SCS_us_ascii, t_scs = []\<rparr>"

end
