(* ===== verification/Term.thy ===== *)
theory Term
  imports Teken_State
begin

text \<open>
  The screen behind the terminal emulator: the part of \<open>struct process\<close> of
  \<open>src/src/vtc_process.c\<close> that the drawing hooks work on, and the hooks themselves.

  A row of \<open>vram\<close> is the byte list of the whole allocation, \<open>ncol\<close> characters and the closing
  NUL, so that a write past the row is a fault of the model.  The results of \<open>write(2)\<close> on the
  terminal are a field of the state: \<open>pr_write n l\<close> is what the \<open>n\<close>-th write of \<open>l\<close> bytes
  returns.  Allocation never fails.
\<close>

subsection \<open>State\<close>

record process =
  pr_nlin :: int
  pr_ncol :: int
  pr_ansi_response :: bool
  pr_vram :: "byte list list"
  pr_tek :: teken
  pr_write :: "nat \<Rightarrow> nat \<Rightarrow> int"
  pr_responses :: "byte list list"

definition on_tek :: "(teken \<Rightarrow> teken res) \<Rightarrow> process \<Rightarrow> process res" where
  "on_tek f p = bindR (f (pr_tek p)) (\<lambda>t. Inr (p\<lparr>pr_tek := t\<rparr>))"

subsection \<open>The hooks\<close>

definition term_cursor :: "teken_pos \<Rightarrow> process \<Rightarrow> process res" where
  "term_cursor pos p = Inr p"

definition vram_store :: "int \<Rightarrow> int \<Rightarrow> byte \<Rightarrow> process \<Rightarrow> process res" where
  "vram_store y x b p =
    bindR (nthR (pr_vram p) (nat y))
      (\<lambda>row. bindR (updR row (nat x) b) (\<lambda>row'. Inr (p\<lparr>pr_vram := (pr_vram p)[nat y := row']\<rparr>)))"

definition term_glyph :: "int \<Rightarrow> byte" where
  "term_glyph ch = (if ch > 126 \<or> ch < 32 then 63 else of_int ch)"

definition term_putchar :: "teken_pos \<Rightarrow> int \<Rightarrow> teken_attr \<Rightarrow> process \<Rightarrow> process res" where
  "term_putchar pos ch at p =
    guardR AssertFail (tp_row pos < pr_nlin p)
    (guardR AssertFail (tp_col pos < pr_ncol p)
      (vram_store (tp_row pos) (tp_col pos) (term_glyph ch) p))"

definition term_fill :: "teken_rect \<Rightarrow> int \<Rightarrow> teken_attr \<Rightarrow> process \<Rightarrow> process res" where
  "term_fill r c a =
    forR (tp_row (tr_begin r)) (tp_row (tr_end r)) (\<lambda>y.
      forR (tp_col (tr_begin r)) (tp_col (tr_end r)) (\<lambda>x.
        term_putchar \<lparr>tp_row = y, tp_col = x\<rparr> c a))"

text \<open>\<open>memmove(&vram[y1][x1], &vram[y2][x2], n)\<close>\<close>

definition vram_memmove :: "int \<Rightarrow> int \<Rightarrow> int \<Rightarrow> int \<Rightarrow> int \<Rightarrow> process \<Rightarrow> process res" where
  "vram_memmove y1 x1 y2 x2 n p =
    bindR (nthR (pr_vram p) (nat y2)) (\<lambda>src.
    bindR (nthR (pr_vram p) (nat y1)) (\<lambda>dst.
    guardR Undefined (nat (x2 + n) \<le> length src \<and> nat (x1 + n) \<le> length dst)
      (Inr (p\<lparr>pr_vram := (pr_vram p)[nat y1 :=
        take (nat x1) dst @ take (nat n) (drop (nat x2) src) @ drop (nat (x1 + n)) dst]\<rparr>))))"

definition term_copy :: "teken_rect \<Rightarrow> teken_pos \<Rightarrow> process \<Rightarrow> process res" where
  "term_copy r pos p =
    (let nrow = tp_row (tr_end r) - tp_row (tr_begin r);
         ncol = tp_col (tr_end r) - tp_col (tr_begin r);
         line = (\<lambda>y. vram_memmove (tp_row pos + y) (tp_col pos)
                       (tp_row (tr_begin r) + y) (tp_col (tr_begin r)) ncol)
     in if tp_row pos < tp_row (tr_begin r) then forR 0 nrow line p
        else for_downR (nrow - 1) line p)"

definition term_respond :: "byte list \<Rightarrow> process \<Rightarrow> process res" where
  "term_respond buf p =
    (if pr_ansi_response p
     then guardR Fatal (pr_write p (length (pr_responses p)) (length buf) = int (length buf))
       (Inr (p\<lparr>pr_responses := pr_responses p @ [buf]\<rparr>))
     else Inr p)"

text \<open>
  A new screen of \<open>lin\<close> rows: blanks, then what the old screen had in the common part.  The
  first call finds no screen, \<open>vram == NULL\<close> and \<open>nlin == 0\<close>.
\<close>

definition resized_row :: "byte list list \<Rightarrow> int \<Rightarrow> int \<Rightarrow> int \<Rightarrow> nat \<Rightarrow> byte list" where
  "resized_row old nlin ncol col i =
    (let blank = replicate (nat col) 32 @ [0];
         j = (if col > ncol then ncol else col)
     in if int i < nlin then take (nat j) (old ! i) @ drop (nat j) blank else blank)"

definition term_resize :: "int \<Rightarrow> int \<Rightarrow> process \<Rightarrow> process res" where
  "term_resize lin col p =
    guardR AssertFail (0 \<le> lin \<and> 0 \<le> col)
    (let v = map (resized_row (pr_vram p) (pr_nlin p) (pr_ncol p) col) [0 ..< nat lin]
     in on_tek (teken_set_winsize (mk_pos lin col)) (p\<lparr>pr_vram := v, pr_nlin := lin, pr_ncol := col\<rparr>))"

definition TP_SHOWCURSOR :: int where "TP_SHOWCURSOR = 0"
definition TP_KEYPADAPP :: int where "TP_KEYPADAPP = 1"
definition TP_AUTOREPEAT :: int where "TP_AUTOREPEAT = 2"
definition TP_SWITCHVT :: int where "TP_SWITCHVT = 3"
definition TP_132COLS :: int where "TP_132COLS = 4"
definition TP_SETBELLPD :: int where "TP_SETBELLPD = 5"
definition TP_MOUSE :: int where "TP_MOUSE = 6"
definition TP_SETBORDER :: int where "TP_SETBORDER = 7"
definition TP_SETLOCALCURSOR :: int where "TP_SETLOCALCURSOR = 8"
definition TP_SETGLOBALCURSOR :: int where "TP_SETGLOBALCURSOR = 9"

definition term_param :: "int \<Rightarrow> int \<Rightarrow> process \<Rightarrow> process res" where
  "term_param prm v p =
    (if prm = TP_132COLS \<and> v \<noteq> 0 then term_resize (pr_nlin p) 132 p
     else if prm = TP_132COLS \<and> v = 0 then term_resize (pr_nlin p) 80 p
     else Inr p)"

subsection \<open>The hook wrappers of teken.c\<close>

text \<open>
  \<open>process_teken_func\<close> leaves \<open>tf_bell\<close>, \<open>tf_pre_input\<close> and \<open>tf_post_input\<close> unset, so these
  wrappers do nothing; the others assert that the request is inside of the window.
\<close>

definition teken_funcs_bell :: "process \<Rightarrow> process res" where
  "teken_funcs_bell p = Inr p"

definition teken_funcs_cursor :: "process \<Rightarrow> process res" where
  "teken_funcs_cursor p = (let t = pr_tek p in
    guardR AssertFail (tp_row (t_cursor t) < tp_row (t_winsize t))
    (guardR AssertFail (tp_col (t_cursor t) < tp_col (t_winsize t))
      (term_cursor (t_cursor t) p)))"

definition teken_funcs_putchar :: "teken_pos \<Rightarrow> int \<Rightarrow> teken_attr \<Rightarrow> process \<Rightarrow> process res" where
  "teken_funcs_putchar pos c a p = (let t = pr_tek p in
    guardR AssertFail (tp_row pos < tp_row (t_winsize t))
    (guardR AssertFail (tp_col pos < tp_col (t_winsize t))
      (term_putchar pos c a p)))"

definition teken_funcs_fill :: "teken_rect \<Rightarrow> int \<Rightarrow> teken_attr \<Rightarrow> process \<Rightarrow> process res" where
  "teken_funcs_fill r c a p = (let t = pr_tek p in
    guardR AssertFail (tp_row (tr_end r) > tp_row (tr_begin r))
    (guardR AssertFail (tp_row (tr_end r) \<le> tp_row (t_winsize t))
    (guardR AssertFail (tp_col (tr_end r) > tp_col (tr_begin r))
    (guardR AssertFail (tp_col (tr_end r) \<le> tp_col (t_winsize t))
      (term_fill r c a p)))))"

definition teken_funcs_copy :: "teken_rect \<Rightarrow> teken_pos \<Rightarrow> process \<Rightarrow> process res" where
  "teken_funcs_copy r pos p = (let t = pr_tek p in
    guardR AssertFail (tp_row (tr_end r) > tp_row (tr_begin r))
    (guardR AssertFail (tp_row (tr_end r) \<le> tp_row (t_winsize t))
    (guardR AssertFail (tp_col (tr_end r) > tp_col (tr_begin r))
    (guardR AssertFail (tp_col (tr_end r) \<le> tp_col (t_winsize t))
    (guardR AssertFail (tp_row pos + (tp_row (tr_end r) - tp_row (tr_begin r)) \<le> tp_row (t_winsize t))
    (guardR AssertFail (tp_col pos + (tp_col (tr_end r) - tp_col (tr_begin r)) \<le> tp_col (t_winsize t))
      (term_copy r pos p)))))))"

definition teken_funcs_param :: "int \<Rightarrow> int \<Rightarrow> process \<Rightarrow> process res" where
  "teken_funcs_param = term_param"

definition teken_funcs_respond :: "byte list \<Rightarrow> process \<Rightarrow> process res" where
  "teken_funcs_respond = term_respond"

subsection \<open>What the hooks draw\<close>

text \<open>
  \<open>drawn p g q\<close>: the state \<open>q\<close> differs from \<open>p\<close> only on the screen, the screen keeps its
  shape, and its cells are given by \<open>g\<close>.
\<close>

definition vram_ok :: "int \<Rightarrow> int \<Rightarrow> byte list list \<Rightarrow> bool" where
  "vram_ok nlin ncol v =
    (int (length v) = nlin \<and> (\<forall>row \<in> set v. int (length row) = ncol + 1 \<and> row ! nat ncol = 0))"

definition vcell :: "byte list list \<Rightarrow> int \<Rightarrow> int \<Rightarrow> byte" where
  "vcell v y x = v ! nat y ! nat x"

definition drawn :: "process \<Rightarrow> (int \<Rightarrow> int \<Rightarrow> byte) \<Rightarrow> process \<Rightarrow> bool" where
  "drawn p g q = (\<exists>v. q = p\<lparr>pr_vram := v\<rparr> \<and> vram_ok (pr_nlin p) (pr_ncol p) v \<and>
     (\<forall>y x. 0 \<le> y \<and> y < pr_nlin p \<and> 0 \<le> x \<and> x < pr_ncol p \<longrightarrow> vcell v y x = g y x))"

lemma vram_okD:
  assumes "vram_ok n m v" "0 \<le> y" "y < n"
  shows "nat y < length v" "int (length (v ! nat y)) = m + 1" "v ! nat y ! nat m = 0"
  using assms by (auto simp: vram_ok_def)

lemma drawn_refl: "vram_ok (pr_nlin p) (pr_ncol p) (pr_vram p) \<Longrightarrow> drawn p (vcell (pr_vram p)) p"
  by (auto simp: drawn_def intro!: exI [of _ "pr_vram p"])

lemma drawn_cong:
  assumes "drawn p g q"
    and "\<And>y x. 0 \<le> y \<Longrightarrow> y < pr_nlin p \<Longrightarrow> 0 \<le> x \<Longrightarrow> x < pr_ncol p \<Longrightarrow> g y x = h y x"
  shows "drawn p h q"
  using assms by (fastforce simp: drawn_def)

lemma drawn_fields:
  assumes "drawn p g q"
  shows "pr_nlin q = pr_nlin p" "pr_ncol q = pr_ncol p" "pr_tek q = pr_tek p"
    "vram_ok (pr_nlin p) (pr_ncol p) (pr_vram q)"
  using assms by (auto simp: drawn_def)

lemma vram_ok_update:
  assumes "vram_ok n m v" "int (length row) = m + 1" "row ! nat m = 0"
  shows "vram_ok n m (v[y := row])"
  using assms set_update_subset_insert [of v y row] by (auto simp: vram_ok_def)

lemma vcell_update:
  assumes "vram_ok n m v" "0 \<le> y" "y < n" "0 \<le> y'" "y' < n"
  shows "vcell (v[nat y := row]) y' x = (if y' = y then row ! nat x else vcell v y' x)"
  using assms vram_okD(1) [of n m v y] by (auto simp: vcell_def nth_list_update)

lemma drawn_store:
  assumes d: "drawn p g q" and y: "0 \<le> y" "y < pr_nlin p" and x: "0 \<le> x" "x < pr_ncol p"
  shows "okR (drawn p (\<lambda>y' x'. if y' = y \<and> x' = x then b else g y' x')) (vram_store y x b q)"
proof -
  obtain v where v: "q = p\<lparr>pr_vram := v\<rparr>" "vram_ok (pr_nlin p) (pr_ncol p) v"
    "\<And>y x. 0 \<le> y \<Longrightarrow> y < pr_nlin p \<Longrightarrow> 0 \<le> x \<Longrightarrow> x < pr_ncol p \<Longrightarrow> vcell v y x = g y x"
    using d by (auto simp: drawn_def)
  note D = vram_okD [OF v(2) y]
  let ?row = "(v ! nat y)[nat x := b]"
  have "vram_ok (pr_nlin p) (pr_ncol p) (v[nat y := ?row])"
    by (rule vram_ok_update) (use v D x in auto)
  moreover have "vcell (v[nat y := ?row]) y' x' = (if y' = y \<and> x' = x then b else g y' x')"
    if "0 \<le> y'" "y' < pr_nlin p" "0 \<le> x'" "x' < pr_ncol p" for y' x'
  proof -
    have "vcell (v[nat y := ?row]) y' x' = (if y' = y \<and> x' = x then b else vcell v y' x')"
      using vcell_update [OF v(2) y that(1,2)] D x that by (auto simp: vcell_def nth_list_update)
    then show ?thesis using v(3) that by simp
  qed
  ultimately have "drawn p (\<lambda>y' x'. if y' = y \<and> x' = x then b else g y' x')
      (q\<lparr>pr_vram := v[nat y := ?row]\<rparr>)"
    unfolding drawn_def v(1) by (intro exI [of _ "v[nat y := ?row]"]) simp
  then show ?thesis
    using v(1) D x by (simp add: vram_store_def updR_def)
qed

lemma drawn_memmove:
  assumes d: "drawn p g q" and y: "0 \<le> y1" "y1 < pr_nlin p" "0 \<le> y2" "y2 < pr_nlin p"
    and x: "0 \<le> x1" "x1 + n \<le> pr_ncol p" "0 \<le> x2" "x2 + n \<le> pr_ncol p" "0 \<le> n"
  shows "okR (drawn p (\<lambda>y x. if y = y1 \<and> x1 \<le> x \<and> x < x1 + n then g y2 (x - x1 + x2) else g y x))
    (vram_memmove y1 x1 y2 x2 n q)"
proof -
  obtain v where v: "q = p\<lparr>pr_vram := v\<rparr>" "vram_ok (pr_nlin p) (pr_ncol p) v"
    "\<And>y x. 0 \<le> y \<Longrightarrow> y < pr_nlin p \<Longrightarrow> 0 \<le> x \<Longrightarrow> x < pr_ncol p \<Longrightarrow> vcell v y x = g y x"
    using d by (auto simp: drawn_def)
  note D1 = vram_okD [OF v(2) y(1,2)] and D2 = vram_okD [OF v(2) y(3,4)]
  let ?row = "take (nat x1) (v ! nat y1) @ take (nat n) (drop (nat x2) (v ! nat y2)) @
    drop (nat (x1 + n)) (v ! nat y1)"
  have row: "?row ! nat x = (if x1 \<le> x \<and> x < x1 + n then v ! nat y2 ! nat (x - x1 + x2)
      else v ! nat y1 ! nat x)" if "0 \<le> x" "x \<le> pr_ncol p" for x
    using nth_splice [of "nat x1" "nat n" "v ! nat y1" "nat x2" "v ! nat y2" "nat x"] D1 D2 x that
    by (auto simp: nat_add_distrib [symmetric] nat_diff_distrib [symmetric] le_diff_iff less_diff_conv algebra_simps)
  have "vram_ok (pr_nlin p) (pr_ncol p) (v[nat y1 := ?row])"
    by (rule vram_ok_update [OF v(2)]) (use D1 D2 x row [of "pr_ncol p"] in auto)
  moreover have "vcell (v[nat y1 := ?row]) y' x' =
      (if y' = y1 \<and> x1 \<le> x' \<and> x' < x1 + n then g y2 (x' - x1 + x2) else g y' x')"
    if "0 \<le> y'" "y' < pr_nlin p" "0 \<le> x'" "x' < pr_ncol p" for y' x'
    using vcell_update [OF v(2) y(1,2) that(1,2)] row [of x'] v(3) [of y' x'] v(3) [of y2 "x' - x1 + x2"]
      that y x by (auto simp: vcell_def)
  ultimately have "drawn p (\<lambda>y x. if y = y1 \<and> x1 \<le> x \<and> x < x1 + n then g y2 (x - x1 + x2) else g y x)
      (q\<lparr>pr_vram := v[nat y1 := ?row]\<rparr>)"
    unfolding drawn_def v(1) by (intro exI [of _ "v[nat y1 := ?row]"]) simp
  moreover have "nat (x2 + n) \<le> length (v ! nat y2) \<and> nat (x1 + n) \<le> length (v ! nat y1)"
    using D1 D2 x by linarith
  ultimately show ?thesis
    using v(1) D1(1) D2(1) by (simp add: vram_memmove_def)
qed

lemma drawn_putchar:
  assumes "drawn p g q" "0 \<le> y" "y < pr_nlin p" "0 \<le> x" "x < pr_ncol p"
  shows "okR (drawn p (\<lambda>y' x'. if y' = y \<and> x' = x then term_glyph c else g y' x'))
    (term_putchar \<lparr>tp_row = y, tp_col = x\<rparr> c a q)"
  using drawn_store [OF assms] drawn_fields [OF assms(1)] assms(2-) by (simp add: term_putchar_def)

definition in_rect :: "teken_rect \<Rightarrow> int \<Rightarrow> int \<Rightarrow> bool" where
  "in_rect r y x = (tp_row (tr_begin r) \<le> y \<and> y < tp_row (tr_end r) \<and>
    tp_col (tr_begin r) \<le> x \<and> x < tp_col (tr_end r))"

definition rect_ok :: "int \<Rightarrow> int \<Rightarrow> teken_rect \<Rightarrow> bool" where
  "rect_ok nlin ncol r =
    (0 \<le> tp_row (tr_begin r) \<and> tp_row (tr_begin r) < tp_row (tr_end r) \<and> tp_row (tr_end r) \<le> nlin \<and>
     0 \<le> tp_col (tr_begin r) \<and> tp_col (tr_begin r) < tp_col (tr_end r) \<and> tp_col (tr_end r) \<le> ncol)"

lemma drawn_fill:
  assumes d: "drawn p g q" and r: "rect_ok (pr_nlin p) (pr_ncol p) r"
  shows "okR (drawn p (\<lambda>y x. if in_rect r y x then term_glyph c else g y x)) (term_fill r c a q)"
proof -
  let ?r0 = "tp_row (tr_begin r)" and ?r1 = "tp_row (tr_end r)"
  let ?c0 = "tp_col (tr_begin r)" and ?c1 = "tp_col (tr_end r)"
  define I where "I i = drawn p (\<lambda>y x. if in_rect r y x \<and> y < i then term_glyph c else g y x)" for i
  define J where "J i j = drawn p (\<lambda>y x. if in_rect r y x \<and> (y < i \<or> y = i \<and> x < j)
    then term_glyph c else g y x)" for i j
  have row: "okR (I (i + 1)) (forR ?c0 ?c1 (\<lambda>x. term_putchar \<lparr>tp_row = i, tp_col = x\<rparr> c a) s)"
    if i: "?r0 \<le> i" "i < ?r1" and s: "I i s" for i s
  proof -
    have "okR (J i ?c1) (forR ?c0 ?c1 (\<lambda>x. term_putchar \<lparr>tp_row = i, tp_col = x\<rparr> c a) s)"
    proof (rule forR_steps)
      show "J i ?c0 s"
        using s unfolding I_def J_def by (rule drawn_cong) (auto simp: in_rect_def)
      show "?c0 \<le> ?c1" using r by (simp add: rect_ok_def)
      fix j s assume j: "?c0 \<le> j" "j < ?c1" and s: "J i j s"
      have "okR (drawn p (\<lambda>y' x'. if y' = i \<and> x' = j then term_glyph c
          else if in_rect r y' x' \<and> (y' < i \<or> y' = i \<and> x' < j) then term_glyph c else g y' x'))
        (term_putchar \<lparr>tp_row = i, tp_col = j\<rparr> c a s)"
        by (rule drawn_putchar) (use s i j r in \<open>auto simp: J_def rect_ok_def\<close>)
      then show "okR (J i (j + 1)) (term_putchar \<lparr>tp_row = i, tp_col = j\<rparr> c a s)"
        unfolding J_def
        by (elim okR_mono drawn_cong) (use i j in \<open>auto simp: in_rect_def\<close>)
    qed
    then show ?thesis
      unfolding I_def J_def by (elim okR_mono drawn_cong) (auto simp: in_rect_def)
  qed
  have "okR (I ?r1) (term_fill r c a q)"
    unfolding term_fill_def
  proof (rule forR_steps)
    show "I ?r0 q"
      using d unfolding I_def by (rule drawn_cong) (auto simp: in_rect_def)
  qed (use r row in \<open>auto simp: rect_ok_def\<close>)
  then show ?thesis
    unfolding I_def by (elim okR_mono drawn_cong) (auto simp: in_rect_def)
qed

text \<open>
  The rows are copied in an order in which no row is overwritten before it is read, so the
  result is the simultaneous copy of the rectangle.
\<close>

definition copied :: "teken_rect \<Rightarrow> teken_pos \<Rightarrow> (int \<Rightarrow> int \<Rightarrow> byte) \<Rightarrow> int \<Rightarrow> int \<Rightarrow> byte" where
  "copied r pos g y x =
    (let y' = y - tp_row pos + tp_row (tr_begin r); x' = x - tp_col pos + tp_col (tr_begin r)
     in if in_rect r y' x' then g y' x' else g y x)"

lemma drawn_copy:
  assumes d: "drawn p g q" and r: "rect_ok (pr_nlin p) (pr_ncol p) r"
    and pos: "0 \<le> tp_row pos" "tp_row pos + (tp_row (tr_end r) - tp_row (tr_begin r)) \<le> pr_nlin p"
      "0 \<le> tp_col pos" "tp_col pos + (tp_col (tr_end r) - tp_col (tr_begin r)) \<le> pr_ncol p"
  shows "okR (drawn p (copied r pos g)) (term_copy r pos q)"
proof -
  let ?r0 = "tp_row (tr_begin r)" and ?c0 = "tp_col (tr_begin r)"
  let ?nr = "tp_row (tr_end r) - ?r0" and ?nc = "tp_col (tr_end r) - ?c0"
  let ?line = "\<lambda>y. vram_memmove (tp_row pos + y) (tp_col pos) (?r0 + y) ?c0 ?nc"
  define H where "H S = (\<lambda>y x. if y - tp_row pos \<in> S \<and> tp_col pos \<le> x \<and> x < tp_col pos + ?nc
    then g (?r0 + (y - tp_row pos)) (x - tp_col pos + ?c0) else g y x)" for S :: "int set"
  have step: "okR (drawn p (H (insert i S))) (?line i s)"
    if s: "drawn p (H S) s" and i: "0 \<le> i" "i < ?nr" and S: "i \<notin> S" "?r0 + i - tp_row pos \<notin> S" for i S s
  proof -
    have "okR (drawn p (\<lambda>y x. if y = tp_row pos + i \<and> tp_col pos \<le> x \<and> x < tp_col pos + ?nc
        then H S (?r0 + i) (x - tp_col pos + ?c0) else H S y x)) (?line i s)"
      by (rule drawn_memmove [OF s]) (use i r pos in \<open>auto simp: rect_ok_def\<close>)
    then show ?thesis
      by (elim okR_mono drawn_cong) (use S in \<open>auto simp: H_def\<close>)
  qed
  have copied: "drawn p (copied r pos g) s" if "drawn p (H {0 ..< ?nr}) s" for s
    using that by (rule drawn_cong) (auto simp: H_def copied_def in_rect_def Let_def algebra_simps)
  have start: "drawn p (H {}) q"
    using d by (simp add: H_def)
  show ?thesis
  proof (cases "tp_row pos < ?r0")
    case True
    have "okR (drawn p (H {0 ..< ?nr})) (forR 0 ?nr ?line q)"
    proof (rule forR_steps [where I = "\<lambda>i. drawn p (H {0 ..< i})"])
      fix i s assume "0 \<le> i" "i < ?nr" "drawn p (H {0 ..< i}) s"
      then have "okR (drawn p (H (insert i {0 ..< i}))) (?line i s)"
        by (intro step) (use True in auto)
      moreover have "insert i {0 ..< i} = {0 ..< i + 1}" using \<open>0 \<le> i\<close> by auto
      ultimately show "okR (drawn p (H {0 ..< i + 1})) (?line i s)" by simp
    qed (use start r in \<open>auto simp: rect_ok_def\<close>)
    then show ?thesis using True by (auto simp: term_copy_def Let_def elim: okR_mono intro: copied)
  next
    case False
    have "okR (drawn p (H {- 1 + 1 ..< ?nr})) (for_downR (?nr - 1) ?line q)"
    proof (rule for_downR_steps [where I = "\<lambda>i. drawn p (H {i + 1 ..< ?nr})"])
      fix i s assume i: "0 \<le> i" "i \<le> ?nr - 1" and "drawn p (H {i + 1 ..< ?nr}) s"
      then have "okR (drawn p (H (insert i {i + 1 ..< ?nr}))) (?line i s)"
        by (intro step) (use False in auto)
      moreover have "insert i {i + 1 ..< ?nr} = {i - 1 + 1 ..< ?nr}" using i by auto
      ultimately show "okR (drawn p (H {i - 1 + 1 ..< ?nr})) (?line i s)" by simp
    qed (use start r in \<open>auto simp: rect_ok_def\<close>)
    then show ?thesis using False by (auto simp: term_copy_def Let_def elim: okR_mono intro: copied)
  qed
qed

end
