(* ===== verification/Term_Inv.thy ===== *)
theory Term_Inv
  imports Term
begin

text \<open>
  The invariant of the terminal emulator and its screen, the rules for the hook wrappers under
  that invariant, and the reset and resize operations that establish it.
\<close>

subsection \<open>The invariant\<close>

text \<open>
  What \<open>teken_input_char\<close> asserts after every character, and what the hooks and the
  subroutines rely on beyond that: the screen has the shape of the window, origin mode and the
  origin region agree, the tables have their declared sizes and the collected arguments are far
  from the end of \<open>unsigned int\<close>.  The window has at least three columns and fewer than
  \<open>INT_MAX\<close> cells; \<open>k\<close> is the number of arguments collected so far.
\<close>

definition pos_ok :: "int \<Rightarrow> int \<Rightarrow> teken_pos \<Rightarrow> bool" where
  "pos_ok nlin ncol pos = (0 \<le> tp_row pos \<and> tp_row pos < nlin \<and> 0 \<le> tp_col pos \<and> tp_col pos < ncol)"

definition region_ok :: "teken \<Rightarrow> bool" where
  "region_ok t = (0 \<le> ts_begin (t_scrollreg t) \<and> ts_begin (t_scrollreg t) < ts_end (t_scrollreg t) \<and>
    ts_end (t_scrollreg t) \<le> tp_row (t_winsize t) \<and>
    (if flag t TS_ORIGIN then t_originreg t = t_scrollreg t
     else t_originreg t = \<lparr>ts_begin = 0, ts_end = tp_row (t_winsize t)\<rparr>))"

definition table_ok :: "teken \<Rightarrow> bool" where
  "table_ok t = (length (t_tabstops t) = 5 \<and> length (t_scs t) = 2 \<and> t_curscs t < 2 \<and>
    length (t_nums t) = T_NUMSIZE \<and> (\<forall>n \<in> set (t_nums t). 0 \<le> n \<and> n < 2 ^ 30))"

definition screen_ok :: "process \<Rightarrow> bool" where
  "screen_ok p = (tp_row (t_winsize (pr_tek p)) = pr_nlin p \<and> tp_col (t_winsize (pr_tek p)) = pr_ncol p \<and>
    1 \<le> pr_nlin p \<and> pr_nlin p \<le> 65535 \<and> 3 \<le> pr_ncol p \<and> pr_ncol p \<le> 65535 \<and>
    pr_nlin p * pr_ncol p < 2 ^ 31 \<and>
    vram_ok (pr_nlin p) (pr_ncol p) (pr_vram p))"

definition cursor_ok :: "teken \<Rightarrow> bool" where
  "cursor_ok t = (pos_ok (tp_row (t_winsize t)) (tp_col (t_winsize t)) (t_cursor t) \<and>
    pos_ok (tp_row (t_winsize t)) (tp_col (t_winsize t)) (t_saved_cursor t) \<and>
    ts_begin (t_originreg t) \<le> tp_row (t_cursor t) \<and> tp_row (t_cursor t) < ts_end (t_originreg t))"

definition term_ok :: "nat \<Rightarrow> process \<Rightarrow> bool" where
  "term_ok k p = (screen_ok p \<and> region_ok (pr_tek p) \<and> cursor_ok (pr_tek p) \<and> table_ok (pr_tek p) \<and>
    t_curnum (pr_tek p) = k)"

named_theorems term_ok_defs "the parts of the terminal invariant and the stores to its fields"

lemmas term_ok_parts [term_ok_defs] = term_ok_def screen_ok_def region_ok_def cursor_ok_def table_ok_def
  pos_ok_def
lemmas tek_stores [term_ok_defs] = set_row_def set_col_def flag_or_def flag_andn_def mk_pos_def mk_rect_def

lemma U16_id [simp]: "0 \<le> x \<Longrightarrow> x < 65536 \<Longrightarrow> U16 x = x"
  and U32_id [simp]: "0 \<le> x \<Longrightarrow> x < 4294967296 \<Longrightarrow> U32 x = x"
  by (simp_all add: U16_def U32_def)

lemma U16_range [simp]: "0 \<le> U16 x" "U16 x < 65536"
  by (simp_all add: U16_def)

lemma flag_stores [simp]:
  "flag (t\<lparr>t_stateflags := f\<rparr>) g \<longleftrightarrow> f AND g \<noteq> 0"
  "flag (t\<lparr>t_cursor := a\<rparr>) g = flag t g"
  "flag (t\<lparr>t_scrollreg := b\<rparr>) g = flag t g"
  "flag (t\<lparr>t_originreg := b\<rparr>) g = flag t g"
  "flag (t\<lparr>t_winsize := a\<rparr>) g = flag t g"
  "flag (t\<lparr>t_tabstops := c\<rparr>) g = flag t g"
  "flag (t\<lparr>t_last := d\<rparr>) g = flag t g"
  "flag (t\<lparr>t_curnum := e\<rparr>) g = flag t g"
  "flag (t\<lparr>t_nums := h\<rparr>) g = flag t g"
  "flag (t\<lparr>t_scs := i\<rparr>) g = flag t g"
  "flag (t\<lparr>t_curattr := j\<rparr>) g = flag t g"
  "flag (t\<lparr>t_defattr := j\<rparr>) g = flag t g"
  "flag (t\<lparr>t_nextstate := l\<rparr>) g = flag t g"
  "flag (t\<lparr>t_saved_cursor := a\<rparr>) g = flag t g"
  "flag (t\<lparr>t_saved_curattr := j\<rparr>) g = flag t g"
  "flag (t\<lparr>t_saved_curscs := m\<rparr>) g = flag t g"
  "flag (t\<lparr>t_curscs := n\<rparr>) g = flag t g"
  "flag (t\<lparr>t_utf8_left := n\<rparr>) g = flag t g"
  "flag (t\<lparr>t_utf8_partial := w\<rparr>) g = flag t g"
  by (simp_all add: flag_def)

lemma flag_fold [term_ok_defs]: "t_stateflags t AND f = 0 \<longleftrightarrow> \<not> flag t f"
  by (simp add: flag_def)

text \<open>Setting or clearing other flags does not change origin mode.\<close>

lemma origin_frame [simp]:
  "(f AND NOT TS_WRAPPED) AND TS_ORIGIN = f AND TS_ORIGIN"
  "(f OR TS_WRAPPED) AND TS_ORIGIN = f AND TS_ORIGIN"
  "(f AND NOT TS_INSERT) AND TS_ORIGIN = f AND TS_ORIGIN"
  "(f OR TS_INSERT) AND TS_ORIGIN = f AND TS_ORIGIN"
  "(f AND NOT TS_AUTOWRAP) AND TS_ORIGIN = f AND TS_ORIGIN"
  "(f OR TS_AUTOWRAP) AND TS_ORIGIN = f AND TS_ORIGIN"
  "(f AND NOT TS_INSTRING) AND TS_ORIGIN = f AND TS_ORIGIN"
  "(f OR TS_INSTRING) AND TS_ORIGIN = f AND TS_ORIGIN"
  "(f AND NOT TS_CURSORKEYS) AND TS_ORIGIN = f AND TS_ORIGIN"
  "(f OR TS_CURSORKEYS) AND TS_ORIGIN = f AND TS_ORIGIN"
  "(f AND NOT TS_CONS25) AND TS_ORIGIN = f AND TS_ORIGIN"
  "(f OR TS_CONS25) AND TS_ORIGIN = f AND TS_ORIGIN"
  "(f OR TS_8BIT) AND TS_ORIGIN = f AND TS_ORIGIN"
  "(f AND NOT TS_FIRSTDIGIT) AND TS_ORIGIN = f AND TS_ORIGIN"
  "(f OR TS_FIRSTDIGIT) AND TS_ORIGIN = f AND TS_ORIGIN"
  by (simp_all add: TS_defs and.assoc bit.conj_disj_distrib2)

lemma origin_cleared [simp]:
  "(f AND NOT TS_ORIGIN) AND TS_ORIGIN = 0"
  "(f AND NOT (TS_WRAPPED OR TS_ORIGIN)) AND TS_ORIGIN = 0"
  "((f AND (TS_8BIT OR TS_CONS25)) OR TS_AUTOWRAP) AND TS_ORIGIN = 0"
  "(f AND NOT TS_WRAPPED AND NOT TS_ORIGIN) AND TS_ORIGIN = 0"
  "(f AND NOT TS_ORIGIN AND NOT TS_WRAPPED) AND TS_ORIGIN = 0"
  by (simp_all add: TS_defs and.assoc bit.conj_disj_distrib2)

lemma TS_ORIGIN_nz [simp]: "TS_ORIGIN \<noteq> 0"
  by (simp add: TS_defs)

lemma origin_set [simp]:
  "(f OR TS_ORIGIN) AND TS_ORIGIN \<noteq> 0"
  "((f OR TS_ORIGIN) AND NOT TS_WRAPPED) AND TS_ORIGIN \<noteq> 0"
proof -
  have "(f OR TS_ORIGIN) AND TS_ORIGIN = TS_ORIGIN" by (rule bit_eqI) (auto simp: bit_simps)
  then show *: "(f OR TS_ORIGIN) AND TS_ORIGIN \<noteq> 0" by (simp add: TS_defs)
  show "((f OR TS_ORIGIN) AND NOT TS_WRAPPED) AND TS_ORIGIN \<noteq> 0" using * by simp
qed

subsection \<open>The hook wrappers inside of the window\<close>

lemma okR_drawn:
  assumes "okR (drawn p g) m" "\<And>v. vram_ok (pr_nlin p) (pr_ncol p) v \<Longrightarrow> P (p\<lparr>pr_vram := v\<rparr>)"
  shows "okR P m"
  using assms by (auto simp: okR_def drawn_def)

lemma okR_cursor [okR_intros]:
  "tp_row (t_cursor (pr_tek p)) < tp_row (t_winsize (pr_tek p)) \<Longrightarrow>
   tp_col (t_cursor (pr_tek p)) < tp_col (t_winsize (pr_tek p)) \<Longrightarrow> P p \<Longrightarrow> okR P (teken_funcs_cursor p)"
  by (simp add: teken_funcs_cursor_def term_cursor_def)

lemma okR_fill [okR_intros]:
  assumes "screen_ok p" "rect_ok (pr_nlin p) (pr_ncol p) r"
    and "\<And>v. vram_ok (pr_nlin p) (pr_ncol p) v \<Longrightarrow> P (p\<lparr>pr_vram := v\<rparr>)"
  shows "okR P (teken_funcs_fill r c a p)"
proof -
  have "okR P (term_fill r c a p)"
    using drawn_refl by (rule drawn_fill [THEN okR_drawn]) (use assms in \<open>simp_all add: screen_ok_def\<close>)
  then show ?thesis using assms(1,2) by (simp add: teken_funcs_fill_def rect_ok_def screen_ok_def Let_def)
qed

lemma okR_copy [okR_intros]:
  assumes "screen_ok p" "rect_ok (pr_nlin p) (pr_ncol p) r"
    and "0 \<le> tp_row pos" "tp_row pos + (tp_row (tr_end r) - tp_row (tr_begin r)) \<le> pr_nlin p"
      "0 \<le> tp_col pos" "tp_col pos + (tp_col (tr_end r) - tp_col (tr_begin r)) \<le> pr_ncol p"
    and "\<And>v. vram_ok (pr_nlin p) (pr_ncol p) v \<Longrightarrow> P (p\<lparr>pr_vram := v\<rparr>)"
  shows "okR P (teken_funcs_copy r pos p)"
proof -
  have "okR P (term_copy r pos p)"
    using drawn_refl by (rule drawn_copy [THEN okR_drawn]) (use assms in \<open>simp_all add: screen_ok_def\<close>)
  then show ?thesis using assms by (simp add: teken_funcs_copy_def rect_ok_def screen_ok_def Let_def)
qed

lemma okR_putchar [okR_intros]:
  assumes "screen_ok p" "pos_ok (pr_nlin p) (pr_ncol p) pos"
    and "\<And>v. vram_ok (pr_nlin p) (pr_ncol p) v \<Longrightarrow> P (p\<lparr>pr_vram := v\<rparr>)"
  shows "okR P (teken_funcs_putchar pos c a p)"
proof -
  have "okR P (term_putchar \<lparr>tp_row = tp_row pos, tp_col = tp_col pos\<rparr> c a p)"
    using drawn_refl
    by (rule drawn_putchar [THEN okR_drawn]) (use assms in \<open>simp_all add: screen_ok_def pos_ok_def\<close>)
  then have "okR P (term_putchar pos c a p)" by (simp add: term_putchar_def)
  then show ?thesis using assms(1,2) by (simp add: teken_funcs_putchar_def pos_ok_def screen_ok_def)
qed

subsection \<open>Reset and resize\<close>

lemma tab_index: "0 \<le> col \<Longrightarrow> col < T_NUMCOL \<Longrightarrow> nat (col div 32) < 5"
  by (simp add: T_NUMCOL_def nat_less_iff)

lemma okR_tab_set [okR_intros]:
  assumes "length (t_tabstops t) = 5" "0 \<le> col"
    and "\<And>ws. length ws = 5 \<Longrightarrow> P (t\<lparr>t_tabstops := ws\<rparr>)"
  shows "okR P (teken_tab_set col t)"
  using assms tab_index [of col] assms(3) [of "t_tabstops t"] by (simp add: teken_tab_set_def updR_def)

lemma okR_tab_clear [okR_intros]:
  assumes "length (t_tabstops t) = 5" "0 \<le> col"
    and "\<And>ws. length ws = 5 \<Longrightarrow> P (t\<lparr>t_tabstops := ws\<rparr>)"
  shows "okR P (teken_tab_clear col t)"
  using assms tab_index [of col] assms(3) [of "t_tabstops t"] by (simp add: teken_tab_clear_def updR_def)

lemma okR_tab_isset [okR_intros]:
  assumes "length (t_tabstops t) = 5" "0 \<le> col" "\<And>b. P b"
  shows "okR P (teken_tab_isset t col)"
  using assms tab_index [of col] by (simp add: teken_tab_isset_def)

lemma tab_default_loop_ok:
  assumes "length (t_tabstops t) = 5" "0 \<le> i"
  shows "okR (\<lambda>t'. \<exists>ws. length ws = 5 \<and> t' = t\<lparr>t_tabstops := ws\<rparr>) (tab_default_loop i t)"
  using assms
proof (induction i t rule: tab_default_loop.induct)
  case (1 i t)
  show ?case
  proof (cases "i < T_NUMCOL")
    case True
    have "okR (\<lambda>t'. \<exists>ws. length ws = 5 \<and> t' = t\<lparr>t_tabstops := ws\<rparr>) (teken_tab_set i t)"
      by (rule okR_tab_set) (use 1 in auto)
    then obtain ws where ws: "length ws = 5" "teken_tab_set i t = Inr (t\<lparr>t_tabstops := ws\<rparr>)"
      by (auto simp: okR_def)
    have "okR (\<lambda>t''. \<exists>us. length us = 5 \<and> t'' = t\<lparr>t_tabstops := ws\<rparr>\<lparr>t_tabstops := us\<rparr>)
        (tab_default_loop (i + 8) (t\<lparr>t_tabstops := ws\<rparr>))"
      by (rule 1(1)) (use True 1(3) ws in auto)
    then show ?thesis using True ws by (subst tab_default_loop.simps) simp
  next
    case False
    then show ?thesis using 1(2) by (subst tab_default_loop.simps) (auto intro: exI [of _ "t_tabstops t"])
  qed
qed

lemma okR_tab_default [okR_intros]:
  assumes "\<And>ws. length ws = 5 \<Longrightarrow> P (t\<lparr>t_tabstops := ws\<rparr>)"
  shows "okR P (teken_tab_default t)"
  unfolding teken_tab_default_def
  by (rule okR_mono [OF tab_default_loop_ok]) (auto intro: assms)

lemma do_reset_ok:
  assumes "0 < tp_row (t_winsize t)" "0 < tp_col (t_winsize t)"
    "length (t_nums t) = T_NUMSIZE" "\<forall>n \<in> set (t_nums t). 0 \<le> n \<and> n < 2 ^ 30"
  shows "okR (\<lambda>t'. region_ok t' \<and> cursor_ok t' \<and> table_ok t' \<and> t_winsize t' = t_winsize t \<and>
    t_curnum t' = t_curnum t) (teken_subr_do_reset t)"
  unfolding teken_subr_do_reset_def teken_subr_save_cursor_def Let_def
  by (intro okR_intros) (use assms in \<open>auto simp: term_ok_defs\<close>)

lemma vram_ok_resized:
  assumes "vram_ok nlin ncol v" "0 \<le> nlin" "0 \<le> ncol" "0 \<le> lin" "0 \<le> col"
  shows "vram_ok lin col (map (resized_row v nlin ncol col) [0 ..< nat lin])"
proof -
  have "length (resized_row v nlin ncol col i) = nat col + 1 \<and> resized_row v nlin ncol col i ! nat col = 0" for i
  proof (cases "int i < nlin")
    case True
    then have "int (length (v ! i)) = ncol + 1" using vram_okD(2) [OF assms(1), of "int i"] by simp
    then show ?thesis using True assms
      by (auto simp: resized_row_def Let_def nth_append min_def nat_le_iff)
  next
    case False
    then show ?thesis using assms by (auto simp: resized_row_def nth_append)
  qed
  then show ?thesis using assms by (auto simp: vram_ok_def)
qed

lemma okR_resize:
  assumes "vram_ok (pr_nlin p) (pr_ncol p) (pr_vram p)" "0 \<le> pr_nlin p" "0 \<le> pr_ncol p"
    "1 \<le> lin" "lin \<le> 65535" "3 \<le> col" "col \<le> 65535" "lin * col < 2 ^ 31"
    "length (t_nums (pr_tek p)) = T_NUMSIZE" "\<forall>n \<in> set (t_nums (pr_tek p)). 0 \<le> n \<and> n < 2 ^ 30"
  shows "okR (\<lambda>q. term_ok (t_curnum (pr_tek p)) q \<and> pr_nlin q = lin \<and> pr_ncol q = col \<and>
    pr_ansi_response q = pr_ansi_response p \<and> pr_write q = pr_write p) (term_resize lin col p)"
proof -
  define t where "t = (teken_trim_cursor_pos (mk_pos lin col) (pr_tek p))\<lparr>t_winsize := mk_pos lin col\<rparr>"
  have t: "t_nums t = t_nums (pr_tek p)" "t_curnum t = t_curnum (pr_tek p)" "t_winsize t = mk_pos lin col"
    by (simp_all add: t_def teken_trim_cursor_pos_def set_row_def set_col_def Let_def)
  have win: "mk_pos lin col = \<lparr>tp_row = lin, tp_col = col\<rparr>"
    using assms by (simp add: mk_pos_def)
  have eq: "teken_set_winsize (mk_pos lin col) (pr_tek p) = teken_subr_do_reset t"
    by (simp add: teken_set_winsize_def t_def)
  have "okR (\<lambda>t'. region_ok t' \<and> cursor_ok t' \<and> table_ok t' \<and> t_winsize t' = t_winsize t \<and>
      t_curnum t' = t_curnum t) (teken_subr_do_reset t)"
    by (rule do_reset_ok) (use assms t win in simp_all)
  then obtain t' where t': "teken_set_winsize (mk_pos lin col) (pr_tek p) = Inr t'" "region_ok t'"
    "cursor_ok t'" "table_ok t'" "t_winsize t' = \<lparr>tp_row = lin, tp_col = col\<rparr>" "t_curnum t' = t_curnum (pr_tek p)"
    unfolding eq by (auto simp: okR_def t win)
  moreover have "vram_ok lin col (map (resized_row (pr_vram p) (pr_nlin p) (pr_ncol p) col) [0 ..< nat lin])"
    by (rule vram_ok_resized) (use assms in auto)
  ultimately show ?thesis
    using assms(4-8) t' by (simp add: term_resize_def on_tek_def term_ok_def screen_ok_def)
qed

subsection \<open>Short writes\<close>

text \<open>
  The emulator answers queries through the hook \<open>term_respond\<close>, which ends the test with
  \<open>vtc_fatal\<close> when \<open>write(2)\<close> does not take the whole answer.  \<open>okT sw P m\<close>: the operation ends with a
  result that satisfies \<open>P\<close>, or, if \<open>sw\<close>, with that fatal error.  \<open>writes_ok sw p\<close>: short writes are
  allowed by \<open>sw\<close>, or cannot happen in the state \<open>p\<close>.  The rules for \<open>okT\<close> are those for \<open>okR\<close>.
\<close>

definition okT :: "bool \<Rightarrow> ('a \<Rightarrow> bool) \<Rightarrow> 'a res \<Rightarrow> bool" where
  "okT sw P m = (okR P m \<or> sw \<and> m = Inl Fatal)"

definition writes_ok :: "bool \<Rightarrow> process \<Rightarrow> bool" where
  "writes_ok sw p = (pr_ansi_response p \<longrightarrow> sw \<or> (\<forall>n l. pr_write p n l = int l))"

definition term_inv :: "bool \<Rightarrow> nat \<Rightarrow> process \<Rightarrow> bool" where
  "term_inv sw k p = (term_ok k p \<and> writes_ok sw p)"

named_theorems okT_intros "rules for results that are not a fault other than a short write"

lemmas term_inv_parts [term_ok_defs] = term_inv_def

lemma writes_ok_stores [simp]:
  "writes_ok sw (p\<lparr>pr_tek := t\<rparr>) = writes_ok sw p" "writes_ok sw (p\<lparr>pr_vram := v\<rparr>) = writes_ok sw p"
  "writes_ok sw (p\<lparr>pr_responses := rs\<rparr>) = writes_ok sw p"
  by (simp_all add: writes_ok_def)

lemma okT_I: "okR P m \<Longrightarrow> okT sw P m"
  by (simp add: okT_def)

lemma okT_False: "okT False P m = okR P m"
  by (simp add: okT_def)

lemma okT_Inr_iff [simp]: "okT sw P (Inr x) = P x"
  by (simp add: okT_def)

lemma okT_bind [okT_intros]: "okT sw (\<lambda>x. okT sw P (f x)) m \<Longrightarrow> okT sw P (bindR m f)"
  by (auto simp: okT_def okR_def)

lemma okT_guard [okT_intros]: "b \<Longrightarrow> okT sw P m \<Longrightarrow> okT sw P (guardR e b m)"
  by simp

lemma okT_if [okT_intros]: "(b \<Longrightarrow> okT sw P m) \<Longrightarrow> (\<not> b \<Longrightarrow> okT sw P n) \<Longrightarrow> okT sw P (if b then m else n)"
  by simp

lemma okT_let [okT_intros]: "(\<And>x. x = a \<Longrightarrow> okT sw P (f x)) \<Longrightarrow> okT sw P (Let a f)"
  by simp

lemma okT_mono: "okT sw P m \<Longrightarrow> (\<And>x. P x \<Longrightarrow> Q x) \<Longrightarrow> okT sw Q m"
  unfolding okT_def using okR_mono [of P m Q] by blast

lemma okT_chain: "okT sw P m \<Longrightarrow> (\<And>x. P x \<Longrightarrow> okT sw Q (f x)) \<Longrightarrow> okT sw Q (bindR m f)"
  by (rule okT_bind) (rule okT_mono)

lemmas okT_Inr [okT_intros] = okR_Inr [THEN okT_I]
lemmas okT_nth [okT_intros] = okR_nth [THEN okT_I]
lemmas okT_updR [okT_intros] = okR_updR [THEN okT_I]
lemmas okT_cursor [okT_intros] = okR_cursor [THEN okT_I]
lemmas okT_fill [okT_intros] = okR_fill [THEN okT_I]
lemmas okT_copy [okT_intros] = okR_copy [THEN okT_I]
lemmas okT_putchar [okT_intros] = okR_putchar [THEN okT_I]
lemmas okT_tab_set [okT_intros] = okR_tab_set [THEN okT_I]
lemmas okT_tab_clear [okT_intros] = okR_tab_clear [THEN okT_I]
lemmas okT_tab_isset [okT_intros] = okR_tab_isset [THEN okT_I]
lemmas okT_tab_default [okT_intros] = okR_tab_default [THEN okT_I]

lemma okT_respond [okT_intros]:
  "writes_ok sw p \<Longrightarrow> (\<And>rs. P (p\<lparr>pr_responses := rs\<rparr>)) \<Longrightarrow> P p \<Longrightarrow> okT sw P (teken_funcs_respond buf p)"
  by (auto simp: teken_funcs_respond_def term_respond_def writes_ok_def okT_def guardR_def)

lemma okT_param:
  assumes "term_inv sw k p"
  shows "okT sw (term_inv sw k) (teken_funcs_param prm v p)"
proof -
  have *: "okR (term_inv sw k) (term_resize (pr_nlin p) col p)" if "3 \<le> col" "col \<le> 132" for col
  proof -
    have "pr_nlin p * col \<le> 65535 * 132"
      by (rule mult_mono) (use assms that in \<open>auto simp: term_inv_def term_ok_def screen_ok_def\<close>)
    then have "okR (\<lambda>q. term_ok (t_curnum (pr_tek p)) q \<and> pr_nlin q = pr_nlin p \<and> pr_ncol q = col \<and>
        pr_ansi_response q = pr_ansi_response p \<and> pr_write q = pr_write p) (term_resize (pr_nlin p) col p)"
      by (intro okR_resize) (use assms that in \<open>auto simp: term_inv_def term_ok_def screen_ok_def table_ok_def\<close>)
    then show ?thesis using assms by (auto simp: term_inv_def term_ok_def writes_ok_def elim: okR_mono)
  qed
  show ?thesis
    using * [of 132] * [of 80] assms by (simp add: teken_funcs_param_def term_param_def okT_I)
qed

end
