(* ===== verification/Teken_Char.thy ===== *)
theory Teken_Char
  imports Teken_State
begin

text \<open>
  The character tables of the terminal emulator: column widths and the UTF-8 helper of
  \<open>src/src/teken_wcwidth.h\<close>, the character sets of \<open>src/src/teken_scs.h\<close>, and the colour and
  key tables of \<open>src/src/teken.c\<close>.  Characters are code points, as integers.

  The binary search is proved equal to membership in one of the intervals, and the 256 colour
  table equal to the rule that its comment gives.
\<close>

subsection \<open>Column widths\<close>

type_synonym interval = "int \<times> int" \<comment> \<open>\<open>first\<close> and \<open>last\<close>\<close>

function bisearch_loop :: "int \<Rightarrow> interval list \<Rightarrow> int \<Rightarrow> int \<Rightarrow> bool res" where
  "bisearch_loop ucs table mn mx =
    (if mn \<le> mx then
       (let mid = (mn + mx) div 2 in
        bindR (nthR table (nat mid)) (\<lambda>iv.
          if snd iv < ucs then bisearch_loop ucs table (mid + 1) mx
          else if ucs < fst iv then bisearch_loop ucs table mn (mid - 1)
          else Inr True))
     else Inr False)"
  by pat_completeness auto
termination
  by (relation "measure (\<lambda>(_, _, mn, mx). nat (mx - mn + 1))") auto

declare bisearch_loop.simps [simp del]

definition bisearch :: "int \<Rightarrow> interval list \<Rightarrow> int \<Rightarrow> bool res" where
  "bisearch ucs table mx =
    bindR (nthR table 0) (\<lambda>lo. bindR (nthR table (nat mx)) (\<lambda>hi.
      if ucs < fst lo \<or> snd hi < ucs then Inr False else bisearch_loop ucs table 0 mx))"

definition combining :: "interval list" where
  "combining = [
   (0x0300, 0x036F), (0x0483, 0x0486), (0x0488, 0x0489),
   (0x0591, 0x05BD), (0x05BF, 0x05BF), (0x05C1, 0x05C2),
   (0x05C4, 0x05C5), (0x05C7, 0x05C7), (0x0600, 0x0603),
   (0x0610, 0x0615), (0x064B, 0x065E), (0x0670, 0x0670),
   (0x06D6, 0x06E4), (0x06E7, 0x06E8), (0x06EA, 0x06ED),
   (0x070F, 0x070F), (0x0711, 0x0711), (0x0730, 0x074A),
   (0x07A6, 0x07B0), (0x07EB, 0x07F3), (0x0901, 0x0902),
   (0x093C, 0x093C), (0x0941, 0x0948), (0x094D, 0x094D),
   (0x0951, 0x0954), (0x0962, 0x0963), (0x0981, 0x0981),
   (0x09BC, 0x09BC), (0x09C1, 0x09C4), (0x09CD, 0x09CD),
   (0x09E2, 0x09E3), (0x0A01, 0x0A02), (0x0A3C, 0x0A3C),
   (0x0A41, 0x0A42), (0x0A47, 0x0A48), (0x0A4B, 0x0A4D),
   (0x0A70, 0x0A71), (0x0A81, 0x0A82), (0x0ABC, 0x0ABC),
   (0x0AC1, 0x0AC5), (0x0AC7, 0x0AC8), (0x0ACD, 0x0ACD),
   (0x0AE2, 0x0AE3), (0x0B01, 0x0B01), (0x0B3C, 0x0B3C),
   (0x0B3F, 0x0B3F), (0x0B41, 0x0B43), (0x0B4D, 0x0B4D),
   (0x0B56, 0x0B56), (0x0B82, 0x0B82), (0x0BC0, 0x0BC0),
   (0x0BCD, 0x0BCD), (0x0C3E, 0x0C40), (0x0C46, 0x0C48),
   (0x0C4A, 0x0C4D), (0x0C55, 0x0C56), (0x0CBC, 0x0CBC),
   (0x0CBF, 0x0CBF), (0x0CC6, 0x0CC6), (0x0CCC, 0x0CCD),
   (0x0CE2, 0x0CE3), (0x0D41, 0x0D43), (0x0D4D, 0x0D4D),
   (0x0DCA, 0x0DCA), (0x0DD2, 0x0DD4), (0x0DD6, 0x0DD6),
   (0x0E31, 0x0E31), (0x0E34, 0x0E3A), (0x0E47, 0x0E4E),
   (0x0EB1, 0x0EB1), (0x0EB4, 0x0EB9), (0x0EBB, 0x0EBC),
   (0x0EC8, 0x0ECD), (0x0F18, 0x0F19), (0x0F35, 0x0F35),
   (0x0F37, 0x0F37), (0x0F39, 0x0F39), (0x0F71, 0x0F7E),
   (0x0F80, 0x0F84), (0x0F86, 0x0F87), (0x0F90, 0x0F97),
   (0x0F99, 0x0FBC), (0x0FC6, 0x0FC6), (0x102D, 0x1030),
   (0x1032, 0x1032), (0x1036, 0x1037), (0x1039, 0x1039),
   (0x1058, 0x1059), (0x1160, 0x11FF), (0x135F, 0x135F),
   (0x1712, 0x1714), (0x1732, 0x1734), (0x1752, 0x1753),
   (0x1772, 0x1773), (0x17B4, 0x17B5), (0x17B7, 0x17BD),
   (0x17C6, 0x17C6), (0x17C9, 0x17D3), (0x17DD, 0x17DD),
   (0x180B, 0x180D), (0x18A9, 0x18A9), (0x1920, 0x1922),
   (0x1927, 0x1928), (0x1932, 0x1932), (0x1939, 0x193B),
   (0x1A17, 0x1A18), (0x1B00, 0x1B03), (0x1B34, 0x1B34),
   (0x1B36, 0x1B3A), (0x1B3C, 0x1B3C), (0x1B42, 0x1B42),
   (0x1B6B, 0x1B73), (0x1DC0, 0x1DCA), (0x1DFE, 0x1DFF),
   (0x200B, 0x200F), (0x202A, 0x202E), (0x2060, 0x2063),
   (0x206A, 0x206F), (0x20D0, 0x20EF), (0x302A, 0x302F),
   (0x3099, 0x309A), (0xA806, 0xA806), (0xA80B, 0xA80B),
   (0xA825, 0xA826), (0xFB1E, 0xFB1E), (0xFE00, 0xFE0F),
   (0xFE20, 0xFE23), (0xFEFF, 0xFEFF), (0xFFF9, 0xFFFB),
   (0x10A01, 0x10A03), (0x10A05, 0x10A06), (0x10A0C, 0x10A0F),
   (0x10A38, 0x10A3A), (0x10A3F, 0x10A3F), (0x1D167, 0x1D169),
   (0x1D173, 0x1D182), (0x1D185, 0x1D18B), (0x1D1AA, 0x1D1AD),
   (0x1D242, 0x1D244), (0xE0001, 0xE0001), (0xE0020, 0xE007F),
   (0xE0100, 0xE01EF)]"

definition wide :: "int \<Rightarrow> bool" where
  "wide ucs = (ucs \<ge> 0x1100 \<and>
    (ucs \<le> 0x115f \<or>
     ucs = 0x2329 \<or> ucs = 0x232a \<or>
     (ucs \<ge> 0x2e80 \<and> ucs \<le> 0xa4cf \<and> ucs \<noteq> 0x303f) \<or>
     (ucs \<ge> 0xac00 \<and> ucs \<le> 0xd7a3) \<or>
     (ucs \<ge> 0xf900 \<and> ucs \<le> 0xfaff) \<or>
     (ucs \<ge> 0xfe10 \<and> ucs \<le> 0xfe19) \<or>
     (ucs \<ge> 0xfe30 \<and> ucs \<le> 0xfe6f) \<or>
     (ucs \<ge> 0xff00 \<and> ucs \<le> 0xff60) \<or>
     (ucs \<ge> 0xffe0 \<and> ucs \<le> 0xffe6) \<or>
     (ucs \<ge> 0x20000 \<and> ucs \<le> 0x2fffd) \<or>
     (ucs \<ge> 0x30000 \<and> ucs \<le> 0x3fffd)))"

definition teken_wcwidth :: "int \<Rightarrow> int res" where
  "teken_wcwidth ucs =
    (if ucs = 0 then Inr 0
     else if ucs < 32 \<or> (ucs \<ge> 0x7f \<and> ucs < 0xa0) then Inr (- 1)
     else bindR (bisearch ucs combining (int (length combining) - 1)) (\<lambda>b.
       if b then Inr 0 else Inr (1 + (if wide ucs then 1 else 0))))"

subsection \<open>UTF-8\<close>

definition TEKEN_UTF8_INVALID_CODEPOINT :: u32 where "TEKEN_UTF8_INVALID_CODEPOINT = - 1"

fun teken_utf8_bytes_to_codepoint :: "byte list \<Rightarrow> int \<Rightarrow> u32" where
  "teken_utf8_bytes_to_codepoint [b0, b1, b2, b3] nbytes =
    (if nbytes = 1 then
       (if b0 AND 0x80 \<noteq> 0 then TEKEN_UTF8_INVALID_CODEPOINT else ucast (b0 AND 0x7f))
     else if nbytes = 2 then
       (if b0 AND 0xe0 \<noteq> 0xc0 then TEKEN_UTF8_INVALID_CODEPOINT
        else push_bit 6 (ucast (b0 AND 0x1f)) OR ucast (b1 AND 0x3f))
     else if nbytes = 3 then
       (if b0 AND 0xf0 \<noteq> 0xe0 then TEKEN_UTF8_INVALID_CODEPOINT
        else push_bit 12 (ucast (b0 AND 0xf)) OR push_bit 6 (ucast (b1 AND 0x3f)) OR ucast (b2 AND 0x3f))
     else if nbytes = 4 then
       (if b0 AND 0xf8 \<noteq> 0xf0 then TEKEN_UTF8_INVALID_CODEPOINT
        else push_bit 18 (ucast (b0 AND 0x7)) OR push_bit 12 (ucast (b1 AND 0x3f)) OR
          push_bit 6 (ucast (b2 AND 0x3f)) OR ucast (b3 AND 0x3f))
     else TEKEN_UTF8_INVALID_CODEPOINT)"
| "teken_utf8_bytes_to_codepoint _ nbytes = TEKEN_UTF8_INVALID_CODEPOINT"

subsection \<open>Character sets\<close>

definition teken_boxdrawing_unicode :: "int list" where
  "teken_boxdrawing_unicode = [0x25c6, 0x2592, 0x2409, 0x240c, 0x240d, 0x240a, 0x00b0, 0x00b1, 0x2424, 0x240b, 0x2518, 0x2510, 0x250c, 0x2514, 0x253c, 0x23ba, 0x23bb, 0x2500, 0x23bc, 0x23bd, 0x251c, 0x2524, 0x2534, 0x252c, 0x2502, 0x2264, 0x2265, 0x03c0, 0x2260, 0x00a3, 0x00b7]"

definition teken_boxdrawing_8bit :: "int list" where
  "teken_boxdrawing_8bit = [63, 63, 72, 70, 67, 76, 63, 63, 78, 86, 43, 43, 43, 43, 43, 45, 45, 45, 45, 45, 43, 43, 43, 43, 124, 63, 63, 63, 63, 63, 63]"

definition teken_scs_special_graphics :: "teken \<Rightarrow> int \<Rightarrow> int res" where
  "teken_scs_special_graphics t c =
    (if c \<ge> 0x60 \<and> c \<le> 0x7e then
       (if flag t TS_8BIT then nthR teken_boxdrawing_8bit (nat (c - 0x60))
        else nthR teken_boxdrawing_unicode (nat (c - 0x60)))
     else Inr c)"

definition teken_scs_uk_national :: "teken \<Rightarrow> int \<Rightarrow> int res" where
  "teken_scs_uk_national t c =
    (if c = 0x23 then Inr (if flag t TS_8BIT then 0x9c else 0xa3) else Inr c)"

definition teken_scs_us_ascii :: "teken \<Rightarrow> int \<Rightarrow> int res" where
  "teken_scs_us_ascii t c = Inr c"

definition teken_scs_process :: "teken \<Rightarrow> int \<Rightarrow> int res" where
  "teken_scs_process t c =
    bindR (nthR (t_scs t) (t_curscs t)) (\<lambda>s. case s of
      SCS_special_graphics \<Rightarrow> teken_scs_special_graphics t c
    | SCS_uk_national \<Rightarrow> teken_scs_uk_national t c
    | SCS_us_ascii \<Rightarrow> teken_scs_us_ascii t c)"

subsection \<open>Colours\<close>

definition teken_256to8tab :: "byte list" where
  "teken_256to8tab = [
   0, 1, 2, 3, 4, 5, 6, 7,
   0, 1, 2, 3, 4, 5, 6, 7,
   0, 4, 4, 4, 4, 4,
   2, 6, 6, 4, 4, 4,
   2, 6, 6, 6, 4, 4,
   2, 2, 6, 6, 6, 4,
   2, 2, 2, 6, 6, 6,
   2, 2, 2, 2, 6, 6,
   1, 5, 5, 4, 4, 4,
   3, 0, 4, 4, 4, 4,
   3, 2, 6, 6, 4, 4,
   2, 2, 6, 6, 6, 4,
   2, 2, 2, 6, 6, 6,
   2, 2, 2, 2, 6, 6,
   1, 5, 5, 5, 4, 4,
   3, 1, 5, 5, 4, 4,
   3, 3, 7, 4, 4, 4,
   3, 3, 2, 6, 6, 4,
   2, 2, 2, 6, 6, 6,
   2, 2, 2, 2, 6, 6,
   1, 1, 5, 5, 5, 4,
   1, 1, 5, 5, 5, 4,
   3, 3, 1, 5, 5, 4,
   3, 3, 3, 7, 4, 4,
   3, 3, 3, 2, 6, 6,
   2, 2, 2, 2, 6, 6,
   1, 1, 1, 5, 5, 5,
   1, 1, 1, 5, 5, 5,
   1, 1, 1, 5, 5, 5,
   3, 3, 3, 1, 5, 5,
   3, 3, 3, 3, 7, 4,
   3, 3, 3, 3, 2, 6,
   1, 1, 1, 1, 5, 5,
   1, 1, 1, 1, 5, 5,
   1, 1, 1, 1, 5, 5,
   1, 1, 1, 1, 5, 5,
   3, 3, 3, 3, 1, 5,
   3, 3, 3, 3, 3, 7,
   0, 0, 0, 0, 0, 0,
   0, 0, 0, 0, 0, 0,
   7, 7, 7, 7, 7, 7,
   7, 7, 7, 7, 7, 7]"

definition teken_256to16tab :: "byte list" where
  "teken_256to16tab = [
   0, 1, 2, 3, 4, 5, 6, 7,
   8, 9, 10, 11, 12, 13, 14, 15,
   0, 4, 4, 4, 4, 4,
   2, 6, 6, 4, 4, 4,
   2, 6, 6, 6, 4, 4,
   2, 2, 6, 6, 6, 4,
   2, 2, 2, 6, 6, 6,
   2, 2, 2, 2, 6, 6,
   1, 5, 5, 4, 4, 4,
   3, 8, 4, 4, 12, 12,
   3, 2, 6, 6, 12, 12,
   2, 2, 6, 6, 14, 12,
   2, 10, 10, 14, 14, 14,
   2, 10, 10, 10, 14, 14,
   1, 5, 5, 5, 4, 4,
   3, 1, 5, 5, 12, 12,
   3, 3, 7, 12, 12, 12,
   3, 3, 10, 14, 14, 12,
   2, 10, 10, 14, 14, 14,
   2, 10, 10, 10, 14, 14,
   1, 1, 5, 5, 5, 4,
   1, 1, 5, 5, 13, 12,
   3, 3, 9, 13, 13, 12,
   3, 3, 11, 15, 12, 12,
   3, 11, 11, 10, 14, 14,
   2, 10, 10, 10, 14, 14,
   1, 1, 1, 5, 5, 5,
   1, 9, 9, 13, 13, 13,
   1, 9, 9, 13, 13, 13,
   3, 11, 11, 9, 13, 13,
   3, 11, 11, 11, 15, 12,
   3, 11, 11, 11, 10, 14,
   1, 1, 1, 1, 5, 5,
   1, 9, 9, 9, 13, 13,
   1, 9, 9, 9, 13, 13,
   1, 9, 9, 9, 13, 13,
   3, 11, 11, 11, 9, 13,
   3, 11, 11, 11, 11, 15,
   0, 0, 0, 0, 0, 0,
   8, 8, 8, 8, 8, 8,
   7, 7, 7, 7, 7, 7,
   15, 15, 15, 15, 15, 15]"

definition teken_256to8 :: "byte \<Rightarrow> byte" where
  "teken_256to8 c = teken_256to8tab ! unat c"

definition teken_256to16 :: "byte \<Rightarrow> byte" where
  "teken_256to16 c = teken_256to16tab ! unat c"

subsection \<open>Keys\<close>

text \<open>\<open>TKEY_UP\<close>, \<open>TKEY_DOWN\<close>, \<open>TKEY_LEFT\<close>, \<open>TKEY_RIGHT\<close>, \<open>TKEY_HOME\<close>, \<open>TKEY_END\<close>,
  \<open>TKEY_INSERT\<close>, \<open>TKEY_DELETE\<close>, \<open>TKEY_PAGE_UP\<close>, \<open>TKEY_PAGE_DOWN\<close> and the twelve function
  keys, in the order of their numbers.\<close>

definition esc :: "string \<Rightarrow> byte list" where "esc s = 0x1b # cstr s"

definition special_strings_cons25 :: "byte list list" where
  "special_strings_cons25 = [esc ''[A'', esc ''[B'', esc ''[D'', esc ''[C'', esc ''[H'', esc ''[F'',
    esc ''[L'', [0x7f], esc ''[I'', esc ''[G'', esc ''[M'', esc ''[N'', esc ''[O'', esc ''[P'',
    esc ''[Q'', esc ''[R'', esc ''[S'', esc ''[T'', esc ''[U'', esc ''[V'', esc ''[W'', esc ''[X'']"

definition special_strings_ckeys :: "byte list list" where
  "special_strings_ckeys = [esc ''OA'', esc ''OB'', esc ''OD'', esc ''OC'', esc ''OH'', esc ''OF'']"

definition special_strings_normal :: "byte list list" where
  "special_strings_normal = [esc ''[A'', esc ''[B'', esc ''[D'', esc ''[C'', esc ''[H'', esc ''[F'',
    esc ''[2~'', esc ''[3~'', esc ''[5~'', esc ''[6~'', esc ''OP'', esc ''OQ'', esc ''OR'', esc ''OS'',
    esc ''[15~'', esc ''[17~'', esc ''[18~'', esc ''[19~'', esc ''[20~'', esc ''[21~'', esc ''[23~'',
    esc ''[24~'']"

definition teken_get_sequence :: "teken \<Rightarrow> nat \<Rightarrow> byte list option" where
  "teken_get_sequence t k =
    (if flag t TS_CONS25 \<and> k < length special_strings_cons25 then Some (special_strings_cons25 ! k)
     else if flag t TS_CURSORKEYS \<and> k < length special_strings_ckeys then Some (special_strings_ckeys ! k)
     else if k < length special_strings_normal then Some (special_strings_normal ! k)
     else None)"

subsection \<open>The binary search\<close>

definition intervals_ok :: "interval list \<Rightarrow> bool" where
  "intervals_ok table = (sorted_wrt (\<lambda>a b. snd a < fst b) table \<and> (\<forall>iv \<in> set table. fst iv \<le> snd iv))"

definition in_table :: "interval list \<Rightarrow> int \<Rightarrow> bool" where
  "in_table table ucs = (\<exists>iv \<in> set table. fst iv \<le> ucs \<and> ucs \<le> snd iv)"

lemma in_table_nth:
  "in_table table ucs \<longleftrightarrow> (\<exists>i < length table. fst (table ! i) \<le> ucs \<and> ucs \<le> snd (table ! i))"
  unfolding in_table_def by (metis in_set_conv_nth)

lemma intervals_mono:
  assumes "intervals_ok table" "i < j" "j < length table"
  shows "snd (table ! i) < fst (table ! j)"
  using assms by (auto simp: intervals_ok_def sorted_wrt_iff_nth_less)

lemma intervals_range:
  assumes "intervals_ok table" "i < length table"
  shows "fst (table ! i) \<le> snd (table ! i)"
  using assms by (auto simp: intervals_ok_def)

lemma intervals_le:
  assumes "intervals_ok table" "i \<le> j" "j < length table"
  shows "fst (table ! i) \<le> fst (table ! j)" "snd (table ! i) \<le> snd (table ! j)"
  using intervals_mono [OF assms(1), of i j] intervals_range [OF assms(1), of i]
    intervals_range [OF assms(1), of j] assms(2,3) by (cases "i = j"; simp)+

lemma bisearch_loop_correct:
  assumes "intervals_ok table" "0 \<le> mn" "mx < int (length table)"
  shows "bisearch_loop ucs table mn mx =
    Inr (\<exists>i. mn \<le> int i \<and> int i \<le> mx \<and> fst (table ! i) \<le> ucs \<and> ucs \<le> snd (table ! i))"
  using assms
proof (induction ucs table mn mx rule: bisearch_loop.induct)
  case (1 ucs table mn mx)
  show ?case
  proof (cases "mn \<le> mx")
    case False
    then show ?thesis by (subst bisearch_loop.simps) auto
  next
    case True
    define mid where "mid = (mn + mx) div 2"
    have mid: "mn \<le> mid" "mid \<le> mx" using True by (auto simp: mid_def)
    let ?iv = "table ! nat mid"
    have nth: "nthR table (nat mid) = Inr ?iv" using mid 1(4,5) by simp
    have eq: "bisearch_loop ucs table mn mx =
      (if snd ?iv < ucs then bisearch_loop ucs table (mid + 1) mx
       else if ucs < fst ?iv then bisearch_loop ucs table mn (mid - 1) else Inr True)"
      using True nth by (subst bisearch_loop.simps) (simp add: mid_def Let_def)
    consider "snd ?iv < ucs" | "\<not> snd ?iv < ucs" "ucs < fst ?iv" | "fst ?iv \<le> ucs" "ucs \<le> snd ?iv" by linarith
    then show ?thesis
    proof cases
      case 1
      have below: "snd (table ! i) < ucs" if "int i \<le> mid" for i
      proof -
        have "i \<le> nat mid" "nat mid < length table" using that mid \<open>mx < _\<close> by linarith+
        then show ?thesis using intervals_le(2) [OF \<open>intervals_ok table\<close>] 1 by fastforce
      qed
      have "bisearch_loop ucs table (mid + 1) mx =
          Inr (\<exists>i. mid + 1 \<le> int i \<and> int i \<le> mx \<and> fst (table ! i) \<le> ucs \<and> ucs \<le> snd (table ! i))"
        by (rule "1.IH"(1) [OF True mid_def nth]) (use 1 "1.prems" mid in auto)
      also have "\<dots> = Inr (\<exists>i. mn \<le> int i \<and> int i \<le> mx \<and> fst (table ! i) \<le> ucs \<and> ucs \<le> snd (table ! i))"
        using below mid by (smt (verit, best))
      finally show ?thesis using eq 1 by simp
    next
      case 2
      have above: "ucs < fst (table ! i)" if "mid \<le> int i" "int i \<le> mx" for i
      proof -
        have "nat mid \<le> i" "i < length table" using that mid \<open>mx < _\<close> by linarith+
        then show ?thesis using intervals_le(1) [OF \<open>intervals_ok table\<close>] 2 by fastforce
      qed
      have "bisearch_loop ucs table mn (mid - 1) =
          Inr (\<exists>i. mn \<le> int i \<and> int i \<le> mid - 1 \<and> fst (table ! i) \<le> ucs \<and> ucs \<le> snd (table ! i))"
        by (rule "1.IH"(2) [OF True mid_def nth]) (use 2 "1.prems" mid in auto)
      also have "\<dots> = Inr (\<exists>i. mn \<le> int i \<and> int i \<le> mx \<and> fst (table ! i) \<le> ucs \<and> ucs \<le> snd (table ! i))"
        using above mid by (smt (verit, best))
      finally show ?thesis using eq 2 by simp
    next
      case 3
      then show ?thesis using eq mid \<open>0 \<le> mn\<close> by (auto intro!: exI [of _ "nat mid"])
    qed
  qed
qed

lemma bisearch_correct:
  assumes "intervals_ok table" "table \<noteq> []"
  shows "bisearch ucs table (int (length table) - 1) = Inr (in_table table ucs)"
proof -
  let ?n = "length table - 1"
  have n: "?n < length table" "nat (int (length table) - 1) = ?n" "0 < length table" using assms(2) by auto
  have lo: "fst (table ! 0) \<le> fst (table ! i)" and hi: "snd (table ! i) \<le> snd (table ! ?n)"
    if "i < length table" for i
    using intervals_le [OF assms(1)] that n by simp_all
  have loop: "bisearch_loop ucs table 0 (int (length table) - 1) = Inr (in_table table ucs)"
    using bisearch_loop_correct [OF assms(1), of 0 "int (length table) - 1" ucs]
    by (simp add: in_table_nth)
  show ?thesis
  proof (cases "ucs < fst (table ! 0) \<or> snd (table ! ?n) < ucs")
    case True
    then have "\<not> in_table table ucs" using lo hi by (fastforce simp: in_table_nth)
    then show ?thesis using True n by (simp add: bisearch_def)
  next
    case False
    then show ?thesis using loop n by (auto simp: bisearch_def)
  qed
qed

lemma combining_ok: "intervals_ok combining" "combining \<noteq> []"
  by code_simp (simp add: combining_def)

text \<open>The width by linear search: combining characters have no width, controls have none either.\<close>

definition wcwidth_ref :: "int \<Rightarrow> int" where
  "wcwidth_ref ucs =
    (if ucs = 0 \<or> in_table combining ucs then 0
     else if ucs < 32 \<or> (0x7f \<le> ucs \<and> ucs < 0xa0) then - 1
     else if wide ucs then 2 else 1)"

lemma combining_low: "in_table combining ucs \<Longrightarrow> 0x300 \<le> ucs"
proof -
  have "\<forall>iv \<in> set combining. 0x300 \<le> fst iv" by code_simp
  then show "in_table combining ucs \<Longrightarrow> 0x300 \<le> ucs" by (auto simp: in_table_def)
qed

text \<open>
  C23.  The width of every code point that \<open>teken_wcwidth\<close> computes with its binary search, which
  stays inside of the table and ends, is the one of a linear search through the table; it is
  \<open>-1\<close>, \<open>0\<close>, \<open>1\<close> or \<open>2\<close>.
\<close>

theorem teken_wcwidth_ref: "teken_wcwidth ucs = Inr (wcwidth_ref ucs)"
  using combining_low [of ucs] by (auto simp: teken_wcwidth_def wcwidth_ref_def bisearch_correct [OF combining_ok])

lemma wcwidth_total: "\<exists>w. teken_wcwidth ucs = Inr w \<and> w \<le> 2"
  using combining_low [of ucs] by (auto simp: teken_wcwidth_def bisearch_correct [OF combining_ok])

subsection \<open>Colours\<close>

text \<open>
  The rule that the comment of \<open>teken_256to8tab\<close> gives for the colour cube, whose six steps are
  scaled to the intensities 0, 2, 3, 4, 5, 6.
\<close>

definition cube_level :: "nat \<Rightarrow> nat" where
  "cube_level i = (if i = 0 then 0 else i + 1)"

definition mix :: "(nat \<times> byte) list \<Rightarrow> byte" where
  "mix cs = (case filter (\<lambda>c. fst c > 0) cs of
      [(_, a)] \<Rightarrow> a
    | [(x, a), (y, b)] \<Rightarrow> if x \<ge> y + 2 then a else if y \<ge> x + 2 then b else a OR b
    | _ \<Rightarrow> 0)"

definition cube_color :: "nat \<Rightarrow> nat \<Rightarrow> nat \<Rightarrow> byte" where
  "cube_color r g b =
    (let m = min r (min g b) in
     if r = g \<and> g = b then (if r \<le> 2 then 0 else 7)
     else mix [(r - m, 1), (g - m, 2), (b - m, 4)])"

lemma cube_checked:
  "list_all (\<lambda>r. list_all (\<lambda>g. list_all (\<lambda>b.
      teken_256to8tab ! (16 + 36 * r + 6 * g + b) = cube_color (cube_level r) (cube_level g) (cube_level b))
    [0, 1, 2, 3, 4, 5]) [0, 1, 2, 3, 4, 5]) [0, 1, 2, 3, 4, 5 :: nat]"
  by code_simp

lemma below_6: "n < 6 \<Longrightarrow> n \<in> set [0, 1, 2, 3, 4, 5 :: nat]"
  by auto

text \<open>
  \<open>teken_256to8\<close> maps a colour of the 6x6x6 cube to the colour that the rule in the comment
  of its table gives, and \<open>teken_256to16\<close> differs from it only in the brightness bit.
\<close>

theorem teken_256to8_rule:
  assumes "r < 6" "g < 6" "b < 6"
  shows "teken_256to8 (of_nat (16 + 36 * r + 6 * g + b)) =
      cube_color (cube_level r) (cube_level g) (cube_level b) \<and>
    teken_256to8 c = teken_256to16 c AND 7"
proof
  have "unat (of_nat (16 + 36 * r + 6 * g + b) :: byte) = 16 + 36 * r + 6 * g + b"
    using assms by (simp only: unat_of_nat) simp
  then show "teken_256to8 (of_nat (16 + 36 * r + 6 * g + b)) =
      cube_color (cube_level r) (cube_level g) (cube_level b)"
    using cube_checked assms [THEN below_6] unfolding teken_256to8_def list_all_iff by metis
  have "teken_256to8tab = map (\<lambda>c. c AND 7) teken_256to16tab" by code_simp
  moreover have "unat c < length teken_256to16tab"
    using unat_byte_less [of c] by (simp add: teken_256to16tab_def)
  ultimately show "teken_256to8 c = teken_256to16 c AND 7"
    unfolding teken_256to8_def teken_256to16_def by (metis nth_map)
qed

theorem teken_256to8_rule_witness:
  "teken_256to8 (of_nat (16 + 36 * 5 + 6 * 0 + 2)) = 1 \<and> teken_256to8 9 = teken_256to16 9 AND 7"
proof
  have "teken_256to8 (of_nat (16 + 36 * 5 + 6 * 0 + 2)) = cube_color (cube_level 5) (cube_level 0) (cube_level 2)"
    by (rule teken_256to8_rule [THEN conjunct1]) simp_all
  also have "\<dots> = 1" by code_simp
  finally show "teken_256to8 (of_nat (16 + 36 * 5 + 6 * 0 + 2)) = 1" .
  show "teken_256to8 9 = teken_256to16 9 AND 7" by (rule teken_256to8_rule [of 0 0 0, THEN conjunct2]) simp_all
qed

end
