(* ===== verification/Teken_Subr.thy ===== *)
theory Teken_Subr
  imports Term_Inv Teken_Char
begin

text \<open>
  The subroutines of the terminal emulator, \<open>src/src/teken_subr.h\<close> and
  \<open>src/src/teken_subr_compat.h\<close>: one definition per function, on the process state, in the
  order of the sources.  \<open>tk f\<close> applies a change of the \<open>teken_t\<close> structure.  The loops that
  move the cursor from tab stop to tab stop run with a fuel of 65536, the number of values of the
  column; \<open>Undefined\<close> stands for a loop that has not ended by then.
\<close>

subsection \<open>Scrolling and reports\<close>

definition tk :: "(teken \<Rightarrow> teken) \<Rightarrow> process \<Rightarrow> process" where
  "tk f p = p\<lparr>pr_tek := f (pr_tek p)\<rparr>"

definition BLANK :: int where "BLANK = 32"

definition teken_subr_do_scroll :: "int \<Rightarrow> process \<Rightarrow> process res" where
  "teken_subr_do_scroll amount p =
    (let t = pr_tek p; w = tp_col (t_winsize t);
         b = ts_begin (t_scrollreg t); e = ts_end (t_scrollreg t)
     in guardR AssertFail (tp_row (t_cursor t) \<le> tp_row (t_winsize t))
       (guardR AssertFail (e \<le> tp_row (t_winsize t))
       (guardR AssertFail (amount \<noteq> 0)
       (if amount > 0 then
          (if b + amount < e then
             bindR (teken_funcs_copy (mk_rect (b + amount) 0 e w) (mk_pos b 0) p)
               (teken_funcs_fill (mk_rect (e - amount) 0 e w) BLANK (t_curattr t))
           else teken_funcs_fill (mk_rect b 0 e w) BLANK (t_curattr t) p)
        else
          (let n = - amount in
           if b + n < e then
             bindR (teken_funcs_copy (mk_rect b 0 (e - n) w) (mk_pos (b + n) 0) p)
               (teken_funcs_fill (mk_rect b 0 (b + n) w) BLANK (t_curattr t))
           else teken_funcs_fill (mk_rect b 0 e w) BLANK (t_curattr t) p)))))"

definition teken_subr_do_cpr :: "teken \<Rightarrow> int \<Rightarrow> byte list option" where
  "teken_subr_do_cpr t cmd =
    (if cmd = 5 then Some (cstr ''0n'')
     else if cmd = 6 then
       (let s = dec_nat (nat (U32 (tp_row (t_cursor t) - ts_begin (t_originreg t) + 1))) @ cstr '';'' @
                dec_nat (nat (U32 (tp_col (t_cursor t) + 1))) @ cstr ''R''
        in if length s \<ge> 16 then None else Some s)
     else if cmd = 15 then Some (cstr ''13n'')
     else if cmd = 25 then Some (cstr ''20n'')
     else if cmd = 26 then Some (cstr ''27;1n'')
     else None)"

definition teken_subr_alignment_test :: "process \<Rightarrow> process res" where
  "teken_subr_alignment_test p =
    (let t = pr_tek p; reg = \<lparr>ts_begin = 0, ts_end = tp_row (t_winsize t)\<rparr>;
         p1 = tk (\<lambda>t. flag_andn (TS_WRAPPED OR TS_ORIGIN)
                 (t\<lparr>t_cursor := \<lparr>tp_row = 0, tp_col = 0\<rparr>, t_scrollreg := reg, t_originreg := reg\<rparr>)) p
     in bindR (teken_funcs_cursor p1)
       (teken_funcs_fill \<lparr>tr_begin = \<lparr>tp_row = 0, tp_col = 0\<rparr>, tr_end = t_winsize t\<rparr> 69 (t_defattr t)))"

subsection \<open>Moving the cursor\<close>

definition teken_subr_backspace :: "process \<Rightarrow> process res" where
  "teken_subr_backspace p = (let t = pr_tek p in
    if flag t TS_CONS25 then
      (if tp_col (t_cursor t) = 0 then
         (if tp_row (t_cursor t) = ts_begin (t_originreg t) then Inr p
          else teken_funcs_cursor (tk (\<lambda>t. set_col (tp_col (t_winsize t) - 1)
                 (set_row (tp_row (t_cursor t) - 1) t)) p))
       else teken_funcs_cursor (tk (set_col (tp_col (t_cursor t) - 1)) p))
    else
      (if tp_col (t_cursor t) = 0 then Inr p
       else teken_funcs_cursor (tk (\<lambda>t. flag_andn TS_WRAPPED (set_col (tp_col (t_cursor t) - 1) t)) p)))"

definition teken_subr_bell :: "process \<Rightarrow> process res" where
  "teken_subr_bell = teken_funcs_bell"

definition teken_subr_carriage_return :: "process \<Rightarrow> process res" where
  "teken_subr_carriage_return p =
    teken_funcs_cursor (tk (\<lambda>t. flag_andn TS_WRAPPED (set_col 0 t)) p)"

definition teken_subr_cursor_backward :: "int \<Rightarrow> process \<Rightarrow> process res" where
  "teken_subr_cursor_backward ncols p =
    teken_funcs_cursor (tk (\<lambda>t. flag_andn TS_WRAPPED
      (set_col (if ncols > tp_col (t_cursor t) then 0 else tp_col (t_cursor t) - ncols) t)) p)"

fun back_tab_loop :: "nat \<Rightarrow> int \<Rightarrow> teken \<Rightarrow> teken res" where
  "back_tab_loop 0 ntabs t = Inl Undefined"
| "back_tab_loop (Suc fuel) ntabs t =
    (if tp_col (t_cursor t) = 0 then Inr t
     else let t1 = set_col (tp_col (t_cursor t) - 1) t in
       bindR (teken_tab_isset t1 (tp_col (t_cursor t1))) (\<lambda>b.
         let n = (if b then U32 (ntabs - 1) else ntabs) in
         if n > 0 then back_tab_loop fuel n t1 else Inr t1))"

definition teken_subr_cursor_backward_tabulation :: "int \<Rightarrow> process \<Rightarrow> process res" where
  "teken_subr_cursor_backward_tabulation ntabs p =
    bindR (on_tek (back_tab_loop 65536 ntabs) p) teken_funcs_cursor"

definition teken_subr_cursor_down :: "int \<Rightarrow> process \<Rightarrow> process res" where
  "teken_subr_cursor_down nrows p =
    teken_funcs_cursor (tk (\<lambda>t. flag_andn TS_WRAPPED
      (set_row (if U32 (tp_row (t_cursor t) + nrows) \<ge> ts_end (t_scrollreg t)
                then ts_end (t_scrollreg t) - 1 else tp_row (t_cursor t) + nrows) t)) p)"

definition teken_subr_cursor_forward :: "int \<Rightarrow> process \<Rightarrow> process res" where
  "teken_subr_cursor_forward ncols p =
    teken_funcs_cursor (tk (\<lambda>t. flag_andn TS_WRAPPED
      (set_col (if U32 (tp_col (t_cursor t) + ncols) \<ge> tp_col (t_winsize t)
                then tp_col (t_winsize t) - 1 else tp_col (t_cursor t) + ncols) t)) p)"

fun forward_tab_loop :: "nat \<Rightarrow> int \<Rightarrow> teken \<Rightarrow> teken res" where
  "forward_tab_loop 0 ntabs t = Inl Undefined"
| "forward_tab_loop (Suc fuel) ntabs t =
    (if tp_col (t_cursor t) = tp_col (t_winsize t) - 1 then Inr t
     else let t1 = set_col (tp_col (t_cursor t) + 1) t in
       bindR (teken_tab_isset t1 (tp_col (t_cursor t1))) (\<lambda>b.
         let n = (if b then U32 (ntabs - 1) else ntabs) in
         if n > 0 then forward_tab_loop fuel n t1 else Inr t1))"

definition teken_subr_cursor_forward_tabulation :: "int \<Rightarrow> process \<Rightarrow> process res" where
  "teken_subr_cursor_forward_tabulation ntabs p =
    bindR (on_tek (forward_tab_loop 65536 ntabs) p) teken_funcs_cursor"

definition teken_subr_cursor_next_line :: "int \<Rightarrow> process \<Rightarrow> process res" where
  "teken_subr_cursor_next_line ncols p = teken_subr_cursor_down ncols (tk (set_col 0) p)"

definition teken_subr_cursor_position :: "int \<Rightarrow> int \<Rightarrow> process \<Rightarrow> process res" where
  "teken_subr_cursor_position row col p =
    teken_funcs_cursor (tk (\<lambda>t.
      let r = U32 (row - 1 + ts_begin (t_originreg t)); c = U32 (col - 1)
      in flag_andn TS_WRAPPED
        (set_col (if c < tp_col (t_winsize t) then c else tp_col (t_winsize t) - 1)
        (set_row (if r < ts_end (t_originreg t) then r else ts_end (t_originreg t) - 1) t))) p)"

definition teken_subr_cursor_position_report :: "int \<Rightarrow> process \<Rightarrow> process res" where
  "teken_subr_cursor_position_report cmd p =
    (case teken_subr_do_cpr (pr_tek p) cmd of
       None \<Rightarrow> Inr p
     | Some s \<Rightarrow> teken_funcs_respond (esc ''['' @ s) p)"

definition teken_subr_cursor_up :: "int \<Rightarrow> process \<Rightarrow> process res" where
  "teken_subr_cursor_up nrows p =
    teken_funcs_cursor (tk (\<lambda>t. flag_andn TS_WRAPPED
      (set_row (if U32 (ts_begin (t_scrollreg t) + nrows) \<ge> tp_row (t_cursor t)
                then ts_begin (t_scrollreg t) else tp_row (t_cursor t) - nrows) t)) p)"

definition teken_subr_cursor_previous_line :: "int \<Rightarrow> process \<Rightarrow> process res" where
  "teken_subr_cursor_previous_line ncols p = teken_subr_cursor_up ncols (tk (set_col 0) p)"

definition teken_subr_set_cursor_style :: "int \<Rightarrow> process \<Rightarrow> process res" where
  "teken_subr_set_cursor_style style p = Inr p"

subsection \<open>Deleting, erasing and inserting\<close>

definition teken_subr_delete_character :: "int \<Rightarrow> process \<Rightarrow> process res" where
  "teken_subr_delete_character ncols p =
    (let t = pr_tek p; r = tp_row (t_cursor t); c = tp_col (t_cursor t); w = tp_col (t_winsize t)
     in if U32 (c + ncols) \<ge> w then teken_funcs_fill (mk_rect r c (r + 1) w) BLANK (t_curattr t) p
        else bindR (teken_funcs_copy (mk_rect r (c + ncols) (r + 1) w) (t_cursor t) p)
          (teken_funcs_fill (mk_rect r (w - ncols) (r + 1) w) BLANK (t_curattr t)))"

definition teken_subr_delete_line :: "int \<Rightarrow> process \<Rightarrow> process res" where
  "teken_subr_delete_line nrows p =
    (let t = pr_tek p; r = tp_row (t_cursor t); w = tp_col (t_winsize t);
         b = ts_begin (t_scrollreg t); e = ts_end (t_scrollreg t)
     in if r < b \<or> r \<ge> e then Inr p
        else if U32 (r + nrows) \<ge> e then teken_funcs_fill (mk_rect r 0 e w) BLANK (t_curattr t) p
        else bindR (teken_funcs_copy (mk_rect (r + nrows) 0 e w) (mk_pos r 0) p)
          (teken_funcs_fill (mk_rect (e - nrows) 0 e w) BLANK (t_curattr t)))"

definition teken_subr_device_control_string :: "process \<Rightarrow> process res" where
  "teken_subr_device_control_string p = Inr (tk (flag_or TS_INSTRING) p)"

definition teken_subr_device_status_report :: "int \<Rightarrow> process \<Rightarrow> process res" where
  "teken_subr_device_status_report cmd p =
    (case teken_subr_do_cpr (pr_tek p) cmd of
       None \<Rightarrow> Inr p
     | Some s \<Rightarrow> teken_funcs_respond (esc ''[?'' @ s) p)"

definition teken_subr_double_height_double_width_line_top :: "process \<Rightarrow> process res" where
  "teken_subr_double_height_double_width_line_top p = Inr p"

definition teken_subr_double_height_double_width_line_bottom :: "process \<Rightarrow> process res" where
  "teken_subr_double_height_double_width_line_bottom p = Inr p"

definition teken_subr_erase_character :: "int \<Rightarrow> process \<Rightarrow> process res" where
  "teken_subr_erase_character ncols p =
    (let t = pr_tek p; r = tp_row (t_cursor t); c = tp_col (t_cursor t); w = tp_col (t_winsize t)
     in teken_funcs_fill (mk_rect r c (r + 1) (if U32 (c + ncols) \<ge> w then w else c + ncols))
          BLANK (t_curattr t) p)"

definition teken_subr_erase_line :: "int \<Rightarrow> process \<Rightarrow> process res" where
  "teken_subr_erase_line mode p =
    (let t = pr_tek p; r = tp_row (t_cursor t); c = tp_col (t_cursor t); w = tp_col (t_winsize t)
     in teken_funcs_fill
          (if mode = 1 then mk_rect r 0 (r + 1) (c + 1)
           else if mode = 2 then mk_rect r 0 (r + 1) w
           else mk_rect r c (r + 1) w) BLANK (t_curattr t) p)"

definition teken_subr_erase_display :: "int \<Rightarrow> process \<Rightarrow> process res" where
  "teken_subr_erase_display mode p =
    (let t = pr_tek p; r = tp_row (t_cursor t); h = tp_row (t_winsize t); w = tp_col (t_winsize t)
     in if mode = 1 then
          bindR (teken_subr_erase_line 1 p) (\<lambda>p1.
            if r = 0 then Inr p1 else teken_funcs_fill (mk_rect 0 0 r w) BLANK (t_curattr t) p1)
        else if mode = 2 then teken_funcs_fill (mk_rect 0 0 h w) BLANK (t_curattr t) p
        else
          bindR (teken_subr_erase_line 0 p) (\<lambda>p1.
            if r = h - 1 then Inr p1 else teken_funcs_fill (mk_rect (r + 1) 0 h w) BLANK (t_curattr t) p1))"

text \<open>The six functions \<open>teken_subr_g0_scs_special_graphics\<close> to \<open>teken_subr_g1_scs_us_ascii\<close>
  store one function pointer.\<close>

definition set_scs :: "nat \<Rightarrow> teken_scs \<Rightarrow> process \<Rightarrow> process res" where
  "set_scs i s = on_tek (\<lambda>t. bindR (updR (t_scs t) i s) (\<lambda>l. Inr (t\<lparr>t_scs := l\<rparr>)))"

definition teken_subr_g0_scs_special_graphics :: "process \<Rightarrow> process res" where
  "teken_subr_g0_scs_special_graphics = set_scs 0 SCS_special_graphics"

definition teken_subr_g0_scs_uk_national :: "process \<Rightarrow> process res" where
  "teken_subr_g0_scs_uk_national = set_scs 0 SCS_uk_national"

definition teken_subr_g0_scs_us_ascii :: "process \<Rightarrow> process res" where
  "teken_subr_g0_scs_us_ascii = set_scs 0 SCS_us_ascii"

definition teken_subr_g1_scs_special_graphics :: "process \<Rightarrow> process res" where
  "teken_subr_g1_scs_special_graphics = set_scs 1 SCS_special_graphics"

definition teken_subr_g1_scs_uk_national :: "process \<Rightarrow> process res" where
  "teken_subr_g1_scs_uk_national = set_scs 1 SCS_uk_national"

definition teken_subr_g1_scs_us_ascii :: "process \<Rightarrow> process res" where
  "teken_subr_g1_scs_us_ascii = set_scs 1 SCS_us_ascii"

definition teken_subr_horizontal_position_absolute :: "int \<Rightarrow> process \<Rightarrow> process res" where
  "teken_subr_horizontal_position_absolute col p =
    teken_funcs_cursor (tk (\<lambda>t. let c = U32 (col - 1) in flag_andn TS_WRAPPED
      (set_col (if c < tp_col (t_winsize t) then c else tp_col (t_winsize t) - 1) t)) p)"

definition teken_subr_horizontal_tab :: "process \<Rightarrow> process res" where
  "teken_subr_horizontal_tab = teken_subr_cursor_forward_tabulation 1"

definition teken_subr_horizontal_tab_set :: "process \<Rightarrow> process res" where
  "teken_subr_horizontal_tab_set p = on_tek (teken_tab_set (tp_col (t_cursor (pr_tek p)))) p"

definition teken_subr_index :: "process \<Rightarrow> process res" where
  "teken_subr_index p = (let t = pr_tek p in
    if tp_row (t_cursor t) < ts_end (t_scrollreg t) - 1
    then teken_funcs_cursor (tk (\<lambda>t. flag_andn TS_WRAPPED (set_row (tp_row (t_cursor t) + 1) t)) p)
    else teken_subr_do_scroll 1 p)"

definition teken_subr_insert_character :: "int \<Rightarrow> process \<Rightarrow> process res" where
  "teken_subr_insert_character ncols p =
    (let t = pr_tek p; r = tp_row (t_cursor t); c = tp_col (t_cursor t); w = tp_col (t_winsize t)
     in if U32 (c + ncols) \<ge> w then teken_funcs_fill (mk_rect r c (r + 1) w) BLANK (t_curattr t) p
        else bindR (teken_funcs_copy (mk_rect r c (r + 1) (w - ncols)) (mk_pos r (c + ncols)) p)
          (teken_funcs_fill (mk_rect r c (r + 1) (c + ncols)) BLANK (t_curattr t)))"

definition teken_subr_insert_line :: "int \<Rightarrow> process \<Rightarrow> process res" where
  "teken_subr_insert_line nrows p =
    (let t = pr_tek p; r = tp_row (t_cursor t); w = tp_col (t_winsize t);
         b = ts_begin (t_scrollreg t); e = ts_end (t_scrollreg t)
     in if r < b \<or> r \<ge> e then Inr p
        else if U32 (r + nrows) \<ge> e then teken_funcs_fill (mk_rect r 0 e w) BLANK (t_curattr t) p
        else bindR (teken_funcs_copy (mk_rect r 0 (e - nrows) w) (mk_pos (r + nrows) 0) p)
          (teken_funcs_fill (mk_rect r 0 (r + nrows) w) BLANK (t_curattr t)))"

definition teken_subr_keypad_application_mode :: "process \<Rightarrow> process res" where
  "teken_subr_keypad_application_mode = teken_funcs_param TP_KEYPADAPP 1"

definition teken_subr_keypad_numeric_mode :: "process \<Rightarrow> process res" where
  "teken_subr_keypad_numeric_mode = teken_funcs_param TP_KEYPADAPP 0"

definition teken_subr_newline :: "process \<Rightarrow> process res" where
  "teken_subr_newline p =
    (let p1 = tk (\<lambda>t. set_row (tp_row (t_cursor t) + 1) t) p; t = pr_tek p1
     in bindR
       (if tp_row (t_cursor t) \<ge> ts_end (t_scrollreg t)
        then bindR (teken_subr_do_scroll 1 p1) (\<lambda>q. Inr (tk (set_row (ts_end (t_scrollreg t) - 1)) q))
        else Inr p1)
       (\<lambda>q. teken_funcs_cursor (tk (flag_andn TS_WRAPPED) q)))"

definition teken_subr_newpage :: "process \<Rightarrow> process res" where
  "teken_subr_newpage p = (let t = pr_tek p; b = ts_begin (t_originreg t) in
    if flag t TS_CONS25 then
      bindR (teken_funcs_fill (mk_rect b 0 (ts_end (t_originreg t)) (tp_col (t_winsize t))) BLANK (t_curattr t) p)
        (\<lambda>q. teken_funcs_cursor (tk (\<lambda>t. flag_andn TS_WRAPPED (set_col 0 (set_row b t))) q))
    else teken_subr_newline p)"

definition teken_subr_next_line :: "process \<Rightarrow> process res" where
  "teken_subr_next_line p = teken_subr_newline (tk (set_col 0) p)"

definition teken_subr_operating_system_command :: "process \<Rightarrow> process res" where
  "teken_subr_operating_system_command p = Inr (tk (flag_or TS_INSTRING) p)"

definition to_int32 :: "int \<Rightarrow> int" where
  "to_int32 n = (if n < 2147483648 then n else n - 4294967296)"

definition teken_subr_pan_down :: "int \<Rightarrow> process \<Rightarrow> process res" where
  "teken_subr_pan_down nrows = teken_subr_do_scroll (to_int32 nrows)"

definition teken_subr_pan_up :: "int \<Rightarrow> process \<Rightarrow> process res" where
  "teken_subr_pan_up nrows = teken_subr_do_scroll (- to_int32 nrows)"

definition teken_subr_primary_device_attributes :: "int \<Rightarrow> process \<Rightarrow> process res" where
  "teken_subr_primary_device_attributes request p =
    (if request = 0 then teken_funcs_respond (esc ''[?1;2c'') p else Inr p)"

subsection \<open>Printing characters\<close>

definition teken_subr_do_putchar :: "teken_pos \<Rightarrow> int \<Rightarrow> int \<Rightarrow> process \<Rightarrow> process res" where
  "teken_subr_do_putchar tp c width p =
    (let p1 = tk (\<lambda>t. t\<lparr>t_last := c\<rparr>) p; t = pr_tek p1; w = tp_col (t_winsize t)
     in bindR
       (if flag t TS_INSERT \<and> tp_col tp < w - width
        then teken_funcs_copy
          \<lparr>tr_begin = tp, tr_end = mk_pos (tp_row tp + 1) (w - width)\<rparr>
          (mk_pos (tp_row tp) (tp_col tp + width)) p1
        else Inr p1)
       (\<lambda>p2. bindR (teken_funcs_putchar tp c (t_curattr t) p2)
       (\<lambda>p3. if width = 2 \<and> tp_col tp + 1 < w
          then teken_funcs_putchar (mk_pos (tp_row tp) (tp_col tp + 1)) c
            ((t_curattr t)\<lparr>ta_format := ta_format (t_curattr t) OR TF_CJK_RIGHT\<rparr>) p3
          else Inr p3)))"

text \<open>The three ways to place a character: \<open>cons25\<close>, wrapping to the next line, and in place.\<close>

definition put_cons25 :: "int \<Rightarrow> int \<Rightarrow> process \<Rightarrow> process res" where
  "put_cons25 c width p =
    bindR (teken_subr_do_putchar (t_cursor (pr_tek p)) c width p) (\<lambda>q0.
    let q = tk (\<lambda>t. set_col (tp_col (t_cursor t) + width) t) q0; t = pr_tek q
    in bindR
      (if tp_col (t_cursor t) \<ge> tp_col (t_winsize t) then
         bindR
           (if tp_row (t_cursor t) = ts_end (t_scrollreg t) - 1 then teken_subr_do_scroll 1 q
            else if tp_row (t_cursor t) < tp_row (t_winsize t) - 1
            then Inr (tk (set_row (tp_row (t_cursor t) + 1)) q) else Inr q)
           (\<lambda>q. Inr (tk (set_col 0) q))
       else Inr q)
      teken_funcs_cursor)"

definition put_wrapped :: "int \<Rightarrow> int \<Rightarrow> process \<Rightarrow> process res" where
  "put_wrapped c width p =
    (let t = pr_tek p; finish = (\<lambda>row q.
       bindR (teken_subr_do_putchar (mk_pos row 0) c width q)
         (\<lambda>q. teken_funcs_cursor (tk (\<lambda>t. flag_andn TS_WRAPPED (set_col width (set_row row t))) q)))
     in if tp_row (t_cursor t) = ts_end (t_scrollreg t) - 1
        then bindR (teken_subr_do_scroll 1 p) (finish (ts_end (t_scrollreg t) - 1))
        else if U16 (tp_row (t_cursor t) + 1) = tp_row (t_winsize t)
        then teken_subr_do_putchar (t_cursor t) c width p
        else finish (tp_row (t_cursor t) + 1) p)"

definition put_here :: "int \<Rightarrow> int \<Rightarrow> process \<Rightarrow> process res" where
  "put_here c width p =
    bindR (teken_subr_do_putchar (t_cursor (pr_tek p)) c width p) (\<lambda>q.
      teken_funcs_cursor (tk (\<lambda>t.
        let t1 = set_col (tp_col (t_cursor t) + width) t
        in if tp_col (t_cursor t1) \<ge> tp_col (t_winsize t1)
           then set_col (tp_col (t_winsize t1) - 1) (flag_or TS_WRAPPED t1)
           else flag_andn TS_WRAPPED t1) q))"

definition put_sized :: "int \<Rightarrow> int \<Rightarrow> process \<Rightarrow> process res" where
  "put_sized c width p = (let t = pr_tek p in
    if flag t TS_CONS25 then put_cons25 c width p
    else if flag t TS_AUTOWRAP \<and>
      (flag t TS_WRAPPED \<and> tp_col (t_cursor t) + 1 = tp_col (t_winsize t) \<or>
       tp_col (t_cursor t) + width > tp_col (t_winsize t))
    then put_wrapped c width p
    else put_here c width p)"

definition teken_subr_regular_character :: "int \<Rightarrow> process \<Rightarrow> process res" where
  "teken_subr_regular_character c p = (let t = pr_tek p in
    if flag t TS_8BIT then
      (if \<not> flag t TS_CONS25 \<and> (c \<le> 0x1b \<or> c = 0x7f) then Inr p
       else bindR (teken_scs_process t c) (\<lambda>c. put_sized c 1 p))
    else
      bindR (teken_scs_process t c) (\<lambda>c.
      bindR (teken_wcwidth c) (\<lambda>width.
        if width \<le> 0 then Inr p else put_sized c width p)))"

subsection \<open>Modes, reset and restore\<close>

definition teken_subr_reset_to_initial_state :: "process \<Rightarrow> process res" where
  "teken_subr_reset_to_initial_state p =
    bindR (on_tek teken_subr_do_reset p) (\<lambda>p.
    bindR (teken_subr_erase_display 2 p) (\<lambda>p.
    bindR (teken_funcs_param TP_SHOWCURSOR 1 p) teken_funcs_cursor))"

definition teken_subr_reset_dec_mode :: "int \<Rightarrow> process \<Rightarrow> process res" where
  "teken_subr_reset_dec_mode cmd p =
    (if cmd = 1 then Inr (tk (flag_andn TS_CURSORKEYS) p)
     else if cmd = 3 then bindR (teken_funcs_param TP_132COLS 0 p) teken_subr_reset_to_initial_state
     else if cmd = 6 then
       teken_funcs_cursor (tk (\<lambda>t. flag_andn TS_WRAPPED
         ((flag_andn TS_ORIGIN t)\<lparr>t_originreg := \<lparr>ts_begin = 0, ts_end = tp_row (t_winsize t)\<rparr>,
           t_cursor := \<lparr>tp_row = 0, tp_col = 0\<rparr>\<rparr>)) p)
     else if cmd = 7 then Inr (tk (flag_andn TS_AUTOWRAP) p)
     else if cmd = 8 then teken_funcs_param TP_AUTOREPEAT 0 p
     else if cmd = 25 then teken_funcs_param TP_SHOWCURSOR 0 p
     else if cmd = 1000 then teken_funcs_param TP_MOUSE 0 p
     else Inr p)"

definition teken_subr_reset_mode :: "int \<Rightarrow> process \<Rightarrow> process res" where
  "teken_subr_reset_mode cmd p = (if cmd = 4 then Inr (tk (flag_andn TS_INSERT) p) else Inr p)"

definition teken_subr_restore_cursor :: "process \<Rightarrow> process res" where
  "teken_subr_restore_cursor p =
    bindR (on_tek (\<lambda>t. bindR (updR (t_scs t) (t_curscs t) (t_saved_curscs t)) (\<lambda>l.
      let t1 = flag_andn TS_WRAPPED (t\<lparr>t_cursor := t_saved_cursor t, t_curattr := t_saved_curattr t, t_scs := l\<rparr>)
      in Inr (if tp_row (t_cursor t1) < ts_begin (t_originreg t1) \<or> tp_row (t_cursor t1) \<ge> ts_end (t_originreg t1)
              then (flag_andn TS_ORIGIN t1)\<lparr>t_originreg := \<lparr>ts_begin = 0, ts_end = tp_row (t_winsize t1)\<rparr>\<rparr>
              else t1))) p)
      teken_funcs_cursor"

definition teken_subr_reverse_index :: "process \<Rightarrow> process res" where
  "teken_subr_reverse_index p = (let t = pr_tek p in
    if tp_row (t_cursor t) > ts_begin (t_scrollreg t)
    then teken_funcs_cursor (tk (\<lambda>t. flag_andn TS_WRAPPED (set_row (tp_row (t_cursor t) - 1) t)) p)
    else teken_subr_do_scroll (- 1) p)"

definition teken_subr_secondary_device_attributes :: "int \<Rightarrow> process \<Rightarrow> process res" where
  "teken_subr_secondary_device_attributes request p =
    (if request = 0 then teken_funcs_respond (esc ''[>0;10;0c'') p else Inr p)"

definition teken_subr_set_dec_mode :: "int \<Rightarrow> process \<Rightarrow> process res" where
  "teken_subr_set_dec_mode cmd p =
    (if cmd = 1 then Inr (tk (flag_or TS_CURSORKEYS) p)
     else if cmd = 3 then bindR (teken_funcs_param TP_132COLS 1 p) teken_subr_reset_to_initial_state
     else if cmd = 6 then
       teken_funcs_cursor (tk (\<lambda>t. flag_andn TS_WRAPPED
         ((flag_or TS_ORIGIN t)\<lparr>t_originreg := t_scrollreg t,
           t_cursor := \<lparr>tp_row = ts_begin (t_scrollreg t), tp_col = 0\<rparr>\<rparr>)) p)
     else if cmd = 7 then Inr (tk (flag_or TS_AUTOWRAP) p)
     else if cmd = 8 then teken_funcs_param TP_AUTOREPEAT 1 p
     else if cmd = 25 then teken_funcs_param TP_SHOWCURSOR 1 p
     else if cmd = 1000 then teken_funcs_param TP_MOUSE 1 p
     else Inr p)"

definition teken_subr_set_mode :: "int \<Rightarrow> process \<Rightarrow> process res" where
  "teken_subr_set_mode cmd p = (if cmd = 4 then Inr (tk (flag_or TS_INSERT) p) else Inr p)"

subsection \<open>Attributes and margins\<close>

definition sgr_plain :: "int \<Rightarrow> teken \<Rightarrow> teken" where
  "sgr_plain n t = (let a = t_curattr t; d = t_defattr t in
    if n = 0 then t\<lparr>t_curattr := d\<rparr>
    else if n = 1 then t\<lparr>t_curattr := a\<lparr>ta_format := ta_format a OR TF_BOLD\<rparr>\<rparr>
    else if n = 4 then t\<lparr>t_curattr := a\<lparr>ta_format := ta_format a OR TF_UNDERLINE\<rparr>\<rparr>
    else if n = 5 then t\<lparr>t_curattr := a\<lparr>ta_format := ta_format a OR TF_BLINK\<rparr>\<rparr>
    else if n = 7 then t\<lparr>t_curattr := a\<lparr>ta_format := ta_format a OR TF_REVERSE\<rparr>\<rparr>
    else if n = 22 then t\<lparr>t_curattr := a\<lparr>ta_format := ta_format a AND NOT TF_BOLD\<rparr>\<rparr>
    else if n = 24 then t\<lparr>t_curattr := a\<lparr>ta_format := ta_format a AND NOT TF_UNDERLINE\<rparr>\<rparr>
    else if n = 25 then t\<lparr>t_curattr := a\<lparr>ta_format := ta_format a AND NOT TF_BLINK\<rparr>\<rparr>
    else if n = 27 then t\<lparr>t_curattr := a\<lparr>ta_format := ta_format a AND NOT TF_REVERSE\<rparr>\<rparr>
    else if 30 \<le> n \<and> n \<le> 37 then t\<lparr>t_curattr := a\<lparr>ta_fgcolor := of_int (n - 30)\<rparr>\<rparr>
    else if n = 39 then t\<lparr>t_curattr := a\<lparr>ta_fgcolor := ta_fgcolor d\<rparr>\<rparr>
    else if 40 \<le> n \<and> n \<le> 47 then t\<lparr>t_curattr := a\<lparr>ta_bgcolor := of_int (n - 40)\<rparr>\<rparr>
    else if n = 49 then t\<lparr>t_curattr := a\<lparr>ta_bgcolor := ta_bgcolor d\<rparr>\<rparr>
    else if 90 \<le> n \<and> n \<le> 97 then t\<lparr>t_curattr := a\<lparr>ta_fgcolor := of_int (n - 90 + 8)\<rparr>\<rparr>
    else if 100 \<le> n \<and> n \<le> 107 then t\<lparr>t_curattr := a\<lparr>ta_bgcolor := of_int (n - 100 + 8)\<rparr>\<rparr>
    else t)"

fun sgr_loop :: "int list \<Rightarrow> teken \<Rightarrow> teken" where
  "sgr_loop [] t = t"
| "sgr_loop (n # ns) t =
    (if n = 38 \<or> n = 48 then
       (case ns of
          m # c # rest \<Rightarrow>
            if m \<noteq> 5 then sgr_loop ns t
            else sgr_loop rest
              (if n = 38 then t\<lparr>t_curattr := (t_curattr t)\<lparr>ta_fgcolor := of_int c\<rparr>\<rparr>
               else t\<lparr>t_curattr := (t_curattr t)\<lparr>ta_bgcolor := of_int c\<rparr>\<rparr>)
        | _ \<Rightarrow> sgr_loop ns t)
     else sgr_loop ns (sgr_plain n t))"

definition teken_subr_set_graphic_rendition :: "nat \<Rightarrow> int list \<Rightarrow> process \<Rightarrow> process res" where
  "teken_subr_set_graphic_rendition ncmds cmds p =
    (if ncmds = 0 then Inr (tk (\<lambda>t. t\<lparr>t_curattr := t_defattr t\<rparr>) p)
     else guardR Undefined (ncmds \<le> length cmds) (Inr (tk (sgr_loop (take ncmds cmds)) p)))"

definition teken_subr_set_top_and_bottom_margins :: "int \<Rightarrow> int \<Rightarrow> process \<Rightarrow> process res" where
  "teken_subr_set_top_and_bottom_margins upper lower p =
    teken_funcs_cursor (tk (\<lambda>t.
      let h = tp_row (t_winsize t);
          top1 = (if upper > 0 then upper - 1 else upper);
          bot1 = (if lower = 0 \<or> lower > h then h else lower);
          bad = (top1 \<ge> U32 (bot1 - 1));
          reg = \<lparr>ts_begin = U16 (if bad then 0 else top1), ts_end = U16 (if bad then h else bot1)\<rparr>;
          t1 = t\<lparr>t_scrollreg := reg\<rparr>;
          t2 = (if flag t1 TS_ORIGIN then t1\<lparr>t_originreg := reg\<rparr> else t1)
      in flag_andn TS_WRAPPED (set_col 0 (set_row (ts_begin (t_originreg t2)) t2))) p)"

definition teken_subr_single_height_double_width_line :: "process \<Rightarrow> process res" where
  "teken_subr_single_height_double_width_line p = Inr p"

definition teken_subr_single_height_single_width_line :: "process \<Rightarrow> process res" where
  "teken_subr_single_height_single_width_line p = Inr p"

definition teken_subr_string_terminator :: "process \<Rightarrow> process res" where
  "teken_subr_string_terminator p = Inr p"

definition teken_subr_tab_clear :: "int \<Rightarrow> process \<Rightarrow> process res" where
  "teken_subr_tab_clear cmd p =
    (if cmd = 0 then on_tek (teken_tab_clear (tp_col (t_cursor (pr_tek p)))) p
     else if cmd = 3 then Inr (tk (\<lambda>t. t\<lparr>t_tabstops := replicate 5 0\<rparr>) p)
     else Inr p)"

definition teken_subr_vertical_position_absolute :: "int \<Rightarrow> process \<Rightarrow> process res" where
  "teken_subr_vertical_position_absolute row p =
    teken_funcs_cursor (tk (\<lambda>t. let r = U32 (row - 1 + ts_begin (t_originreg t)) in flag_andn TS_WRAPPED
      (set_row (if r < ts_end (t_originreg t) then r else ts_end (t_originreg t) - 1) t)) p)"

fun repeat_loop :: "nat \<Rightarrow> process \<Rightarrow> process res" where
  "repeat_loop 0 p = Inr p"
| "repeat_loop (Suc n) p =
    (if t_last (pr_tek p) \<noteq> 0
     then bindR (teken_subr_regular_character (t_last (pr_tek p)) p) (repeat_loop n) else Inr p)"

definition teken_subr_repeat_last_graphic_char :: "int \<Rightarrow> process \<Rightarrow> process res" where
  "teken_subr_repeat_last_graphic_char rpts p =
    (let m = tp_row (t_winsize (pr_tek p)) * tp_col (t_winsize (pr_tek p))
     in guardR Undefined (m < 2147483648) (repeat_loop (nat (if rpts > m then m else rpts)) p))"

subsection \<open>Cons25 compatibility\<close>

definition teken_subr_cons25_set_border :: "int \<Rightarrow> process \<Rightarrow> process res" where
  "teken_subr_cons25_set_border c = teken_funcs_param TP_SETBORDER c"

definition pack_cmds :: "int list \<Rightarrow> u32" where
  "pack_cmds cmds = foldr (\<lambda>c code. push_bit 8 code OR (of_int c AND 0xff)) cmds 0"

definition teken_subr_cons25_set_global_cursor_shape :: "nat \<Rightarrow> int list \<Rightarrow> process \<Rightarrow> process res" where
  "teken_subr_cons25_set_global_cursor_shape ncmds cmds p =
    (if ncmds > 3 then Inr p
     else guardR Undefined (ncmds \<le> length cmds)
       (teken_funcs_param TP_SETGLOBALCURSOR
         (uint (push_bit 8 (pack_cmds (take ncmds cmds)) OR of_nat ncmds)) p))"

definition teken_subr_cons25_set_local_cursor_type :: "int \<Rightarrow> process \<Rightarrow> process res" where
  "teken_subr_cons25_set_local_cursor_type ty = teken_funcs_param TP_SETLOCALCURSOR ty"

definition cons25_colors :: "byte list" where
  "cons25_colors = [0, 4, 2, 6, 1, 5, 3, 7]"

definition cons25_color :: "int \<Rightarrow> byte" where
  "cons25_color c = cons25_colors ! nat (c mod 8) OR (of_int c AND 8)"

definition teken_subr_cons25_set_default_background :: "int \<Rightarrow> process \<Rightarrow> process res" where
  "teken_subr_cons25_set_default_background c p =
    Inr (tk (\<lambda>t. t\<lparr>t_defattr := (t_defattr t)\<lparr>ta_bgcolor := cons25_color c\<rparr>,
                   t_curattr := (t_curattr t)\<lparr>ta_bgcolor := cons25_color c\<rparr>\<rparr>) p)"

definition teken_subr_cons25_set_default_foreground :: "int \<Rightarrow> process \<Rightarrow> process res" where
  "teken_subr_cons25_set_default_foreground c p =
    Inr (tk (\<lambda>t. t\<lparr>t_defattr := (t_defattr t)\<lparr>ta_fgcolor := cons25_color c\<rparr>,
                   t_curattr := (t_curattr t)\<lparr>ta_fgcolor := cons25_color c\<rparr>\<rparr>) p)"

definition cons25_revcolors :: "int list" where
  "cons25_revcolors = [0, 4, 2, 6, 1, 5, 3, 7]"

definition teken_get_defattr_cons25 :: "teken \<Rightarrow> (int \<times> int) res" where
  "teken_get_defattr_cons25 t =
    bindR (nthR cons25_revcolors (unat (teken_256to8 (ta_fgcolor (t_defattr t))))) (\<lambda>fg.
    bindR (nthR cons25_revcolors (unat (teken_256to8 (ta_bgcolor (t_defattr t))))) (\<lambda>bg.
      Inr (if ta_format (t_defattr t) AND TF_BOLD \<noteq> 0 then fg + 8 else fg, bg)))"

definition teken_subr_cons25_switch_virtual_terminal :: "int \<Rightarrow> process \<Rightarrow> process res" where
  "teken_subr_cons25_switch_virtual_terminal vt = teken_funcs_param TP_SWITCHVT vt"

definition teken_subr_cons25_set_bell_pitch_duration :: "int \<Rightarrow> int \<Rightarrow> process \<Rightarrow> process res" where
  "teken_subr_cons25_set_bell_pitch_duration pitch duration =
    teken_funcs_param TP_SETBELLPD (uint (push_bit 16 (of_int pitch :: u32) OR (of_int duration AND 0xffff)))"

definition teken_subr_cons25_set_graphic_rendition :: "int \<Rightarrow> int \<Rightarrow> process \<Rightarrow> process res" where
  "teken_subr_cons25_set_graphic_rendition cmd param p =
    (if cmd = 0 then Inr (tk (\<lambda>t. t\<lparr>t_curattr := t_defattr t\<rparr>) p) else Inr p)"

definition teken_subr_cons25_set_terminal_mode :: "int \<Rightarrow> process \<Rightarrow> process res" where
  "teken_subr_cons25_set_terminal_mode mode p =
    (if mode = 0 then Inr (tk (flag_andn TS_CONS25) p)
     else if mode = 1 then Inr (tk (flag_or TS_CONS25) p) else Inr p)"

end
