(* ===== verification/Teken_Safe.thy ===== *)
theory Teken_Safe
  imports Teken_Subr
begin

text \<open>
  Every subroutine of the terminal emulator keeps the invariant \<open>term_inv\<close> of \<open>Term_Inv\<close> and
  ends without a fault other than a short write: no assertion of the emulator or of the screen fails, no store leaves the
  screen, the loops over tab stops end.  The facts form the collection \<open>subr_ok\<close>.
\<close>

named_theorems subr_ok "subroutines that keep the terminal invariant"

lemma okT_on_tek [okT_intros]:
  "okT sw (\<lambda>t. P (p\<lparr>pr_tek := t\<rparr>)) (f (pr_tek p)) \<Longrightarrow> okT sw P (on_tek f p)"
  by (auto simp: on_tek_def okT_def okR_def)

lemma term_ok_vram [simp]:
  "term_inv sw k p \<Longrightarrow> vram_ok (pr_nlin p) (pr_ncol p) v \<Longrightarrow> term_inv sw k (p\<lparr>pr_vram := v\<rparr>)"
  by (simp add: term_inv_def term_ok_def screen_ok_def)

lemma scroll_ok:
  assumes "screen_ok p" "region_ok (pr_tek p)" "tp_row (t_cursor (pr_tek p)) \<le> tp_row (t_winsize (pr_tek p))"
    "amount \<noteq> 0" "\<bar>amount\<bar> < 2 ^ 31"
    and P: "\<And>v. vram_ok (pr_nlin p) (pr_ncol p) v \<Longrightarrow> P (p\<lparr>pr_vram := v\<rparr>)"
  shows "okT sw P (teken_subr_do_scroll amount p)"
  unfolding teken_subr_do_scroll_def Let_def
  by (intro okT_intros P)
    (use assms(1-5) in \<open>auto simp: term_ok_defs rect_ok_def P\<close>)

lemma backspace_ok [subr_ok]: "term_inv sw k p \<Longrightarrow> okT sw (term_inv sw k) (teken_subr_backspace p)"
  unfolding teken_subr_backspace_def Let_def tk_def
  by (intro okT_intros) (auto simp: term_ok_defs rect_ok_def split: if_splits)

lemma carriage_return_ok [subr_ok]: "term_inv sw k p \<Longrightarrow> okT sw (term_inv sw k) (teken_subr_carriage_return p)"
  unfolding teken_subr_carriage_return_def Let_def tk_def
  by (intro okT_intros) (auto simp: term_ok_defs rect_ok_def split: if_splits)

lemma alignment_test_ok [subr_ok]: "term_inv sw k p \<Longrightarrow> okT sw (term_inv sw k) (teken_subr_alignment_test p)"
  unfolding teken_subr_alignment_test_def Let_def tk_def
  by (intro okT_intros) (auto simp: term_ok_defs rect_ok_def split: if_splits)

lemma cursor_backward_ok [subr_ok]: "term_inv sw k p \<Longrightarrow> 1 \<le> n \<Longrightarrow> n < 2 ^ 30 \<Longrightarrow> okT sw (term_inv sw k) (teken_subr_cursor_backward n p)"
  unfolding teken_subr_cursor_backward_def Let_def tk_def
  by (intro okT_intros) (auto simp: term_ok_defs rect_ok_def split: if_splits)

lemma cursor_down_ok [subr_ok]: "term_inv sw k p \<Longrightarrow> 1 \<le> n \<Longrightarrow> n < 2 ^ 30 \<Longrightarrow> okT sw (term_inv sw k) (teken_subr_cursor_down n p)"
  unfolding teken_subr_cursor_down_def Let_def tk_def
  by (intro okT_intros) (auto simp: term_ok_defs rect_ok_def split: if_splits)

lemma cursor_forward_ok [subr_ok]: "term_inv sw k p \<Longrightarrow> 1 \<le> n \<Longrightarrow> n < 2 ^ 30 \<Longrightarrow> okT sw (term_inv sw k) (teken_subr_cursor_forward n p)"
  unfolding teken_subr_cursor_forward_def Let_def tk_def
  by (intro okT_intros) (auto simp: term_ok_defs rect_ok_def split: if_splits)

lemma cursor_up_ok [subr_ok]: "term_inv sw k p \<Longrightarrow> 1 \<le> n \<Longrightarrow> n < 2 ^ 30 \<Longrightarrow> okT sw (term_inv sw k) (teken_subr_cursor_up n p)"
  unfolding teken_subr_cursor_up_def Let_def tk_def
  by (intro okT_intros) (auto simp: term_ok_defs rect_ok_def split: if_splits)

lemma cursor_position_ok [subr_ok]: "term_inv sw k p \<Longrightarrow> 1 \<le> n \<Longrightarrow> n < 2 ^ 30 \<Longrightarrow> 1 \<le> m \<Longrightarrow> m < 2 ^ 30 \<Longrightarrow> okT sw (term_inv sw k) (teken_subr_cursor_position n m p)"
  unfolding teken_subr_cursor_position_def Let_def tk_def
  by (intro okT_intros) (auto simp: term_ok_defs rect_ok_def split: if_splits)

lemma horizontal_position_absolute_ok [subr_ok]: "term_inv sw k p \<Longrightarrow> 1 \<le> n \<Longrightarrow> n < 2 ^ 30 \<Longrightarrow> okT sw (term_inv sw k) (teken_subr_horizontal_position_absolute n p)"
  unfolding teken_subr_horizontal_position_absolute_def Let_def tk_def
  by (intro okT_intros) (auto simp: term_ok_defs rect_ok_def split: if_splits)

lemma vertical_position_absolute_ok [subr_ok]: "term_inv sw k p \<Longrightarrow> 1 \<le> n \<Longrightarrow> n < 2 ^ 30 \<Longrightarrow> okT sw (term_inv sw k) (teken_subr_vertical_position_absolute n p)"
  unfolding teken_subr_vertical_position_absolute_def Let_def tk_def
  by (intro okT_intros) (auto simp: term_ok_defs rect_ok_def split: if_splits)

lemma delete_character_ok [subr_ok]: "term_inv sw k p \<Longrightarrow> 1 \<le> n \<Longrightarrow> n < 2 ^ 30 \<Longrightarrow> okT sw (term_inv sw k) (teken_subr_delete_character n p)"
  unfolding teken_subr_delete_character_def Let_def tk_def
  by (intro okT_intros) (auto simp: term_ok_defs rect_ok_def split: if_splits)

lemma delete_line_ok [subr_ok]: "term_inv sw k p \<Longrightarrow> 1 \<le> n \<Longrightarrow> n < 2 ^ 30 \<Longrightarrow> okT sw (term_inv sw k) (teken_subr_delete_line n p)"
  unfolding teken_subr_delete_line_def Let_def tk_def
  by (intro okT_intros) (auto simp: term_ok_defs rect_ok_def split: if_splits)

lemma erase_character_ok [subr_ok]: "term_inv sw k p \<Longrightarrow> 1 \<le> n \<Longrightarrow> n < 2 ^ 30 \<Longrightarrow> okT sw (term_inv sw k) (teken_subr_erase_character n p)"
  unfolding teken_subr_erase_character_def Let_def tk_def
  by (intro okT_intros) (auto simp: term_ok_defs rect_ok_def split: if_splits)

lemma erase_line_ok [subr_ok]: "term_inv sw k p \<Longrightarrow> okT sw (term_inv sw k) (teken_subr_erase_line m p)"
  unfolding teken_subr_erase_line_def Let_def tk_def
  by (intro okT_intros) (auto simp: term_ok_defs rect_ok_def split: if_splits)

lemma insert_character_ok [subr_ok]: "term_inv sw k p \<Longrightarrow> 1 \<le> n \<Longrightarrow> n < 2 ^ 30 \<Longrightarrow> okT sw (term_inv sw k) (teken_subr_insert_character n p)"
  unfolding teken_subr_insert_character_def Let_def tk_def
  by (intro okT_intros) (auto simp: term_ok_defs rect_ok_def split: if_splits)

lemma insert_line_ok [subr_ok]: "term_inv sw k p \<Longrightarrow> 1 \<le> n \<Longrightarrow> n < 2 ^ 30 \<Longrightarrow> okT sw (term_inv sw k) (teken_subr_insert_line n p)"
  unfolding teken_subr_insert_line_def Let_def tk_def
  by (intro okT_intros) (auto simp: term_ok_defs rect_ok_def split: if_splits)

subsection \<open>Compositions\<close>

lemma set_col_0_ok [subr_ok]: "term_inv sw k p \<Longrightarrow> term_inv sw k (tk (set_col 0) p)"
  by (auto simp: tk_def term_ok_defs split: if_splits)

lemma cursor_next_line_ok [subr_ok]:
  "term_inv sw k p \<Longrightarrow> 1 \<le> n \<Longrightarrow> n < 2 ^ 30 \<Longrightarrow> okT sw (term_inv sw k) (teken_subr_cursor_next_line n p)"
  by (simp add: teken_subr_cursor_next_line_def subr_ok)

lemma cursor_previous_line_ok [subr_ok]:
  "term_inv sw k p \<Longrightarrow> 1 \<le> n \<Longrightarrow> n < 2 ^ 30 \<Longrightarrow> okT sw (term_inv sw k) (teken_subr_cursor_previous_line n p)"
  by (simp add: teken_subr_cursor_previous_line_def subr_ok)

lemma respond_ok [subr_ok]: "term_inv sw k p \<Longrightarrow> okT sw (term_inv sw k) (teken_funcs_respond buf p)"
  by (rule okT_respond) (auto simp: term_inv_def term_ok_def screen_ok_def)

lemma param_ok [subr_ok]: "term_inv sw k p \<Longrightarrow> okT sw (term_inv sw k) (teken_funcs_param prm v p)"
  by (rule okT_param)

lemma cursor_position_report_ok [subr_ok]:
  "term_inv sw k p \<Longrightarrow> okT sw (term_inv sw k) (teken_subr_cursor_position_report n p)"
  by (simp add: teken_subr_cursor_position_report_def subr_ok split: option.split)

lemma device_status_report_ok [subr_ok]:
  "term_inv sw k p \<Longrightarrow> okT sw (term_inv sw k) (teken_subr_device_status_report n p)"
  by (simp add: teken_subr_device_status_report_def subr_ok split: option.split)

lemma erase_display_ok [subr_ok]: "term_inv sw k p \<Longrightarrow> okT sw (term_inv sw k) (teken_subr_erase_display m p)"
  unfolding teken_subr_erase_display_def teken_subr_erase_line_def Let_def
  by (intro okT_intros) (auto simp: term_ok_defs rect_ok_def split: if_splits)

lemma pan_ok [subr_ok]:
  assumes "term_inv sw k p" "1 \<le> n" "n < 2 ^ 30"
  shows "okT sw (term_inv sw k) (teken_subr_pan_down n p)" "okT sw (term_inv sw k) (teken_subr_pan_up n p)"
  unfolding teken_subr_pan_down_def teken_subr_pan_up_def
  by (rule scroll_ok; use assms in \<open>auto simp: to_int32_def term_inv_def term_ok_def cursor_ok_def pos_ok_def screen_ok_def\<close>)+

lemma index_ok [subr_ok]: "term_inv sw k p \<Longrightarrow> okT sw (term_inv sw k) (teken_subr_index p)"
  unfolding teken_subr_index_def Let_def tk_def
  by (intro okT_intros scroll_ok) (auto simp: term_ok_defs split: if_splits)

lemma reverse_index_ok [subr_ok]: "term_inv sw k p \<Longrightarrow> okT sw (term_inv sw k) (teken_subr_reverse_index p)"
  unfolding teken_subr_reverse_index_def Let_def tk_def
  by (intro okT_intros scroll_ok) (auto simp: term_ok_defs split: if_splits)

lemma newline_ok [subr_ok]: "term_inv sw k p \<Longrightarrow> okT sw (term_inv sw k) (teken_subr_newline p)"
  unfolding teken_subr_newline_def Let_def tk_def
  by (intro okT_intros scroll_ok) (auto simp: term_ok_defs split: if_splits)

lemma next_line_ok [subr_ok]: "term_inv sw k p \<Longrightarrow> okT sw (term_inv sw k) (teken_subr_next_line p)"
  by (simp add: teken_subr_next_line_def subr_ok)

lemma newpage_ok [subr_ok]: "term_inv sw k p \<Longrightarrow> okT sw (term_inv sw k) (teken_subr_newpage p)"
  unfolding teken_subr_newpage_def Let_def
  by (rule okT_if, unfold tk_def, intro okT_intros, auto simp: subr_ok)
    (auto simp: term_ok_defs rect_ok_def split: if_splits)

subsection \<open>Tabulation\<close>

definition col_moved :: "teken \<Rightarrow> teken \<Rightarrow> bool" where
  "col_moved t t' = (\<exists>c. 0 \<le> c \<and> c < tp_col (t_winsize t) \<and> t' = t\<lparr>t_cursor := (t_cursor t)\<lparr>tp_col := c\<rparr>\<rparr>)"

lemma col_moved_refl: "0 \<le> tp_col (t_cursor t) \<Longrightarrow> tp_col (t_cursor t) < tp_col (t_winsize t) \<Longrightarrow> col_moved t t"
  by (auto simp: col_moved_def intro!: exI [of _ "tp_col (t_cursor t)"])

lemma col_moved_trans:
  "col_moved t u \<Longrightarrow> col_moved u v \<Longrightarrow> col_moved t v"
  by (auto simp: col_moved_def)

lemma col_moved_set: "0 \<le> c \<Longrightarrow> c < tp_col (t_winsize t) \<Longrightarrow> c < 65536 \<Longrightarrow> col_moved t (set_col c t)"
  by (auto simp: col_moved_def set_col_def)

lemma forward_tab_loop_ok:
  assumes "0 \<le> tp_col (t_cursor t)" "tp_col (t_cursor t) < tp_col (t_winsize t)" "tp_col (t_winsize t) \<le> 65535"
    "length (t_tabstops t) = 5" "tp_col (t_winsize t) - tp_col (t_cursor t) \<le> int fuel"
  shows "okR (col_moved t) (forward_tab_loop fuel n t)"
  using assms
proof (induction fuel arbitrary: n t)
  case 0
  then show ?case by simp
next
  case (Suc fuel)
  let ?c = "tp_col (t_cursor t)" and ?t = "set_col (tp_col (t_cursor t) + 1) t"
  show ?case
  proof (cases "?c = tp_col (t_winsize t) - 1")
    case True
    then show ?thesis using Suc.prems by (simp add: col_moved_refl)
  next
    case False
    have c: "tp_col (t_cursor ?t) = ?c + 1" "t_winsize ?t = t_winsize t" "t_tabstops ?t = t_tabstops t"
      using Suc.prems False by (auto simp: set_col_def)
    have m: "col_moved t ?t" by (rule col_moved_set) (use Suc.prems False in auto)
    have "okR (col_moved t) (forward_tab_loop fuel m ?t)" for m
      by (rule okR_mono [OF Suc.IH]) (use Suc.prems False c in \<open>auto intro: col_moved_trans m\<close>)
    then have "okR (\<lambda>b. okR (col_moved t) (let n = (if b then U32 (n - 1) else n) in
        if n > 0 then forward_tab_loop fuel n ?t else Inr ?t)) (teken_tab_isset ?t (?c + 1))"
      by (intro okR_intros) (use Suc.prems c m in auto)
    then show ?thesis using False c by (simp add: okR_bind Let_def)
  qed
qed

lemma back_tab_loop_ok:
  assumes "0 \<le> tp_col (t_cursor t)" "tp_col (t_cursor t) < tp_col (t_winsize t)" "tp_col (t_winsize t) \<le> 65535"
    "length (t_tabstops t) = 5" "tp_col (t_cursor t) < int fuel"
  shows "okR (col_moved t) (back_tab_loop fuel n t)"
  using assms
proof (induction fuel arbitrary: n t)
  case 0
  then show ?case by simp
next
  case (Suc fuel)
  let ?c = "tp_col (t_cursor t)" and ?t = "set_col (tp_col (t_cursor t) - 1) t"
  show ?case
  proof (cases "?c = 0")
    case True
    then show ?thesis using Suc.prems by (simp add: col_moved_refl)
  next
    case False
    have c: "tp_col (t_cursor ?t) = ?c - 1" "t_winsize ?t = t_winsize t" "t_tabstops ?t = t_tabstops t"
      using Suc.prems False by (auto simp: set_col_def)
    have m: "col_moved t ?t" by (rule col_moved_set) (use Suc.prems False in auto)
    have "okR (col_moved t) (back_tab_loop fuel m ?t)" for m
      by (rule okR_mono [OF Suc.IH]) (use Suc.prems False c in \<open>auto intro: col_moved_trans m\<close>)
    then have "okR (\<lambda>b. okR (col_moved t) (let n = (if b then U32 (n - 1) else n) in
        if n > 0 then back_tab_loop fuel n ?t else Inr ?t)) (teken_tab_isset ?t (?c - 1))"
      by (intro okR_intros) (use Suc.prems False c m in auto)
    then show ?thesis using False c by (simp add: okR_bind Let_def)
  qed
qed

lemma col_moved_ok:
  assumes "term_inv sw k p" "okT sw (col_moved (pr_tek p)) (f (pr_tek p))"
  shows "okT sw (term_inv sw k) (bindR (on_tek f p) teken_funcs_cursor)"
proof (rule okT_chain)
  show "okT sw (term_inv sw k) (on_tek f p)"
    using assms by (intro okT_on_tek, elim okT_mono) (auto simp: col_moved_def term_ok_defs split: if_splits)
  show "okT sw (term_inv sw k) (teken_funcs_cursor q)" if "term_inv sw k q" for q
    by (rule okT_cursor) (use that in \<open>auto simp: term_ok_defs\<close>)
qed

lemma tabulation_ok [subr_ok]:
  assumes "term_inv sw k p"
  shows "okT sw (term_inv sw k) (teken_subr_cursor_forward_tabulation n p)"
    "okT sw (term_inv sw k) (teken_subr_cursor_backward_tabulation n p)"
  unfolding teken_subr_cursor_forward_tabulation_def teken_subr_cursor_backward_tabulation_def
  using assms
  by (auto intro!: col_moved_ok forward_tab_loop_ok [THEN okT_I] back_tab_loop_ok [THEN okT_I] simp: term_ok_defs)

lemma horizontal_tab_ok [subr_ok]: "term_inv sw k p \<Longrightarrow> okT sw (term_inv sw k) (teken_subr_horizontal_tab p)"
  by (simp add: teken_subr_horizontal_tab_def subr_ok)

lemma horizontal_tab_set_ok [subr_ok]: "term_inv sw k p \<Longrightarrow> okT sw (term_inv sw k) (teken_subr_horizontal_tab_set p)"
  unfolding teken_subr_horizontal_tab_set_def
  by (intro okT_intros) (auto simp: term_ok_defs split: if_splits)

lemma tab_clear_ok [subr_ok]: "term_inv sw k p \<Longrightarrow> okT sw (term_inv sw k) (teken_subr_tab_clear n p)"
  unfolding teken_subr_tab_clear_def tk_def
  by (intro okT_intros) (auto simp: term_ok_defs split: if_splits)

subsection \<open>Printing characters\<close>

lemma do_putchar_ok:
  assumes "screen_ok p" "pos_ok (pr_nlin p) (pr_ncol p) tp" "width = 1 \<or> width = 2"
    and P: "\<And>v. vram_ok (pr_nlin p) (pr_ncol p) v \<Longrightarrow>
      P (p\<lparr>pr_tek := (pr_tek p)\<lparr>t_last := c\<rparr>, pr_vram := v\<rparr>)"
  shows "okT sw P (teken_subr_do_putchar tp c width p)"
proof -
  have v: "vram_ok (pr_nlin p) (pr_ncol p) (pr_vram p)" using assms(1) by (simp add: screen_ok_def)
  show ?thesis
    unfolding teken_subr_do_putchar_def Let_def tk_def
    by (intro okT_intros)
      (use assms(1-3) P v P [OF v] in \<open>auto simp: screen_ok_def pos_ok_def rect_ok_def mk_pos_def\<close>)
qed

lemma put_here_ok [subr_ok]:
  assumes "term_inv sw k p" "width = 1 \<or> width = 2"
  shows "okT sw (term_inv sw k) (put_here c width p)"
  unfolding put_here_def tk_def Let_def
  by (intro okT_bind do_putchar_ok okT_cursor)
    (use assms U16_range [of "tp_col (t_cursor (pr_tek p)) + width"] in
      \<open>auto simp: term_ok_defs split: if_splits\<close>)

lemma put_wrapped_ok [subr_ok]:
  assumes "term_inv sw k p" "width = 1 \<or> width = 2"
  shows "okT sw (term_inv sw k) (put_wrapped c width p)"
  unfolding put_wrapped_def tk_def Let_def
  by (intro okT_if okT_bind do_putchar_ok okT_cursor scroll_ok)
    (use assms in \<open>auto simp: term_ok_defs split: if_splits\<close>)

lemma put_cons25_ok [subr_ok]:
  assumes "term_inv sw k p" "width = 1 \<or> width = 2"
  shows "okT sw (term_inv sw k) (put_cons25 c width p)"
  unfolding put_cons25_def tk_def Let_def
  by (intro okT_if okT_bind okT_Inr do_putchar_ok okT_cursor scroll_ok)
    (use assms U16_range [of "tp_col (t_cursor (pr_tek p)) + width"] in
      \<open>auto simp: term_ok_defs split: if_splits\<close>)

lemma put_sized_ok [subr_ok]:
  assumes "term_inv sw k p" "width = 1 \<or> width = 2"
  shows "okT sw (term_inv sw k) (put_sized c width p)"
  using assms by (simp add: put_sized_def Let_def subr_ok)

lemma scs_process_ok: "t_curscs t < length (t_scs t) \<Longrightarrow> \<exists>c'. teken_scs_process t c = Inr c'"
  by (auto simp: teken_scs_process_def teken_scs_special_graphics_def teken_scs_uk_national_def
      teken_scs_us_ascii_def teken_boxdrawing_unicode_def teken_boxdrawing_8bit_def split: teken_scs.split)

lemma regular_character_ok [subr_ok]:
  assumes "term_inv sw k p"
  shows "okT sw (term_inv sw k) (teken_subr_regular_character c p)"
proof -
  obtain c' where c': "teken_scs_process (pr_tek p) c = Inr c'"
    using scs_process_ok [of "pr_tek p" c] assms by (auto simp: term_inv_def term_ok_def table_ok_def)
  obtain w where w: "teken_wcwidth c' = Inr w" "w \<le> 2" using wcwidth_total by blast
  then have "\<not> w \<le> 0 \<Longrightarrow> w = 1 \<or> w = 2" by linarith
  then show ?thesis
    using assms c' w by (auto simp: teken_subr_regular_character_def Let_def subr_ok)
qed

lemma repeat_loop_ok: "term_inv sw k p \<Longrightarrow> okT sw (term_inv sw k) (repeat_loop n p)"
proof (induction n arbitrary: p)
  case (Suc n)
  then show ?case by (auto intro: okT_chain [OF regular_character_ok])
qed simp

lemma repeat_last_graphic_char_ok [subr_ok]:
  "term_inv sw k p \<Longrightarrow> okT sw (term_inv sw k) (teken_subr_repeat_last_graphic_char n p)"
  by (simp add: teken_subr_repeat_last_graphic_char_def Let_def repeat_loop_ok term_inv_def term_ok_def screen_ok_def)

subsection \<open>Modes, margins and attributes\<close>

lemma do_reset_term_ok:
  assumes "term_inv sw k p"
  shows "okT sw (term_inv sw k) (on_tek teken_subr_do_reset p)"
proof -
  have "okT sw (\<lambda>t'. region_ok t' \<and> cursor_ok t' \<and> table_ok t' \<and> t_winsize t' = t_winsize (pr_tek p) \<and>
      t_curnum t' = t_curnum (pr_tek p)) (teken_subr_do_reset (pr_tek p))"
    by (rule do_reset_ok [THEN okT_I]) (use assms in \<open>auto simp: term_ok_defs\<close>)
  then show ?thesis
    by (intro okT_on_tek, elim okT_mono) (use assms in \<open>auto simp: term_inv_def term_ok_def screen_ok_def\<close>)
qed

lemma cursor_ok_term: "term_inv sw k p \<Longrightarrow> okT sw (term_inv sw k) (teken_funcs_cursor p)"
  by (rule okT_cursor) (auto simp: term_ok_defs)

lemma reset_to_initial_state_ok [subr_ok]:
  "term_inv sw k p \<Longrightarrow> okT sw (term_inv sw k) (teken_subr_reset_to_initial_state p)"
  unfolding teken_subr_reset_to_initial_state_def
  by (intro okT_chain [OF do_reset_term_ok] okT_chain [OF erase_display_ok] okT_chain [OF param_ok] cursor_ok_term)

lemma dec_mode_flags:
  assumes "term_inv sw k p"
  shows "term_inv sw k (tk (flag_or TS_CURSORKEYS) p)" "term_inv sw k (tk (flag_andn TS_CURSORKEYS) p)"
    "term_inv sw k (tk (flag_or TS_AUTOWRAP) p)" "term_inv sw k (tk (flag_andn TS_AUTOWRAP) p)"
    "term_inv sw k (tk (flag_or TS_INSERT) p)" "term_inv sw k (tk (flag_andn TS_INSERT) p)"
    "term_inv sw k (tk (flag_or TS_CONS25) p)" "term_inv sw k (tk (flag_andn TS_CONS25) p)"
    "term_inv sw k (tk (flag_or TS_INSTRING) p)" "term_inv sw k (tk (flag_andn TS_INSTRING) p)"
  using assms by (auto simp: tk_def term_ok_defs split: if_splits)

lemma reset_dec_mode_ok [subr_ok]: "term_inv sw k p \<Longrightarrow> okT sw (term_inv sw k) (teken_subr_reset_dec_mode n p)"
  unfolding teken_subr_reset_dec_mode_def
  by (intro okT_if okT_Inr okT_chain [OF param_ok] reset_to_initial_state_ok param_ok dec_mode_flags okT_cursor)
    (auto simp: tk_def term_ok_defs split: if_splits)

lemma set_dec_mode_ok [subr_ok]: "term_inv sw k p \<Longrightarrow> okT sw (term_inv sw k) (teken_subr_set_dec_mode n p)"
  unfolding teken_subr_set_dec_mode_def
  by (intro okT_if okT_Inr okT_chain [OF param_ok] reset_to_initial_state_ok param_ok dec_mode_flags okT_cursor)
    (auto simp: tk_def term_ok_defs split: if_splits)

lemma mode_ok [subr_ok]:
  "term_inv sw k p \<Longrightarrow> okT sw (term_inv sw k) (teken_subr_reset_mode n p)"
  "term_inv sw k p \<Longrightarrow> okT sw (term_inv sw k) (teken_subr_set_mode n p)"
  by (simp_all add: teken_subr_reset_mode_def teken_subr_set_mode_def dec_mode_flags)

lemma restore_cursor_ok [subr_ok]: "term_inv sw k p \<Longrightarrow> okT sw (term_inv sw k) (teken_subr_restore_cursor p)"
  unfolding teken_subr_restore_cursor_def Let_def
  by (intro okT_intros) (auto simp: term_ok_defs split: if_splits)

lemma save_cursor_ok [subr_ok]: "term_inv sw k p \<Longrightarrow> okT sw (term_inv sw k) (on_tek teken_subr_save_cursor p)"
  unfolding teken_subr_save_cursor_def
  by (intro okT_intros) (auto simp: term_ok_defs split: if_splits)

lemma margins_ok [subr_ok]:
  "term_inv sw k p \<Longrightarrow> 0 \<le> n \<Longrightarrow> n < 2 ^ 30 \<Longrightarrow> 0 \<le> m \<Longrightarrow> m < 2 ^ 30 \<Longrightarrow>
   okT sw (term_inv sw k) (teken_subr_set_top_and_bottom_margins n m p)"
  unfolding teken_subr_set_top_and_bottom_margins_def Let_def tk_def
  by (intro okT_cursor) (auto simp: term_ok_defs split: if_splits)

lemma set_scs_ok: "i < 2 \<Longrightarrow> term_inv sw k p \<Longrightarrow> okT sw (term_inv sw k) (set_scs i s p)"
  unfolding set_scs_def
  by (intro okT_intros) (auto simp: term_ok_defs split: if_splits)

lemma scs_ok [subr_ok]:
  assumes "term_inv sw k p"
  shows "okT sw (term_inv sw k) (teken_subr_g0_scs_special_graphics p)" "okT sw (term_inv sw k) (teken_subr_g0_scs_uk_national p)"
    "okT sw (term_inv sw k) (teken_subr_g0_scs_us_ascii p)" "okT sw (term_inv sw k) (teken_subr_g1_scs_special_graphics p)"
    "okT sw (term_inv sw k) (teken_subr_g1_scs_uk_national p)" "okT sw (term_inv sw k) (teken_subr_g1_scs_us_ascii p)"
  using assms
  by (simp_all add: teken_subr_g0_scs_special_graphics_def teken_subr_g0_scs_uk_national_def
      teken_subr_g0_scs_us_ascii_def teken_subr_g1_scs_special_graphics_def teken_subr_g1_scs_uk_national_def
      teken_subr_g1_scs_us_ascii_def set_scs_ok)

text \<open>The attributes are not part of the invariant.\<close>

lemma attr_ok [simp]:
  "term_inv sw k (p\<lparr>pr_tek := (t\<lparr>t_curattr := a\<rparr>)\<rparr>) = term_inv sw k (p\<lparr>pr_tek := t\<rparr>)"
  "term_inv sw k (p\<lparr>pr_tek := (t\<lparr>t_defattr := a\<rparr>)\<rparr>) = term_inv sw k (p\<lparr>pr_tek := t\<rparr>)"
  by (simp_all add: term_inv_def term_ok_parts)

lemma sgr_loop_ok: "term_inv sw k (p\<lparr>pr_tek := sgr_loop ns t\<rparr>) = term_inv sw k (p\<lparr>pr_tek := t\<rparr>)"
proof (induction ns t rule: sgr_loop.induct)
  case (2 n ns t)
  have "term_inv sw k (p\<lparr>pr_tek := sgr_plain n t\<rparr>) = term_inv sw k (p\<lparr>pr_tek := t\<rparr>)"
    by (simp add: sgr_plain_def Let_def)
  then show ?case using 2 by (auto split: list.split)
qed simp

lemma set_graphic_rendition_ok [subr_ok]:
  "term_inv sw k p \<Longrightarrow> n \<le> length ns \<Longrightarrow> okT sw (term_inv sw k) (teken_subr_set_graphic_rendition n ns p)"
  by (simp add: teken_subr_set_graphic_rendition_def tk_def sgr_loop_ok)

lemma misc_ok [subr_ok]:
  assumes "term_inv sw k p"
  shows "okT sw (term_inv sw k) (teken_subr_device_control_string p)"
    "okT sw (term_inv sw k) (teken_subr_operating_system_command p)"
    "okT sw (term_inv sw k) (teken_subr_string_terminator p)"
    "okT sw (term_inv sw k) (teken_subr_bell p)"
    "okT sw (term_inv sw k) (teken_subr_set_cursor_style n p)"
    "okT sw (term_inv sw k) (teken_subr_double_height_double_width_line_top p)"
    "okT sw (term_inv sw k) (teken_subr_double_height_double_width_line_bottom p)"
    "okT sw (term_inv sw k) (teken_subr_single_height_double_width_line p)"
    "okT sw (term_inv sw k) (teken_subr_single_height_single_width_line p)"
    "okT sw (term_inv sw k) (teken_subr_keypad_application_mode p)"
    "okT sw (term_inv sw k) (teken_subr_keypad_numeric_mode p)"
    "okT sw (term_inv sw k) (teken_subr_primary_device_attributes n p)"
    "okT sw (term_inv sw k) (teken_subr_secondary_device_attributes n p)"
  using assms
  by (simp_all add: teken_subr_device_control_string_def teken_subr_operating_system_command_def
      teken_subr_string_terminator_def teken_subr_bell_def teken_funcs_bell_def teken_subr_set_cursor_style_def
      teken_subr_double_height_double_width_line_top_def teken_subr_double_height_double_width_line_bottom_def
      teken_subr_single_height_double_width_line_def teken_subr_single_height_single_width_line_def
      teken_subr_keypad_application_mode_def teken_subr_keypad_numeric_mode_def
      teken_subr_primary_device_attributes_def teken_subr_secondary_device_attributes_def
      dec_mode_flags param_ok respond_ok)

lemma cons25_ok [subr_ok]:
  assumes "term_inv sw k p"
  shows "okT sw (term_inv sw k) (teken_subr_cons25_set_border n p)"
    "okT sw (term_inv sw k) (teken_subr_cons25_set_local_cursor_type n p)"
    "okT sw (term_inv sw k) (teken_subr_cons25_set_default_background n p)"
    "okT sw (term_inv sw k) (teken_subr_cons25_set_default_foreground n p)"
    "okT sw (term_inv sw k) (teken_subr_cons25_switch_virtual_terminal n p)"
    "okT sw (term_inv sw k) (teken_subr_cons25_set_bell_pitch_duration n m p)"
    "okT sw (term_inv sw k) (teken_subr_cons25_set_graphic_rendition n m p)"
    "okT sw (term_inv sw k) (teken_subr_cons25_set_terminal_mode n p)"
    "j \<le> length ns \<Longrightarrow> okT sw (term_inv sw k) (teken_subr_cons25_set_global_cursor_shape j ns p)"
  using assms
  by (simp_all add: teken_subr_cons25_set_border_def teken_subr_cons25_set_local_cursor_type_def
      teken_subr_cons25_set_default_background_def teken_subr_cons25_set_default_foreground_def
      teken_subr_cons25_switch_virtual_terminal_def teken_subr_cons25_set_bell_pitch_duration_def
      teken_subr_cons25_set_graphic_rendition_def teken_subr_cons25_set_terminal_mode_def
      teken_subr_cons25_set_global_cursor_shape_def dec_mode_flags param_ok) (simp_all add: tk_def)

end
