(* ===== verification/Teken.thy ===== *)
theory Teken
  imports Teken_Safe
begin

text \<open>
  The input side of the terminal emulator, \<open>src/src/teken.c\<close>: UTF-8 decoding, control characters
  and the escape sequence parser.

  The parser is generated: \<open>src/src/gensequences\<close> prints one C function per proper prefix of the
  escape sequences that \<open>src/src/sequences\<close> lists.  The table is \<open>sequences\<close> here, and
  \<open>teken_state pre\<close> is the function that the script prints for the prefix \<open>pre\<close>.
\<close>

subsection \<open>The table of escape sequences\<close>

text \<open>A command with its arguments: none, \<open>n\<close>, \<open>n n\<close>, \<open>r\<close>, \<open>r r\<close> or \<open>v\<close>.\<close>

datatype seq_call =
    Call0 "process \<Rightarrow> process res"
  | CallN "int \<Rightarrow> process \<Rightarrow> process res"
  | CallNN "int \<Rightarrow> int \<Rightarrow> process \<Rightarrow> process res"
  | CallR "int \<Rightarrow> process \<Rightarrow> process res"
  | CallRR "int \<Rightarrow> int \<Rightarrow> process \<Rightarrow> process res"
  | CallV "nat \<Rightarrow> int list \<Rightarrow> process \<Rightarrow> process res"

definition esc_seq :: "string \<Rightarrow> seq_call \<Rightarrow> int list \<times> seq_call" where
  "esc_seq s call = (0x1b # map of_char s, call)"

definition sequences :: "(int list \<times> seq_call) list" where
  "sequences = [
   esc_seq ''[Z'' (CallN teken_subr_cursor_backward_tabulation),
   esc_seq ''[I'' (CallN teken_subr_cursor_forward_tabulation),
   esc_seq ''[E'' (CallN teken_subr_cursor_next_line),
   esc_seq ''[F'' (CallN teken_subr_cursor_previous_line),
   esc_seq ''[n'' (CallR teken_subr_cursor_position_report),
   esc_seq ''[D'' (CallN teken_subr_cursor_backward),
   esc_seq ''[B'' (CallN teken_subr_cursor_down),
   esc_seq ''[e'' (CallN teken_subr_cursor_down),
   esc_seq ''[C'' (CallN teken_subr_cursor_forward),
   esc_seq ''[a'' (CallN teken_subr_cursor_forward),
   esc_seq ''[H'' (CallNN teken_subr_cursor_position),
   esc_seq ''[f'' (CallNN teken_subr_cursor_position),
   esc_seq ''[A'' (CallN teken_subr_cursor_up),
   esc_seq ''[c'' (CallR teken_subr_primary_device_attributes),
   esc_seq ''[>c'' (CallR teken_subr_secondary_device_attributes),
   esc_seq ''[P'' (CallN teken_subr_delete_character),
   esc_seq ''P'' (Call0 teken_subr_device_control_string),
   esc_seq ''#8'' (Call0 teken_subr_alignment_test),
   esc_seq ''#3'' (Call0 teken_subr_double_height_double_width_line_top),
   esc_seq ''#4'' (Call0 teken_subr_double_height_double_width_line_bottom),
   esc_seq ''#6'' (Call0 teken_subr_single_height_double_width_line),
   esc_seq ''='' (Call0 teken_subr_keypad_application_mode),
   esc_seq ''>'' (Call0 teken_subr_keypad_numeric_mode),
   esc_seq ''8'' (Call0 teken_subr_restore_cursor),
   esc_seq ''[u'' (Call0 teken_subr_restore_cursor),
   esc_seq ''[?l'' (CallR teken_subr_reset_dec_mode),
   esc_seq ''7'' (Call0 (on_tek teken_subr_save_cursor)),
   esc_seq ''[s'' (Call0 (on_tek teken_subr_save_cursor)),
   esc_seq ''[ q'' (CallR teken_subr_set_cursor_style),
   esc_seq ''[?h'' (CallR teken_subr_set_dec_mode),
   esc_seq ''[r'' (CallRR teken_subr_set_top_and_bottom_margins),
   esc_seq ''#5'' (Call0 teken_subr_single_height_single_width_line),
   esc_seq ''[M'' (CallN teken_subr_delete_line),
   esc_seq ''[?n'' (CallR teken_subr_device_status_report),
   esc_seq ''[X'' (CallN teken_subr_erase_character),
   esc_seq ''[J'' (CallR teken_subr_erase_display),
   esc_seq ''[K'' (CallR teken_subr_erase_line),
   esc_seq ''(0'' (Call0 teken_subr_g0_scs_special_graphics),
   esc_seq ''(1'' (Call0 teken_subr_g0_scs_us_ascii),
   esc_seq ''(2'' (Call0 teken_subr_g0_scs_special_graphics),
   esc_seq ''(A'' (Call0 teken_subr_g0_scs_uk_national),
   esc_seq ''(B'' (Call0 teken_subr_g0_scs_us_ascii),
   esc_seq '')0'' (Call0 teken_subr_g1_scs_special_graphics),
   esc_seq '')1'' (Call0 teken_subr_g1_scs_us_ascii),
   esc_seq '')2'' (Call0 teken_subr_g1_scs_special_graphics),
   esc_seq '')A'' (Call0 teken_subr_g1_scs_uk_national),
   esc_seq '')B'' (Call0 teken_subr_g1_scs_us_ascii),
   esc_seq ''[G'' (CallN teken_subr_horizontal_position_absolute),
   esc_seq [CHR 0x5b, CHR 0x60] (CallN teken_subr_horizontal_position_absolute),
   esc_seq ''H'' (Call0 teken_subr_horizontal_tab_set),
   esc_seq ''[@'' (CallN teken_subr_insert_character),
   esc_seq ''[L'' (CallN teken_subr_insert_line),
   esc_seq ''D'' (Call0 teken_subr_index),
   esc_seq ''E'' (Call0 teken_subr_next_line),
   esc_seq '']'' (Call0 teken_subr_operating_system_command),
   esc_seq ''M'' (Call0 teken_subr_reverse_index),
   esc_seq ''c'' (Call0 teken_subr_reset_to_initial_state),
   esc_seq ''[l'' (CallR teken_subr_reset_mode),
   esc_seq ''[T'' (CallN teken_subr_pan_up),
   esc_seq ''[m'' (CallV teken_subr_set_graphic_rendition),
   esc_seq ''[h'' (CallR teken_subr_set_mode),
   esc_seq [CHR 0x5c] (Call0 teken_subr_string_terminator),
   esc_seq ''[S'' (CallN teken_subr_pan_down),
   esc_seq ''[g'' (CallR teken_subr_tab_clear),
   esc_seq ''[d'' (CallN teken_subr_vertical_position_absolute),
   esc_seq ''[=B'' (CallRR teken_subr_cons25_set_bell_pitch_duration),
   esc_seq ''[=A'' (CallR teken_subr_cons25_set_border),
   esc_seq ''[=G'' (CallR teken_subr_cons25_set_default_background),
   esc_seq ''[=F'' (CallR teken_subr_cons25_set_default_foreground),
   esc_seq ''[=C'' (CallV teken_subr_cons25_set_global_cursor_shape),
   esc_seq ''[=S'' (CallR teken_subr_cons25_set_local_cursor_type),
   esc_seq ''[=T'' (CallR teken_subr_cons25_set_terminal_mode),
   esc_seq ''[x'' (CallRR teken_subr_cons25_set_graphic_rendition),
   esc_seq ''[z'' (CallR teken_subr_cons25_switch_virtual_terminal),
   esc_seq ''[b'' (CallN teken_subr_repeat_last_graphic_char)
  ]"

subsection \<open>The generated state functions\<close>

definition arg_n :: "nat \<Rightarrow> teken \<Rightarrow> int res" where
  "arg_n i t = (if t_curnum t < i + 1 then Inr 1
    else bindR (nthR (t_nums t) i) (\<lambda>v. Inr (if v = 0 then 1 else v)))"

definition arg_r :: "nat \<Rightarrow> teken \<Rightarrow> int res" where
  "arg_r i t = (if t_curnum t < i + 1 then Inr 0 else nthR (t_nums t) i)"

definition run_call :: "seq_call \<Rightarrow> process \<Rightarrow> process res" where
  "run_call call p = (let t = pr_tek p in case call of
      Call0 f \<Rightarrow> f p
    | CallN f \<Rightarrow> bindR (arg_n 0 t) (\<lambda>a. f a p)
    | CallNN f \<Rightarrow> bindR (arg_n 0 t) (\<lambda>a. bindR (arg_n 1 t) (\<lambda>b. f a b p))
    | CallR f \<Rightarrow> bindR (arg_r 0 t) (\<lambda>a. f a p)
    | CallRR f \<Rightarrow> bindR (arg_r 0 t) (\<lambda>a. bindR (arg_r 1 t) (\<lambda>b. f a b p))
    | CallV f \<Rightarrow> f (t_curnum t) (t_nums t) p)"

definition is_state :: "int list \<Rightarrow> bool" where
  "is_state pre = list_ex (\<lambda>(s, _). length pre < length s \<and> take (length pre) s = pre) sequences"

definition number_cmds :: "int list \<Rightarrow> bool" where
  "number_cmds pre =
    list_ex (\<lambda>(s, call). butlast s = pre \<and> (case call of Call0 _ \<Rightarrow> False | _ \<Rightarrow> True)) sequences"

definition store_num :: "int \<Rightarrow> teken \<Rightarrow> teken res" where
  "store_num v t = bindR (updR (t_nums t) (t_curnum t) v) (\<lambda>ns. Inr (t\<lparr>t_nums := ns\<rparr>))"

definition teken_state_numbers :: "int \<Rightarrow> teken \<Rightarrow> (bool \<times> teken) res" where
  "teken_state_numbers c t =
    guardR AssertFail (t_curnum t < T_NUMSIZE)
    (if 0x30 \<le> c \<and> c \<le> 0x39 then
       (if flag t TS_FIRSTDIGIT then
          bindR (store_num (c - 0x30) (flag_andn TS_FIRSTDIGIT t)) (\<lambda>t. Inr (True, t))
        else
          bindR (nthR (t_nums t) (t_curnum t)) (\<lambda>v.
            if v < 4294967295 div 100
            then bindR (store_num (U32 (v * 10 + c - 0x30)) t) (\<lambda>t. Inr (True, t))
            else Inr (True, t)))
     else if c = 0x3b then
       bindR (if flag t TS_FIRSTDIGIT then store_num 0 t else Inr t) (\<lambda>t.
         let t1 = t\<lparr>t_curnum := t_curnum t + 1\<rparr> in
         if t_curnum t1 = T_NUMSIZE then Inr (True, teken_state_switch [] t1)
         else Inr (True, flag_or TS_FIRSTDIGIT t1))
     else
       (if flag t TS_FIRSTDIGIT \<and> t_curnum t > 0
        then bindR (store_num 0 t) (\<lambda>t. Inr (False, t\<lparr>t_curnum := t_curnum t + 1\<rparr>))
        else if \<not> flag t TS_FIRSTDIGIT then Inr (False, t\<lparr>t_curnum := t_curnum t + 1\<rparr>)
        else Inr (False, t)))"

definition finish_state :: "int list \<Rightarrow> process \<Rightarrow> process" where
  "finish_state pre p =
    (if pre = [] then p else tk (\<lambda>t. teken_state_switch [] (t\<lparr>t_last := 0\<rparr>)) p)"

definition teken_state :: "int list \<Rightarrow> int \<Rightarrow> process \<Rightarrow> process res" where
  "teken_state pre c p =
    bindR (if number_cmds pre then teken_state_numbers c (pr_tek p) else Inr (False, pr_tek p)) (\<lambda>(done, t).
    let q = p\<lparr>pr_tek := t\<rparr> in
    if done then Inr q
    else case map_of sequences (pre @ [c]) of
      Some call \<Rightarrow> bindR (run_call call q) (\<lambda>r. Inr (finish_state pre r))
    | None \<Rightarrow>
        if is_state (pre @ [c]) then Inr (tk (teken_state_switch (pre @ [c])) q)
        else if pre = [] then teken_subr_regular_character c q
        else Inr (finish_state pre q))"

subsection \<open>Input\<close>

definition post_assert :: "process \<Rightarrow> process res" where
  "post_assert p = (let t = pr_tek p; cur = t_cursor t; sav = t_saved_cursor t; win = t_winsize t;
      org = t_originreg t; scr = t_scrollreg t in
    guardR AssertFail (tp_row cur \<ge> ts_begin org)
    (guardR AssertFail (tp_row cur < ts_end org)
    (guardR AssertFail (tp_row cur < tp_row win)
    (guardR AssertFail (tp_col cur < tp_col win)
    (guardR AssertFail (tp_row sav < tp_row win)
    (guardR AssertFail (tp_col sav < tp_col win)
    (guardR AssertFail (ts_end scr \<le> tp_row win)
    (guardR AssertFail (ts_begin scr < ts_end scr)
    (guardR AssertFail ((ts_begin org = ts_begin scr \<and> ts_end org = ts_end scr) \<or>
        (ts_begin org = 0 \<and> ts_end org = tp_row win))
      (Inr p))))))))))"

definition input_switch :: "int \<Rightarrow> process \<Rightarrow> process res" where
  "input_switch c p = (let t = pr_tek p in
    if c = 0 then Inr p
    else if c = 0x07 then teken_subr_bell p
    else if c = 0x08 then teken_subr_backspace p
    else if c = 0x0a \<or> c = 0x0b then teken_subr_newline p
    else if c = 0x0c then teken_subr_newpage p
    else if c = 0x0e then
      (if flag t TS_CONS25 then teken_state (t_nextstate t) c p else Inr (tk (\<lambda>t. t\<lparr>t_curscs := 1\<rparr>) p))
    else if c = 0x0f then
      (if flag t TS_CONS25 then teken_state (t_nextstate t) c p else Inr (tk (\<lambda>t. t\<lparr>t_curscs := 0\<rparr>) p))
    else if c = 0x0d then teken_subr_carriage_return p
    else if c = 0x09 then teken_subr_horizontal_tab p
    else teken_state (t_nextstate t) c p)"

definition teken_input_char :: "int \<Rightarrow> process \<Rightarrow> process res" where
  "teken_input_char c p =
    (if flag (pr_tek p) TS_INSTRING \<and> c \<noteq> 0x1b then
       Inr (if c = 0x07 then tk (flag_andn TS_INSTRING) p else p)
     else
       bindR (input_switch c (if flag (pr_tek p) TS_INSTRING then tk (flag_andn TS_INSTRING) p else p))
         post_assert)"

definition utf8_start :: "nat \<Rightarrow> byte \<Rightarrow> process \<Rightarrow> process res" where
  "utf8_start n v p = Inr (tk (\<lambda>t. t\<lparr>t_utf8_left := n, t_utf8_partial := ucast v\<rparr>) p)"

definition teken_input_byte :: "byte \<Rightarrow> process \<Rightarrow> process res" where
  "teken_input_byte c p = (let t = pr_tek p in
    if c AND 0x80 = 0x00 \<or> flag t TS_8BIT
    then teken_input_char (uint c) (tk (\<lambda>t. t\<lparr>t_utf8_left := 0\<rparr>) p)
    else if c AND 0xe0 = 0xc0 then utf8_start 1 (c AND 0x1f) p
    else if c AND 0xf0 = 0xe0 then utf8_start 2 (c AND 0x0f) p
    else if c AND 0xf8 = 0xf0 then utf8_start 3 (c AND 0x07) p
    else if c AND 0xc0 = 0x80 then
      (if t_utf8_left t = 0 then Inr p
       else
         let q = tk (\<lambda>t. t\<lparr>t_utf8_left := t_utf8_left t - 1,
                   t_utf8_partial := push_bit 6 (t_utf8_partial t) OR ucast (c AND 0x3f)\<rparr>) p
         in if t_utf8_left (pr_tek q) = 0 then teken_input_char (uint (t_utf8_partial (pr_tek q))) q
            else Inr q)
    else Inr p)"

fun teken_input :: "byte list \<Rightarrow> process \<Rightarrow> process res" where
  "teken_input [] p = Inr p"
| "teken_input (c # cs) p = bindR (teken_input_byte c p) (teken_input cs)"

subsection \<open>Safety of the whole emulator\<close>

definition terminal_ok :: "process \<Rightarrow> bool" where
  "terminal_ok p = (\<exists>k < T_NUMSIZE. term_ok k p)"

definition terminal_inv :: "bool \<Rightarrow> process \<Rightarrow> bool" where
  "terminal_inv sw p = (terminal_ok p \<and> writes_ok sw p)"

definition call_ok :: "bool \<Rightarrow> seq_call \<Rightarrow> bool" where
  "call_ok sw call = (\<forall>k p. term_inv sw k p \<longrightarrow> (case call of
      Call0 f \<Rightarrow> okT sw (term_inv sw k) (f p)
    | CallN f \<Rightarrow> \<forall>a. 1 \<le> a \<and> a < 2 ^ 30 \<longrightarrow> okT sw (term_inv sw k) (f a p)
    | CallNN f \<Rightarrow> \<forall>a b. 1 \<le> a \<and> a < 2 ^ 30 \<and> 1 \<le> b \<and> b < 2 ^ 30 \<longrightarrow> okT sw (term_inv sw k) (f a b p)
    | CallR f \<Rightarrow> \<forall>a. 0 \<le> a \<and> a < 2 ^ 30 \<longrightarrow> okT sw (term_inv sw k) (f a p)
    | CallRR f \<Rightarrow> \<forall>a b. 0 \<le> a \<and> a < 2 ^ 30 \<and> 0 \<le> b \<and> b < 2 ^ 30 \<longrightarrow> okT sw (term_inv sw k) (f a b p)
    | CallV f \<Rightarrow> \<forall>n ns. n \<le> length ns \<longrightarrow> okT sw (term_inv sw k) (f n ns p)))"

lemma sequences_ok: "(s, call) \<in> set sequences \<Longrightarrow> call_ok sw call"
proof -
  have "list_all (\<lambda>(s, call). call_ok sw call) sequences"
    unfolding sequences_def esc_seq_def list.pred_inject prod.case call_ok_def seq_call.case
    by (simp add: subr_ok)
  then show "(s, call) \<in> set sequences \<Longrightarrow> call_ok sw call"
    by (auto simp: list_all_iff)
qed

lemma run_call_ok:
  assumes "call_ok sw call" "term_inv sw k p" "k \<le> T_NUMSIZE"
  shows "okT sw (term_inv sw k) (run_call call p)"
proof -
  have nums: "okR (\<lambda>v. 1 \<le> v \<and> v < 2 ^ 30) (arg_n i (pr_tek p))" "okR (\<lambda>v. 0 \<le> v \<and> v < 2 ^ 30) (arg_r i (pr_tek p))"
    for i
  proof -
    have "i < length (t_nums (pr_tek p)) \<and> 0 \<le> t_nums (pr_tek p) ! i \<and> t_nums (pr_tek p) ! i < 2 ^ 30"
      if "\<not> t_curnum (pr_tek p) < i + 1"
      using assms(2,3) that nth_mem [of i "t_nums (pr_tek p)"] by (auto simp: term_inv_def term_ok_def table_ok_def)
    then show "okR (\<lambda>v. 1 \<le> v \<and> v < 2 ^ 30) (arg_n i (pr_tek p))"
      "okR (\<lambda>v. 0 \<le> v \<and> v < 2 ^ 30) (arg_r i (pr_tek p))"
      by (cases "t_curnum (pr_tek p) < i + 1"; fastforce simp: arg_n_def arg_r_def)+
  qed
  have len: "t_curnum (pr_tek p) \<le> length (t_nums (pr_tek p))"
    using assms(2,3) by (simp add: term_inv_def term_ok_def table_ok_def)
  show ?thesis
    using assms(1,2) len nums [of 0] nums [of 1]
    by (auto simp: run_call_def call_ok_def Let_def okR_def split: seq_call.splits)
qed

text \<open>What \<open>teken_state_numbers\<close> leaves when the character was not part of a number.\<close>

lemma store_num_ok:
  assumes "term_ok k (p\<lparr>pr_tek := t\<rparr>)" "k < T_NUMSIZE" "0 \<le> v" "v < 2 ^ 30"
  shows "okR (\<lambda>t'. term_ok k (p\<lparr>pr_tek := t'\<rparr>) \<and> t_curnum t' = t_curnum t) (store_num v t)"
  unfolding store_num_def
  by (intro okR_intros)
    (use assms in \<open>auto simp: term_ok_defs split: if_splits dest: set_update_subset_insert [THEN subsetD]\<close>)

lemma terminal_okI: "term_ok k p \<Longrightarrow> k < T_NUMSIZE \<Longrightarrow> terminal_ok p"
  and terminal_okI0: "term_ok 0 p \<Longrightarrow> terminal_ok p"
  unfolding terminal_ok_def T_NUMSIZE_def by (blast, rule exI [of _ 0], simp)

lemma curnum_ok: "term_ok k (p\<lparr>pr_tek := t\<rparr>) \<Longrightarrow> term_ok n (p\<lparr>pr_tek := t\<lparr>t_curnum := n\<rparr>\<rparr>)"
  by (auto simp: term_ok_defs)

lemma firstdigit_ok:
  "term_ok k (p\<lparr>pr_tek := t\<rparr>) \<Longrightarrow> term_ok k (p\<lparr>pr_tek := flag_or TS_FIRSTDIGIT t\<rparr>)"
  "term_ok k (p\<lparr>pr_tek := t\<rparr>) \<Longrightarrow> term_ok k (p\<lparr>pr_tek := flag_andn TS_FIRSTDIGIT t\<rparr>)"
  by (auto simp: term_ok_defs split: if_splits)

lemma state_switch_ok: "term_ok k (p\<lparr>pr_tek := t\<rparr>) \<Longrightarrow> term_ok 0 (p\<lparr>pr_tek := teken_state_switch s t\<rparr>)"
  unfolding teken_state_switch_def
  by (rule firstdigit_ok(1)) (auto simp: term_ok_parts)

lemma numbers_ok:
  assumes "term_ok k (p\<lparr>pr_tek := t\<rparr>)" "k < T_NUMSIZE"
  shows "okR (\<lambda>(used, t'). \<exists>k' \<le> T_NUMSIZE. term_ok k' (p\<lparr>pr_tek := t'\<rparr>) \<and> (used \<longrightarrow> k' < T_NUMSIZE))
    (teken_state_numbers c t)"
proof -
  note k = assms(1)
  have cur: "t_curnum t = k" using k by (simp add: term_ok_def)
  have v: "k < length (t_nums t)" "0 \<le> t_nums t ! k" using k assms(2) nth_mem [of k "t_nums t"]
    by (auto simp: term_ok_def table_ok_def)
  have digit: "okR (\<lambda>(used, t'). \<exists>k' \<le> T_NUMSIZE. term_ok k' (p\<lparr>pr_tek := t'\<rparr>) \<and> (used \<longrightarrow> k' < T_NUMSIZE))
      (bindR (store_num x u) (\<lambda>t. Inr (True, t)))"
    if "term_ok k (p\<lparr>pr_tek := u\<rparr>)" "0 \<le> x" "x < 2 ^ 30" for x u
    using assms(2) by (auto intro!: okR_chain [OF store_num_ok [OF that(1) assms(2) that(2,3)]] exI [of _ k])
  have semi: "okR (\<lambda>t'. term_ok k (p\<lparr>pr_tek := t'\<rparr>) \<and> t_curnum t' = k)
      (if flag t TS_FIRSTDIGIT then store_num 0 t else Inr t)"
    using store_num_ok [OF k assms(2), of 0] k cur by simp
  show ?thesis
  proof (cases "0x30 \<le> c \<and> c \<le> 0x39")
    case True
    show ?thesis
    proof (cases "flag t TS_FIRSTDIGIT")
      case t: True
      show ?thesis
        using True t cur assms(2) digit [OF firstdigit_ok(2) [OF k], of "c - 0x30"]
        by (simp add: teken_state_numbers_def)
    next
      case False
      then show ?thesis
        using True cur assms(2) v k digit [OF k, of "U32 (t_nums t ! k * 10 + c - 0x30)"]
        by (auto simp: teken_state_numbers_def intro!: exI [of _ k])
    qed
  next
    case False
    note nodigit = this
    show ?thesis
    proof (cases "c = 0x3b")
      case True
      have next_num: "\<exists>k' \<le> T_NUMSIZE. term_ok k' (p\<lparr>pr_tek := flag_or TS_FIRSTDIGIT (u\<lparr>t_curnum := Suc k\<rparr>)\<rparr>) \<and> k' < T_NUMSIZE"
        if "term_ok k (p\<lparr>pr_tek := u\<rparr>)" "Suc k \<noteq> T_NUMSIZE" for u
        using firstdigit_ok(1) [OF curnum_ok [OF that(1)], of "Suc k"] that(2) assms(2)
        by (intro exI [of _ "Suc k"]) auto
      have last_num: "\<exists>k' \<le> T_NUMSIZE. term_ok k' (p\<lparr>pr_tek := teken_state_switch [] (u\<lparr>t_curnum := n\<rparr>)\<rparr>) \<and> k' < T_NUMSIZE"
        if "term_ok k (p\<lparr>pr_tek := u\<rparr>)" for u n
        using state_switch_ok [OF curnum_ok [OF that]] assms(2) by (intro exI [of _ 0]) auto
      have eq: "teken_state_numbers c t =
          bindR (if flag t TS_FIRSTDIGIT then store_num 0 t else Inr t) (\<lambda>t.
            let t1 = t\<lparr>t_curnum := t_curnum t + 1\<rparr> in
            if t_curnum t1 = T_NUMSIZE then Inr (True, teken_state_switch [] t1)
            else Inr (True, flag_or TS_FIRSTDIGIT t1))"
        using True cur assms(2) by (simp add: teken_state_numbers_def)
      show ?thesis
        unfolding eq by (rule okR_chain [OF semi]) (use next_num last_num in \<open>auto simp: Let_def\<close>)
    next
      case False
      have "okR (\<lambda>t'. term_ok k (p\<lparr>pr_tek := t'\<rparr>) \<and> t_curnum t' = k) (store_num 0 t)"
        using store_num_ok [OF k assms(2), of 0] cur by simp
      then obtain u where u: "store_num 0 t = Inr u" "term_ok k (p\<lparr>pr_tek := u\<rparr>)" "t_curnum u = k"
        by (auto simp: okR_def)
      have *: "\<exists>k' \<le> T_NUMSIZE. term_ok k' (p\<lparr>pr_tek := x\<lparr>t_curnum := Suc k\<rparr>\<rparr>)"
        if "term_ok k (p\<lparr>pr_tek := x\<rparr>)" for x
        using curnum_ok [OF that, of "Suc k"] assms(2) by (intro exI [of _ "Suc k"]) simp
      have "\<exists>k' \<le> T_NUMSIZE. term_ok k' (p\<lparr>pr_tek := t\<rparr>)"
        using k assms(2) by (intro exI [of _ k]) simp
      then show ?thesis
        using False nodigit cur assms(2) u * [OF k] * [OF u(2)]
        by (simp add: teken_state_numbers_def) blast
    qed
  qed
qed

lemma init_no_numbers: "\<not> number_cmds []"
  by (simp add: number_cmds_def sequences_def esc_seq_def)

lemma finish_state_ok:
  assumes "term_ok k p" "pre \<noteq> [] \<or> k < T_NUMSIZE"
  shows "terminal_ok (finish_state pre p)"
proof -
  have "term_ok k (p\<lparr>pr_tek := (pr_tek p)\<lparr>t_last := 0\<rparr>\<rparr>)"
    using assms(1) by (simp add: term_ok_parts)
  then have "term_ok 0 (p\<lparr>pr_tek := teken_state_switch [] ((pr_tek p)\<lparr>t_last := 0\<rparr>)\<rparr>)"
    by (rule state_switch_ok)
  then show ?thesis
    using assms by (auto simp: finish_state_def tk_def intro: terminal_okI terminal_okI0)
qed

lemma teken_state_ok:
  assumes "terminal_inv sw p"
  shows "okT sw (terminal_inv sw) (teken_state pre c p)"
proof -
  obtain k where k: "term_ok k p" "k < T_NUMSIZE" and w: "writes_ok sw p"
    using assms by (auto simp: terminal_inv_def terminal_ok_def)
  define Q where "Q = (\<lambda>(used, t'). \<exists>k' \<le> T_NUMSIZE. term_ok k' (p\<lparr>pr_tek := t'\<rparr>) \<and>
    (used \<or> pre = [] \<longrightarrow> k' < T_NUMSIZE))"
  have "okR Q (if number_cmds pre then teken_state_numbers c (pr_tek p) else Inr (False, pr_tek p))"
  proof (cases "number_cmds pre")
    case True
    then have "pre \<noteq> []" using init_no_numbers by auto
    moreover have "term_ok k (p\<lparr>pr_tek := pr_tek p\<rparr>)" using k by simp
    ultimately show ?thesis
      using numbers_ok [where k = k and p = p and t = "pr_tek p" and c = c] True k by (auto simp: Q_def elim!: okR_mono)
  next
    case False
    then show ?thesis using k by (auto simp: Q_def intro!: exI [of _ k])
  qed
  then have "okT sw Q (if number_cmds pre then teken_state_numbers c (pr_tek p) else Inr (False, pr_tek p))" by (rule okT_I)
  then show ?thesis
    unfolding teken_state_def
  proof (rule okT_chain)
    fix r assume r: "Q r"
    obtain used t where rt: "r = (used, t)" by fastforce
    then obtain k' where k': "term_ok k' (p\<lparr>pr_tek := t\<rparr>)" "k' \<le> T_NUMSIZE" "used \<or> pre = [] \<longrightarrow> k' < T_NUMSIZE"
      using r by (auto simp: Q_def)
    let ?q = "p\<lparr>pr_tek := t\<rparr>"
    have inv: "term_inv sw k' ?q" using k'(1) w by (simp add: term_inv_def)
    have fin: "terminal_inv sw (finish_state pre x)" if "term_inv sw k' x" for x
      using that k'(3) finish_state_ok [of k' x pre] by (auto simp: terminal_inv_def term_inv_def finish_state_def tk_def)
    have call: "okT sw (terminal_inv sw) (bindR (run_call call ?q) (\<lambda>r. Inr (finish_state pre r)))"
      if "map_of sequences (pre @ [c]) = Some call" for call
      by (rule okT_chain [OF run_call_ok [OF sequences_ok inv k'(2)]]) (use that fin in \<open>auto dest: map_of_SomeD\<close>)
    have switch: "terminal_inv sw (tk (teken_state_switch s) ?q)" for s
      using state_switch_ok [OF k'(1)] w by (simp add: tk_def terminal_inv_def terminal_okI0)
    have regular: "okT sw (terminal_inv sw) (teken_subr_regular_character c ?q)" if "pre = []"
      using that k' by (intro okT_mono [OF regular_character_ok [OF inv]]) (auto simp: terminal_inv_def terminal_ok_def term_inv_def)
    show "okT sw (terminal_inv sw) (case r of (done, t) \<Rightarrow> let q = p\<lparr>pr_tek := t\<rparr> in
        if done then Inr q
        else case map_of sequences (pre @ [c]) of
          Some call \<Rightarrow> bindR (run_call call q) (\<lambda>r. Inr (finish_state pre r))
        | None \<Rightarrow>
            if is_state (pre @ [c]) then Inr (tk (teken_state_switch (pre @ [c])) q)
            else if pre = [] then teken_subr_regular_character c q
            else Inr (finish_state pre q))"
      using rt k'(3) call switch regular fin [OF inv] terminal_okI [OF k'(1)] w
      by (auto simp: Let_def terminal_inv_def split: option.split)
  qed
qed

lemma post_assert_ok: "terminal_inv sw p \<Longrightarrow> okT sw (terminal_inv sw) (post_assert p)"
  unfolding post_assert_def Let_def
  by (intro okT_intros) (auto simp: terminal_inv_def terminal_ok_def term_ok_defs split: if_splits)

lemma subr_terminal:
  assumes "terminal_inv sw p" "\<And>k. term_inv sw k p \<Longrightarrow> okT sw (term_inv sw k) m"
  shows "okT sw (terminal_inv sw) m"
proof -
  obtain k where k: "term_inv sw k p" "k < T_NUMSIZE"
    using assms(1) by (auto simp: terminal_inv_def terminal_ok_def term_inv_def)
  then show ?thesis
    by (intro okT_mono [OF assms(2)]) (auto simp: terminal_inv_def terminal_ok_def term_inv_def)
qed

lemma instring_ok: "terminal_inv sw p \<Longrightarrow> terminal_inv sw (tk (flag_andn TS_INSTRING) p)"
  using dec_mode_flags [of sw _ p] by (fastforce simp: terminal_inv_def terminal_ok_def term_inv_def)

lemma curscs_ok: "terminal_inv sw p \<Longrightarrow> n < 2 \<Longrightarrow> terminal_inv sw (tk (\<lambda>t. t\<lparr>t_curscs := n\<rparr>) p)"
  by (auto simp: terminal_inv_def terminal_ok_def tk_def term_ok_parts)

lemma input_switch_ok: "terminal_inv sw p \<Longrightarrow> okT sw (terminal_inv sw) (input_switch c p)"
  unfolding input_switch_def Let_def
  by (intro okT_if okT_Inr teken_state_ok curscs_ok) (auto intro: subr_terminal subr_ok)

lemma input_char_ok: "terminal_inv sw p \<Longrightarrow> okT sw (terminal_inv sw) (teken_input_char c p)"
  unfolding teken_input_char_def
  by (auto intro!: okT_chain [OF input_switch_ok] post_assert_ok simp: instring_ok)

lemma utf8_fields_ok [simp]:
  "terminal_inv sw (tk (\<lambda>t. t\<lparr>t_utf8_left := f t\<rparr>) p) = terminal_inv sw p"
  "terminal_inv sw (tk (\<lambda>t. t\<lparr>t_utf8_left := f t, t_utf8_partial := g t\<rparr>) p) = terminal_inv sw p"
  by (simp_all add: terminal_inv_def terminal_ok_def tk_def term_ok_parts)

lemma input_byte_ok: "terminal_inv sw p \<Longrightarrow> okT sw (terminal_inv sw) (teken_input_byte c p)"
  unfolding teken_input_byte_def utf8_start_def Let_def
  by (auto intro!: input_char_ok)

lemma input_ok: "terminal_inv sw p \<Longrightarrow> okT sw (terminal_inv sw) (teken_input bs p)"
  by (induction bs arbitrary: p) (auto intro: okT_chain [OF input_byte_ok])

end
