(* ===== verification/Teken_Tabs.thy ===== *)
theory Teken_Tabs
  imports Teken_Safe
begin

text \<open>
  The tab stops as a set of columns.  The interface \<open>tab_store\<close> says what setting and clearing
  a stop do to that set; it is interpreted on the bit vector of \<open>src/src/teken_subr.h\<close>.  The
  default stops and the horizontal tab are described on top of it.
\<close>

locale tab_store =
  fixes isset :: "'s \<Rightarrow> int \<Rightarrow> bool res"
    and put :: "int \<Rightarrow> 's \<Rightarrow> 's res"
    and clr :: "int \<Rightarrow> 's \<Rightarrow> 's res"
    and inv :: "'s \<Rightarrow> bool"
    and stops :: "'s \<Rightarrow> int set"
    and limit :: int
  assumes isset_law: "inv s \<Longrightarrow> 0 \<le> c \<Longrightarrow> isset s c = Inr (c \<in> stops s)"
    and put_law: "inv s \<Longrightarrow> 0 \<le> c \<Longrightarrow> c < limit \<Longrightarrow>
      okR (\<lambda>s'. inv s' \<and> stops s' = insert c (stops s)) (put c s)"
    and clr_law: "inv s \<Longrightarrow> 0 \<le> c \<Longrightarrow> c < limit \<Longrightarrow>
      okR (\<lambda>s'. inv s' \<and> stops s' = stops s - {c}) (clr c s)"
begin

lemma put_isset:
  assumes "inv s" "0 \<le> c" "c < limit" "0 \<le> d"
  shows "bindR (put c s) (\<lambda>s'. isset s' d) = (if d = c then Inr True else isset s d)"
proof -
  obtain s' where "put c s = Inr s'" "inv s'" "stops s' = insert c (stops s)"
    using put_law [OF assms(1-3)] by (auto simp: okR_def)
  then show ?thesis using assms by (simp add: isset_law)
qed

lemma clr_isset:
  assumes "inv s" "0 \<le> c" "c < limit" "0 \<le> d"
  shows "bindR (clr c s) (\<lambda>s'. isset s' d) = (if d = c then Inr False else isset s d)"
proof -
  obtain s' where "clr c s = Inr s'" "inv s'" "stops s' = stops s - {c}"
    using clr_law [OF assms(1-3)] by (auto simp: okR_def)
  then show ?thesis using assms by (simp add: isset_law)
qed

lemma put_all:
  assumes "inv s" "\<forall>c \<in> set cs. 0 \<le> c \<and> c < limit"
  shows "okR (\<lambda>s'. inv s' \<and> stops s' = stops s \<union> set cs) (foldR put cs s)"
  using assms
proof (induction cs arbitrary: s)
  case (Cons c cs)
  obtain s' where s': "put c s = Inr s'" "inv s'" "stops s' = insert c (stops s)"
    using put_law [of s c] Cons.prems by (auto simp: okR_def)
  then show ?case using Cons.IH [of s'] Cons.prems by simp
qed simp

end

subsection \<open>The bit vector\<close>

definition tab_ok :: "teken \<Rightarrow> bool" where
  "tab_ok t = (length (t_tabstops t) = 5)"

definition tab_stops :: "teken \<Rightarrow> int set" where
  "tab_stops t = {c. 0 \<le> c \<and> (if T_NUMCOL \<le> c then c mod 8 = 0
    else bit (t_tabstops t ! nat (c div 32)) (nat (c mod 32)))}"

lemma tab_word_split:
  assumes "0 \<le> c" "0 \<le> d" "nat (c div 32) = nat (d div 32)"
  shows "nat (c mod 32) = nat (d mod 32) \<longleftrightarrow> c = d"
proof -
  have "c div 32 = d div 32" using assms by (simp add: pos_imp_zdiv_nonneg_iff eq_nat_nat_iff)
  moreover have "nat (c mod 32) = nat (d mod 32) \<longleftrightarrow> c mod 32 = d mod 32" by (simp add: eq_nat_nat_iff)
  ultimately show ?thesis by (metis div_mult_mod_eq)
qed

lemma tab_mod_less: "nat (c mod 32) < LENGTH(32)"
  by (simp add: nat_less_iff)

lemma tab_stops_update:
  assumes "tab_ok t" "0 \<le> c" "c < T_NUMCOL"
  shows "d \<in> tab_stops (t\<lparr>t_tabstops := (t_tabstops t)[nat (c div 32) := w]\<rparr>) \<longleftrightarrow>
    (if 0 \<le> d \<and> d < T_NUMCOL \<and> nat (d div 32) = nat (c div 32) then bit w (nat (d mod 32)) else d \<in> tab_stops t)"
  using assms tab_index [of c] by (auto simp: tab_stops_def tab_ok_def nth_list_update)

lemma tab_stops_nth:
  assumes "0 \<le> d" "d < T_NUMCOL"
  shows "d \<in> tab_stops t \<longleftrightarrow> bit (t_tabstops t ! nat (d div 32)) (nat (d mod 32))"
  using assms by (simp add: tab_stops_def)

lemma tab_stops_set:
  assumes "tab_ok t" "0 \<le> c" "c < T_NUMCOL"
  shows "tab_stops (t\<lparr>t_tabstops := (t_tabstops t)[nat (c div 32) :=
      (t_tabstops t ! nat (c div 32)) OR push_bit (nat (c mod 32)) 1]\<rparr>) = insert c (tab_stops t)"
proof (rule set_eqI)
  fix d
  show "d \<in> tab_stops (t\<lparr>t_tabstops := (t_tabstops t)[nat (c div 32) :=
      (t_tabstops t ! nat (c div 32)) OR push_bit (nat (c mod 32)) 1]\<rparr>) \<longleftrightarrow> d \<in> insert c (tab_stops t)"
  proof (cases "0 \<le> d \<and> d < T_NUMCOL \<and> nat (d div 32) = nat (c div 32)")
    case True
    then show ?thesis
      using tab_word_split [of d c] tab_stops_nth [of d t] tab_mod_less [of d] assms
      by (auto simp: tab_stops_update bit_or_iff bit_exp_iff)
  next
    case False
    then show ?thesis using assms by (auto simp: tab_stops_update)
  qed
qed

lemma tab_stops_clear:
  assumes "tab_ok t" "0 \<le> c" "c < T_NUMCOL"
  shows "tab_stops (t\<lparr>t_tabstops := (t_tabstops t)[nat (c div 32) :=
      (t_tabstops t ! nat (c div 32)) AND NOT (push_bit (nat (c mod 32)) 1)]\<rparr>) = tab_stops t - {c}"
proof (rule set_eqI)
  fix d
  show "d \<in> tab_stops (t\<lparr>t_tabstops := (t_tabstops t)[nat (c div 32) :=
      (t_tabstops t ! nat (c div 32)) AND NOT (push_bit (nat (c mod 32)) 1)]\<rparr>) \<longleftrightarrow> d \<in> tab_stops t - {c}"
  proof (cases "0 \<le> d \<and> d < T_NUMCOL \<and> nat (d div 32) = nat (c div 32)")
    case True
    then show ?thesis
      using tab_word_split [of d c] tab_stops_nth [of d t] tab_mod_less [of d] assms
      by (auto simp: tab_stops_update bit_and_iff bit_not_iff bit_exp_iff)
  next
    case False
    then show ?thesis using assms by (auto simp: tab_stops_update)
  qed
qed

interpretation tabs: tab_store teken_tab_isset teken_tab_set teken_tab_clear tab_ok tab_stops T_NUMCOL
proof
  fix t c assume t: "tab_ok t" and c: "(0::int) \<le> c"
  have "\<not> T_NUMCOL \<le> c \<Longrightarrow> nat (c div 32) < length (t_tabstops t)" using t c tab_index [of c] by (simp add: tab_ok_def)
  then show "teken_tab_isset t c = Inr (c \<in> tab_stops t)"
    using c by (simp add: teken_tab_isset_def tab_stops_def bit_iff_and_push_bit_not_eq_0)
next
  fix t c assume t: "tab_ok t" and c: "(0::int) \<le> c" "c < T_NUMCOL"
  have i: "nat (c div 32) < length (t_tabstops t)" using t c tab_index [of c] by (simp add: tab_ok_def)
  show "okR (\<lambda>t'. tab_ok t' \<and> tab_stops t' = insert c (tab_stops t)) (teken_tab_set c t)"
    using c i t tab_stops_set [OF t c] by (simp add: teken_tab_set_def updR_def tab_ok_def)
  show "okR (\<lambda>t'. tab_ok t' \<and> tab_stops t' = tab_stops t - {c}) (teken_tab_clear c t)"
    using c i t tab_stops_clear [OF t c] by (simp add: teken_tab_clear_def updR_def tab_ok_def)
qed

subsection \<open>The default stops and the horizontal tab\<close>

lemma tab_default_loop_foldR:
  "i = T_NUMCOL - 8 * int n \<Longrightarrow> tab_default_loop i t = foldR teken_tab_set (map (\<lambda>k. i + 8 * int k) [0 ..< n]) t"
proof (induction n arbitrary: i t)
  case 0
  then show ?case by (subst tab_default_loop.simps) simp
next
  case (Suc n)
  have "map (\<lambda>k. i + 8 * int k) [0 ..< Suc n] = i # map (\<lambda>k. (i + 8) + 8 * int k) [0 ..< n]"
    by (simp add: map_Suc_upt [symmetric] upt_conv_Cons del: upt_Suc)
  moreover have "tab_default_loop (i + 8) = foldR teken_tab_set (map (\<lambda>k. (i + 8) + 8 * int k) [0 ..< n])"
    using Suc by (intro ext Suc.IH) simp
  ultimately show ?case using Suc.prems by (subst tab_default_loop.simps) simp
qed

text \<open>
  After \<open>teken_tab_default\<close> the tab stops are the multiples of 8 but 0, also beyond the 160
  columns that the bit vector covers.
\<close>

theorem teken_tab_default_stops:
  "\<exists>t'. teken_tab_default t = Inr t' \<and>
    (\<forall>c. 0 \<le> c \<longrightarrow> teken_tab_isset t' c = Inr (c mod 8 = 0 \<and> c \<noteq> 0))"
proof -
  let ?t = "t\<lparr>t_tabstops := replicate 5 0\<rparr>" and ?cs = "map (\<lambda>k. 8 + 8 * int k) [0 ..< 19]"
  have t: "tab_ok ?t" "tab_stops ?t = {c. T_NUMCOL \<le> c \<and> c mod 8 = 0}"
    using tab_index by (auto simp: tab_ok_def tab_stops_def T_NUMCOL_def)
  have "okR (\<lambda>t'. tab_ok t' \<and> tab_stops t' = tab_stops ?t \<union> set ?cs) (foldR teken_tab_set ?cs ?t)"
    by (rule tabs.put_all [OF t(1)]) (auto simp: T_NUMCOL_def)
  then obtain t' where t': "teken_tab_default t = Inr t'" "tab_ok t'" "tab_stops t' = tab_stops ?t \<union> set ?cs"
    using tab_default_loop_foldR [of 8 19 ?t] by (auto simp: okR_def teken_tab_default_def T_NUMCOL_def)
  have "c \<in> tab_stops t' \<longleftrightarrow> c mod 8 = 0 \<and> c \<noteq> 0" if "0 \<le> c" for c
  proof (cases "T_NUMCOL \<le> c")
    case False
    have "c \<in> set ?cs \<longleftrightarrow> c mod 8 = 0 \<and> c \<noteq> 0"
    proof
      assume c: "c mod 8 = 0 \<and> c \<noteq> 0"
      then have "1 \<le> c div 8" "c div 8 \<le> 19" "c = 8 * (c div 8)"
        using that False by (auto simp: T_NUMCOL_def)
      then have "c = 8 + 8 * int (nat (c div 8 - 1)) \<and> nat (c div 8 - 1) < 19" by auto
      then show "c \<in> set ?cs" unfolding set_map set_upt by (intro image_eqI [of _ _ "nat (c div 8 - 1)"]) simp_all
    qed auto
    then show ?thesis using False t'(3) t(2) by simp
  qed (use t'(3) t(2) in \<open>auto simp: T_NUMCOL_def\<close>)
  then show ?thesis using t' tabs.isset_law by auto
qed

theorem teken_tab_default_stops_witness:
  "\<exists>t'. teken_tab_default zero_teken = Inr t' \<and> teken_tab_isset t' 16 = Inr True"
proof -
  obtain t' where "teken_tab_default zero_teken = Inr t'"
    "\<forall>c. 0 \<le> c \<longrightarrow> teken_tab_isset t' c = Inr (c mod 8 = 0 \<and> c \<noteq> 0)"
    using teken_tab_default_stops [of zero_teken] by blast
  then show ?thesis by (intro exI [of _ t']) simp
qed

lemma forward_tab_finds:
  assumes "0 \<le> tp_col (t_cursor t)" "tp_col (t_cursor t) < tp_col (t_winsize t)" "tp_col (t_winsize t) \<le> 65535"
    "tab_ok t" "tp_col (t_winsize t) - tp_col (t_cursor t) \<le> int fuel" "tp_col (t_cursor t) \<noteq> tp_col (t_winsize t) - 1"
  shows "okR (\<lambda>t'. tp_col (t_cursor t) < tp_col (t_cursor t') \<and> tp_col (t_cursor t') \<le> tp_col (t_winsize t) - 1 \<and>
      (tp_col (t_cursor t') = tp_col (t_winsize t) - 1 \<or> tp_col (t_cursor t') \<in> tab_stops t) \<and>
      (\<forall>c. tp_col (t_cursor t) < c \<and> c < tp_col (t_cursor t') \<longrightarrow> c \<notin> tab_stops t))
    (forward_tab_loop fuel 1 t)"
  using assms
proof (induction fuel arbitrary: t)
  case 0
  then show ?case by simp
next
  case (Suc fuel)
  let ?c = "tp_col (t_cursor t)" and ?t = "set_col (tp_col (t_cursor t) + 1) t"
  have c: "tp_col (t_cursor ?t) = ?c + 1" "t_winsize ?t = t_winsize t" "tab_ok ?t" "tab_stops ?t = tab_stops t"
    using Suc.prems by (auto simp: set_col_def tab_ok_def tab_stops_def)
  have step: "forward_tab_loop (Suc fuel) 1 t = (if ?c + 1 \<in> tab_stops t then Inr ?t else forward_tab_loop fuel 1 ?t)"
    using Suc.prems(6) tabs.isset_law [OF c(3), of "?c + 1"] Suc.prems(1) c by (simp add: Let_def U32_def)
  show ?case
  proof (cases "?c + 1 \<in> tab_stops t")
    case True
    then show ?thesis
      unfolding step if_P [OF True] okR_Inr_iff c(1) using Suc.prems(2,6) by auto
  next
    case no: False
    show ?thesis
    proof (cases "?c + 1 = tp_col (t_winsize t) - 1")
      case True
      obtain f where f: "fuel = Suc f" using Suc.prems True by (cases fuel) auto
      have at_end: "tp_col (t_cursor ?t) = tp_col (t_winsize ?t) - 1" unfolding c(1) c(2) by (rule True)
      have "forward_tab_loop fuel 1 ?t = Inr ?t"
        unfolding f forward_tab_loop.simps if_P [OF at_end] ..
      then show ?thesis
        unfolding step if_not_P [OF no] by (simp only: okR_Inr_iff c(1)) (use True in auto)
    next
      case False
      have "okR (\<lambda>t'. ?c + 1 < tp_col (t_cursor t') \<and> tp_col (t_cursor t') \<le> tp_col (t_winsize t) - 1 \<and>
          (tp_col (t_cursor t') = tp_col (t_winsize t) - 1 \<or> tp_col (t_cursor t') \<in> tab_stops t) \<and>
          (\<forall>c. ?c + 1 < c \<and> c < tp_col (t_cursor t') \<longrightarrow> c \<notin> tab_stops t)) (forward_tab_loop fuel 1 ?t)"
        using Suc.IH [of ?t] Suc.prems c False by simp
      then show ?thesis
        unfolding step if_not_P [OF no]
      proof (rule okR_mono)
        fix u
        assume u: "?c + 1 < tp_col (t_cursor u) \<and> tp_col (t_cursor u) \<le> tp_col (t_winsize t) - 1 \<and>
          (tp_col (t_cursor u) = tp_col (t_winsize t) - 1 \<or> tp_col (t_cursor u) \<in> tab_stops t) \<and>
          (\<forall>c. ?c + 1 < c \<and> c < tp_col (t_cursor u) \<longrightarrow> c \<notin> tab_stops t)"
        have "c \<notin> tab_stops t" if "?c < c" "c < tp_col (t_cursor u)" for c
          using u that no by (cases "c = ?c + 1") auto
        then show "?c < tp_col (t_cursor u) \<and> tp_col (t_cursor u) \<le> tp_col (t_winsize t) - 1 \<and>
          (tp_col (t_cursor u) = tp_col (t_winsize t) - 1 \<or> tp_col (t_cursor u) \<in> tab_stops t) \<and>
          (\<forall>c. ?c < c \<and> c < tp_col (t_cursor u) \<longrightarrow> c \<notin> tab_stops t)"
          using u by auto
      qed
    qed
  qed
qed

end
