(* ===== verification/Terminal.thy ===== *)
theory Terminal
  imports Teken Teken_Tabs
begin

text \<open>
  The terminal of a \<open>process\<close> of \<open>src/src/vtc_process.c\<close>: how it is created, and the commands
  of a test case that look at the screen.  The properties of the emulator as a whole are here.

  The numbers in the commands are taken after \<open>strtoul\<close>.  The waiting loops of the commands and
  their locks are not modelled: a command works on one state of the screen.  The regular
  expression matcher is a parameter.
\<close>

subsection \<open>Creating the terminal\<close>

text \<open>The state that \<open>ALLOC_OBJ\<close> leaves.\<close>

definition zero_process :: "(nat \<Rightarrow> nat \<Rightarrow> int) \<Rightarrow> process" where
  "zero_process wr = \<lparr>pr_nlin = 0, pr_ncol = 0, pr_ansi_response = False, pr_vram = [],
     pr_tek = zero_teken, pr_write = wr, pr_responses = []\<rparr>"

text \<open>The calls of \<open>process_coverage\<close> that change the state or can fail.\<close>

definition process_coverage :: "process \<Rightarrow> process res" where
  "process_coverage p =
    (let t = pr_tek p;
         t1 = teken_set_defattr (teken_get_defattr t) t;
         t2 = teken_set_curattr (teken_get_curattr t1) t1
     in bindR (teken_set_cursor \<lparr>tp_row = 0, tp_col = 8\<rparr> t2) (\<lambda>t3.
        bindR (teken_get_defattr_cons25 t3) (\<lambda>_. Inr (p\<lparr>pr_tek := t3\<rparr>))))"

definition process_new :: "(nat \<Rightarrow> nat \<Rightarrow> int) \<Rightarrow> process res" where
  "process_new wr =
    bindR (on_tek teken_init (zero_process wr)) (\<lambda>p.
    bindR (term_resize 24 80 p) process_coverage)"

text \<open>The command \<open>-winsz\<close>.\<close>

definition process_set_winsz :: "int \<Rightarrow> int \<Rightarrow> process \<Rightarrow> process res" where
  "process_set_winsz lin col p =
    guardR AssertFail (lin > 1) (guardR AssertFail (col > 1) (term_resize lin col p))"

subsection \<open>Looking at the screen\<close>

fun find_at :: "byte list \<Rightarrow> byte list \<Rightarrow> nat option" where
  "find_at pat [] = (if pat = [] then Some 0 else None)"
| "find_at pat (c # cs) =
    (if take (length pat) (c # cs) = pat then Some 0 else map_option Suc (find_at pat cs))"

definition strstr :: "byte list \<Rightarrow> byte list \<Rightarrow> nat option" where
  "strstr s pat = find_at pat (takeWhile (\<lambda>c. c \<noteq> 0) s)"

definition term_find_textline :: "process \<Rightarrow> int \<Rightarrow> int \<Rightarrow> byte list \<Rightarrow> (bool \<times> int) res" where
  "term_find_textline p x y pat =
    bindR (nthR (pr_vram p) (nat y)) (\<lambda>row.
      if x = 0 then
        (case strstr row pat of None \<Rightarrow> Inr (False, x) | Some i \<Rightarrow> Inr (True, 1 + int i))
      else if x \<le> pr_ncol p then
        guardR AssertFail ((x - 1) + (int (length pat) - 1) < pr_ncol p)
          (Inr (take (length pat) (drop (nat (x - 1)) row) = pat, x))
      else Inr (False, x))"

fun find_rows :: "nat \<Rightarrow> process \<Rightarrow> int \<Rightarrow> int \<Rightarrow> byte list \<Rightarrow> (bool \<times> int \<times> int) res" where
  "find_rows 0 p x yy pat = Inr (False, x, 0)"
| "find_rows (Suc n) p x yy pat =
    bindR (term_find_textline p x yy pat) (\<lambda>(found, x').
      if found then Inr (True, x', yy + 1) else find_rows n p x' (yy + 1) pat)"

definition term_find_text :: "process \<Rightarrow> int \<Rightarrow> int \<Rightarrow> byte list \<Rightarrow> (bool \<times> int \<times> int) res" where
  "term_find_text p x y pat =
    (if y = 0 then find_rows (nat (pr_nlin p)) p x 0 pat
     else if y \<le> pr_nlin p then
       bindR (term_find_textline p x (y - 1) pat) (\<lambda>(found, x'). Inr (found, x', y))
     else Inr (False, x, y))"

text \<open>The checks of \<open>term_expect_text\<close> and one round of its search.\<close>

definition term_expect_text :: "int \<Rightarrow> int \<Rightarrow> byte list \<Rightarrow> process \<Rightarrow> (bool \<times> int \<times> int) res" where
  "term_expect_text y x pat p =
    guardR Fatal (\<not> (y < 0 \<or> y > pr_nlin p))
    (guardR Fatal (\<not> (x < 0 \<or> x > pr_ncol p))
    (guardR Fatal (\<not> (x + int (length pat) - 1 > pr_ncol p))
      (term_find_text p x y pat)))"

definition term_expect_cursor :: "int \<Rightarrow> int \<Rightarrow> process \<Rightarrow> process res" where
  "term_expect_cursor y x p = (let pos = teken_get_cursor (pr_tek p) in
    guardR Fatal (\<not> (y < 0 \<or> y > pr_nlin p))
    (guardR Fatal (\<not> (x < 0 \<or> x > pr_ncol p))
    (guardR Fatal (\<not> (y \<noteq> 0 \<and> y - 1 \<noteq> tp_row pos))
    (guardR Fatal (\<not> (x \<noteq> 0 \<and> x - 1 \<noteq> tp_col pos))
      (Inr p)))))"

text \<open>The text that \<open>term_match_text\<close> collects, and the length that it passes to the matcher.\<close>

definition match_subject :: "process \<Rightarrow> int \<Rightarrow> int \<Rightarrow> byte list" where
  "match_subject p y x =
    concat (map (\<lambda>row. take (nat (pr_ncol p - x)) (drop (nat x) row) @ [10]) (drop (nat y) (pr_vram p)))"

definition term_match_text :: "(byte list \<Rightarrow> bool) \<Rightarrow> int \<Rightarrow> int \<Rightarrow> process \<Rightarrow> process res" where
  "term_match_text re y x p =
    guardR Fatal (\<not> (y < 0 \<or> y > pr_nlin p))
    (guardR Fatal (\<not> (x < 0 \<or> x > pr_ncol p))
    (let x0 = (if x \<noteq> 0 then x - 1 else x); y0 = (if y \<noteq> 0 then y - 1 else y);
         len = (pr_nlin p - y0) * (pr_ncol p - x0)
     in guardR Fatal (re (take (nat len) (match_subject p y0 x0))) (Inr p)))"

definition term_screen_dump :: "process \<Rightarrow> byte list list \<times> int \<times> int" where
  "term_screen_dump p = (let pos = teken_get_cursor (pr_tek p) in
    (map (\<lambda>row. take (nat (pr_ncol p)) row) (take (nat (pr_nlin p)) (pr_vram p)), tp_row pos + 1, tp_col pos + 1))"

subsection \<open>The terminal is safe\<close>

lemma teken_init_ok:
  assumes "length (t_nums t) = T_NUMSIZE" "\<forall>n \<in> set (t_nums t). 0 \<le> n \<and> n < 2 ^ 30"
  shows "okR (\<lambda>t'. t_nums t' = t_nums t \<and> t_curnum t' = t_curnum t) (teken_init t)"
  unfolding teken_init_def teken_set_winsize_def teken_subr_do_reset_def teken_subr_save_cursor_def
    teken_trim_cursor_pos_def Let_def
  by (intro okR_intros) (auto simp: tek_stores)

lemma cons25_attr_ok: "\<exists>r. teken_get_defattr_cons25 t = Inr r"
proof -
  have "list_all (\<lambda>c. unat c < 8) teken_256to8tab" "length teken_256to8tab = 256" by code_simp+
  then have "unat (teken_256to8 c) < 8" for c
    using unat_byte_less [of c] by (simp add: teken_256to8_def list_all_length)
  moreover have "length cons25_revcolors = 8" by (simp add: cons25_revcolors_def)
  ultimately show ?thesis by (simp add: teken_get_defattr_cons25_def)
qed

lemma reset_origin: "okR (\<lambda>t'. ts_begin (t_originreg t') = 0) (teken_subr_do_reset t)"
  unfolding teken_subr_do_reset_def teken_subr_save_cursor_def Let_def
  by (intro okR_intros) auto

lemma process_new_ok:
  "\<exists>p. process_new wr = Inr p \<and> term_ok 0 p \<and> t_cursor (pr_tek p) = \<lparr>tp_row = 0, tp_col = 8\<rparr> \<and>
    pr_nlin p = 24 \<and> pr_ncol p = 80 \<and> \<not> pr_ansi_response p \<and> pr_write p = wr"
proof -
  have "okR (\<lambda>t'. t_nums t' = t_nums zero_teken \<and> t_curnum t' = t_curnum zero_teken) (teken_init zero_teken)"
    by (rule teken_init_ok) (auto simp: zero_teken_def)
  then obtain t where t: "teken_init zero_teken = Inr t" "t_nums t = replicate T_NUMSIZE 0" "t_curnum t = 0"
    by (auto simp: okR_def zero_teken_def)
  let ?p = "(zero_process wr)\<lparr>pr_tek := t\<rparr>"
  have "okR (\<lambda>q. term_ok (t_curnum (pr_tek ?p)) q \<and> pr_nlin q = 24 \<and> pr_ncol q = 80 \<and>
      pr_ansi_response q = pr_ansi_response ?p \<and> pr_write q = pr_write ?p) (term_resize 24 80 ?p)"
    by (rule okR_resize) (auto simp: zero_process_def vram_ok_def t)
  then obtain q where q: "term_resize 24 80 ?p = Inr q" "term_ok 0 q" "pr_nlin q = 24" "pr_ncol q = 80"
    "\<not> pr_ansi_response q" "pr_write q = wr"
    by (auto simp: okR_def t zero_process_def)
  have win: "tp_row (t_winsize (pr_tek q)) = 24" "tp_col (t_winsize (pr_tek q)) = 80"
    "0 \<le> ts_begin (t_originreg (pr_tek q))"
    using q by (auto simp: term_ok_defs split: if_splits)
  have eq: "process_new wr = process_coverage q"
    using t q(1) by (simp add: process_new_def on_tek_def zero_process_def)
  let ?t = "teken_set_defattr (teken_get_defattr (pr_tek q)) (pr_tek q)"
  let ?u = "(teken_set_curattr (teken_get_curattr ?t) ?t)\<lparr>t_cursor := \<lparr>tp_row = 0, tp_col = 8\<rparr>\<rparr>"
  have "process_coverage q = Inr (q\<lparr>pr_tek := ?u\<rparr>)"
    using cons25_attr_ok [of ?u] win
    by (auto simp: process_coverage_def Let_def teken_set_cursor_def teken_set_curattr_def teken_set_defattr_def)
  moreover have "ts_begin (t_originreg (pr_tek q)) = 0"
    using q(1) reset_origin [of "(teken_trim_cursor_pos (mk_pos 24 80) t)\<lparr>t_winsize := mk_pos 24 80\<rparr>"]
    by (auto simp: term_resize_def on_tek_def teken_set_winsize_def okR_def)
  ultimately show ?thesis
    using q win unfolding eq
    by (auto simp: term_ok_defs teken_set_curattr_def teken_set_defattr_def split: if_splits)
qed

text \<open>
  C2.  Whatever a process writes, its terminal is safe: from the creation of the terminal on, any
  sequence of bytes is processed to the end, no assertion of the emulator or of the screen code
  fails, nothing is read or written outside of the screen, and the invariant holds again.
\<close>

theorem process_terminal_safe:
  "\<exists>q. bindR (process_new wr) (teken_input bs) = Inr q \<and> terminal_ok q"
proof -
  obtain p where p: "process_new wr = Inr p" "term_ok 0 p" "\<not> pr_ansi_response p" using process_new_ok by blast
  then have "terminal_inv False p" by (simp add: terminal_inv_def terminal_okI0 writes_ok_def)
  then show ?thesis using input_ok [of False p bs] p(1) by (auto simp: okT_False okR_def terminal_inv_def)
qed

text \<open>
  C6.  The same for a terminal of any size that has at least three columns and fewer cells than
  \<open>INT_MAX\<close>, in any reachable mode and with any escape sequence half read: all the input is
  processed, the cursor stays inside of the window and of the origin region, and the screen keeps
  the size of the window.  The only other end is the fatal error of \<open>term_respond\<close>, which needs a
  process that was started with \<open>-ansi-response\<close> and a \<open>write(2)\<close> that does not take all its bytes.
\<close>

theorem teken_input_keeps_invariant:
  assumes "terminal_ok p"
  shows "(\<exists>q. teken_input bs p = Inr q \<and> terminal_ok q \<and>
      ts_begin (t_originreg (pr_tek q)) \<le> tp_row (t_cursor (pr_tek q)) \<and>
      tp_row (t_cursor (pr_tek q)) < ts_end (t_originreg (pr_tek q)) \<and>
      0 \<le> tp_col (t_cursor (pr_tek q)) \<and> tp_col (t_cursor (pr_tek q)) < pr_ncol q \<and>
      int (length (pr_vram q)) = pr_nlin q) \<or>
    (teken_input bs p = Inl Fatal \<and> pr_ansi_response p \<and> (\<exists>n l. pr_write p n l \<noteq> int l))"
proof -
  let ?sw = "pr_ansi_response p \<and> (\<exists>n l. pr_write p n l \<noteq> int l)"
  have "terminal_inv ?sw p" using assms by (auto simp: terminal_inv_def writes_ok_def)
  then have "okR terminal_ok (teken_input bs p) \<or> ?sw \<and> teken_input bs p = Inl Fatal"
    using input_ok [of ?sw p bs] okR_mono [of "terminal_inv ?sw" "teken_input bs p" terminal_ok]
    by (auto simp: okT_def terminal_inv_def)
  then show ?thesis by (auto simp: okR_def terminal_ok_def term_ok_parts vram_ok_def)
qed

theorem teken_input_keeps_invariant_witness:
  "\<exists>p. process_new (\<lambda>n l. int l) = Inr p \<and>
     (\<exists>q. teken_input [0x1b, 0x5b, 0x33, 0x3b, 0x41] p = Inr q \<and> terminal_ok q) \<and>
     (\<exists>q. teken_input [0x1b, 0x5b, 0x63] (p\<lparr>pr_ansi_response := True\<rparr>) = Inr q \<and> terminal_ok q)"
proof -
  obtain p where p: "process_new (\<lambda>n l. int l) = Inr p" "term_ok 0 p" "\<not> pr_ansi_response p" "pr_write p = (\<lambda>n l. int l)"
    using process_new_ok [of "\<lambda>n l. int l"] by blast
  then have "terminal_ok p" "terminal_ok (p\<lparr>pr_ansi_response := True\<rparr>)"
    by (auto intro!: terminal_okI0 simp: term_ok_parts)
  then show ?thesis
    using p(1,3,4) teken_input_keeps_invariant [of p "[0x1b, 0x5b, 0x33, 0x3b, 0x41]"]
      teken_input_keeps_invariant [of "p\<lparr>pr_ansi_response := True\<rparr>" "[0x1b, 0x5b, 0x63]"] by auto
qed

text \<open>
  A new terminal has 24 lines and 80 columns, and its cursor is not in the first column but in
  column 9: \<open>process_coverage\<close> leaves it there.
\<close>

theorem process_new_cursor:
  "\<exists>p. process_new wr = Inr p \<and> pr_nlin p = 24 \<and> pr_ncol p = 80 \<and>
    teken_get_cursor (pr_tek p) = \<lparr>tp_row = 0, tp_col = 8\<rparr>"
  using process_new_ok [of wr] by (auto simp: teken_get_cursor_def)

subsection \<open>The screen operations\<close>

text \<open>
  C13.  Copying a rectangle, also to an overlapping place, leaves every cell of the target with the
  value that its source cell had before, and every other cell as it was.
\<close>

theorem term_copy_simultaneous:
  assumes "vram_ok (pr_nlin p) (pr_ncol p) (pr_vram p)" "rect_ok (pr_nlin p) (pr_ncol p) r"
    "0 \<le> tp_row pos" "tp_row pos + (tp_row (tr_end r) - tp_row (tr_begin r)) \<le> pr_nlin p"
    "0 \<le> tp_col pos" "tp_col pos + (tp_col (tr_end r) - tp_col (tr_begin r)) \<le> pr_ncol p"
  shows "\<exists>q. term_copy r pos p = Inr q \<and>
    (\<forall>y x. 0 \<le> y \<and> y < pr_nlin p \<and> 0 \<le> x \<and> x < pr_ncol p \<longrightarrow>
      vcell (pr_vram q) y x = copied r pos (vcell (pr_vram p)) y x)"
  using drawn_copy [OF drawn_refl [OF assms(1)] assms(2-)] by (auto simp: okR_def drawn_def)

definition demo_screen :: process where
  "demo_screen = (zero_process (\<lambda>n l. int l))\<lparr>pr_nlin := 3, pr_ncol := 3,
     pr_vram := [[65, 66, 67, 0], [68, 69, 70, 0], [71, 72, 73, 0]]\<rparr>"

theorem term_copy_simultaneous_witness:
  "\<exists>q. term_copy (mk_rect 0 0 2 3) (mk_pos 1 0) demo_screen = Inr q \<and> vcell (pr_vram q) 2 1 = 69"
proof -
  have "\<exists>q. term_copy (mk_rect 0 0 2 3) (mk_pos 1 0) demo_screen = Inr q \<and>
    (\<forall>y x. 0 \<le> y \<and> y < pr_nlin demo_screen \<and> 0 \<le> x \<and> x < pr_ncol demo_screen \<longrightarrow>
      vcell (pr_vram q) y x = copied (mk_rect 0 0 2 3) (mk_pos 1 0) (vcell (pr_vram demo_screen)) y x)"
    by (rule term_copy_simultaneous)
      (auto simp: demo_screen_def vram_ok_def rect_ok_def mk_rect_def mk_pos_def)
  then obtain q where q: "term_copy (mk_rect 0 0 2 3) (mk_pos 1 0) demo_screen = Inr q"
    "vcell (pr_vram q) 2 1 = copied (mk_rect 0 0 2 3) (mk_pos 1 0) (vcell (pr_vram demo_screen)) 2 1"
    by (auto simp: demo_screen_def)
  moreover have "copied (mk_rect 0 0 2 3) (mk_pos 1 0) (vcell (pr_vram demo_screen)) 2 1 = 69"
    by (simp add: copied_def mk_rect_def mk_pos_def in_rect_def vcell_def demo_screen_def)
  ultimately show ?thesis by auto
qed

lemma drawn_scroll_up:
  assumes "screen_ok p" "region_ok (pr_tek p)" "tp_row (t_cursor (pr_tek p)) \<le> pr_nlin p"
  shows "okR (drawn p (\<lambda>y x.
      if ts_begin (t_scrollreg (pr_tek p)) \<le> y \<and> y < ts_end (t_scrollreg (pr_tek p)) - 1 then vcell (pr_vram p) (y + 1) x
      else if y = ts_end (t_scrollreg (pr_tek p)) - 1 then 32 else vcell (pr_vram p) y x))
    (teken_subr_do_scroll 1 p)"
proof -
  let ?b = "ts_begin (t_scrollreg (pr_tek p))" and ?e = "ts_end (t_scrollreg (pr_tek p))" and ?w = "pr_ncol p"
  have ok: "vram_ok (pr_nlin p) (pr_ncol p) (pr_vram p)" "tp_col (t_winsize (pr_tek p)) = ?w"
    "tp_row (t_winsize (pr_tek p)) = pr_nlin p"
    "0 \<le> ?b" "?b < ?e" "?e \<le> pr_nlin p" "pr_nlin p \<le> 65535" "3 \<le> ?w" "?w \<le> 65535"
    "tp_row (t_cursor (pr_tek p)) \<le> pr_nlin p"
    using assms by (auto simp: term_ok_defs)
  note draw = drawn_refl [OF ok(1)]
  have glyph: "term_glyph BLANK = 32" by (simp add: term_glyph_def BLANK_def)
  have fill: "okR (drawn p (\<lambda>y x. if in_rect r y x then 32 else g y x)) (teken_funcs_fill r BLANK a q)"
    if "drawn p g q" "rect_ok (pr_nlin p) ?w r" for g q r a
    using drawn_fill [OF that, of BLANK a, unfolded glyph] that(2) drawn_fields [OF that(1)] ok(2,3)
    by (simp add: teken_funcs_fill_def rect_ok_def)
  show ?thesis
  proof (cases "?b + 1 < ?e")
    case True
    let ?r = "mk_rect (?b + 1) 0 ?e ?w" and ?pos = "mk_pos ?b 0"
    have "okR (drawn p (copied ?r ?pos (vcell (pr_vram p)))) (term_copy ?r ?pos p)"
      by (rule drawn_copy [OF draw]) (use ok True in \<open>auto simp: rect_ok_def mk_rect_def mk_pos_def\<close>)
    then have "okR (drawn p (copied ?r ?pos (vcell (pr_vram p)))) (teken_funcs_copy ?r ?pos p)"
      using ok True by (simp add: teken_funcs_copy_def mk_rect_def mk_pos_def Let_def)
    then have "okR (drawn p (\<lambda>y x. if in_rect (mk_rect (?e - 1) 0 ?e ?w) y x then 32
          else copied ?r ?pos (vcell (pr_vram p)) y x)) (teken_subr_do_scroll 1 p)"
      using ok True unfolding teken_subr_do_scroll_def Let_def
      by (simp, elim okR_chain) (rule fill, auto simp: rect_ok_def mk_rect_def mk_pos_def)
    then show ?thesis
      by (elim okR_mono drawn_cong)
        (use ok True in \<open>auto simp: mk_rect_def mk_pos_def in_rect_def copied_def Let_def\<close>)
  next
    case False
    then have "okR (drawn p (\<lambda>y x. if in_rect (mk_rect ?b 0 ?e ?w) y x then 32 else vcell (pr_vram p) y x))
        (teken_subr_do_scroll 1 p)"
      using ok fill [OF draw, of "mk_rect ?b 0 ?e ?w"]
      by (simp add: teken_subr_do_scroll_def Let_def rect_ok_def mk_rect_def mk_pos_def)
    then show ?thesis
      by (elim okR_mono drawn_cong) (use ok False in \<open>auto simp: mk_rect_def mk_pos_def in_rect_def\<close>)
  qed
qed

text \<open>
  C21.  A newline on the last line of the scrolling region moves the text of the region up by one
  line, clears its last line, leaves the rest of the screen alone, and keeps the cursor in place.
\<close>

theorem newline_scrolls:
  assumes "term_ok k p" "tp_row (t_cursor (pr_tek p)) = ts_end (t_scrollreg (pr_tek p)) - 1"
  shows "\<exists>q. teken_subr_newline p = Inr q \<and> t_cursor (pr_tek q) = t_cursor (pr_tek p) \<and>
    (\<forall>y x. 0 \<le> y \<and> y < pr_nlin p \<and> 0 \<le> x \<and> x < pr_ncol p \<longrightarrow>
      vcell (pr_vram q) y x =
        (if ts_begin (t_scrollreg (pr_tek p)) \<le> y \<and> y < tp_row (t_cursor (pr_tek p)) then vcell (pr_vram p) (y + 1) x
         else if y = tp_row (t_cursor (pr_tek p)) then 32 else vcell (pr_vram p) y x))"
proof -
  let ?p = "tk (\<lambda>t. set_row (tp_row (t_cursor t) + 1) t) p"
  have p: "screen_ok ?p" "region_ok (pr_tek ?p)" "tp_row (t_cursor (pr_tek ?p)) \<le> pr_nlin ?p"
    "pr_vram ?p = pr_vram p" "pr_nlin ?p = pr_nlin p" "pr_ncol ?p = pr_ncol p"
    "t_scrollreg (pr_tek ?p) = t_scrollreg (pr_tek p)"
    "tp_row (t_cursor (pr_tek ?p)) = ts_end (t_scrollreg (pr_tek p))"
    "tp_col (t_cursor (pr_tek ?p)) = tp_col (t_cursor (pr_tek p))" "t_winsize (pr_tek ?p) = t_winsize (pr_tek p)"
    using assms by (auto simp: tk_def term_ok_defs split: if_splits)
  obtain q where q: "teken_subr_do_scroll 1 ?p = Inr q" "drawn ?p (\<lambda>y x.
      if ts_begin (t_scrollreg (pr_tek p)) \<le> y \<and> y < ts_end (t_scrollreg (pr_tek p)) - 1 then vcell (pr_vram p) (y + 1) x
      else if y = ts_end (t_scrollreg (pr_tek p)) - 1 then 32 else vcell (pr_vram p) y x) q"
    using drawn_scroll_up [OF p(1-3)] unfolding p(4,7) by (auto simp: okR_def)
  then obtain v where v: "q = ?p\<lparr>pr_vram := v\<rparr>"
    "\<forall>y x. 0 \<le> y \<and> y < pr_nlin p \<and> 0 \<le> x \<and> x < pr_ncol p \<longrightarrow> vcell v y x =
      (if ts_begin (t_scrollreg (pr_tek p)) \<le> y \<and> y < ts_end (t_scrollreg (pr_tek p)) - 1 then vcell (pr_vram p) (y + 1) x
       else if y = ts_end (t_scrollreg (pr_tek p)) - 1 then 32 else vcell (pr_vram p) y x)"
    unfolding drawn_def p(5,6) by blast
  have e: "1 \<le> ts_end (t_scrollreg (pr_tek p))" "ts_end (t_scrollreg (pr_tek p)) \<le> tp_row (t_winsize (pr_tek p))"
    "ts_end (t_scrollreg (pr_tek p)) \<le> 65535"
    "tp_col (t_cursor (pr_tek p)) < tp_col (t_winsize (pr_tek p))"
    using assms by (auto simp: term_ok_defs)
  have "teken_subr_newline p = Inr (tk (flag_andn TS_WRAPPED) (tk (set_row (ts_end (t_scrollreg (pr_tek p)) - 1)) q))"
    using q(1) e p(7-10) v(1)
    by (simp add: teken_subr_newline_def Let_def teken_funcs_cursor_def term_cursor_def tk_def tek_stores)
  then show ?thesis
    using v(2) e assms(2) by (auto simp: v(1) tk_def tek_stores)
qed

theorem newline_scrolls_witness:
  "\<exists>p q. term_ok 0 p \<and> tp_row (t_cursor (pr_tek p)) = ts_end (t_scrollreg (pr_tek p)) - 1 \<and>
    teken_subr_newline p = Inr q \<and> t_cursor (pr_tek q) = t_cursor (pr_tek p)"
proof -
  obtain p where p: "term_ok 0 p" using process_new_ok by blast
  let ?q = "tk (set_row (ts_end (t_scrollreg (pr_tek p)) - 1)) p"
  have q: "term_ok 0 ?q" "tp_row (t_cursor (pr_tek ?q)) = ts_end (t_scrollreg (pr_tek ?q)) - 1"
    using p by (auto simp: tk_def term_ok_defs split: if_splits)
  then show ?thesis using newline_scrolls [OF q] by blast
qed

definition is_cont :: "byte \<Rightarrow> bool" where
  "is_cont b = (b AND 0xc0 = 0x80)"

text \<open>The length of the sequence that a lead byte starts, 0 for other bytes.\<close>

definition utf8_len :: "byte \<Rightarrow> nat" where
  "utf8_len b = (if b AND 0xe0 = 0xc0 then 2 else if b AND 0xf0 = 0xe0 then 3
     else if b AND 0xf8 = 0xf0 then 4 else 0)"

definition utf8_done :: "u32 \<Rightarrow> process \<Rightarrow> process" where
  "utf8_done w p = tk (\<lambda>t. t\<lparr>t_utf8_left := 0, t_utf8_partial := w\<rparr>) p"

lemma cont_not_lead:
  assumes "is_cont b"
  shows "b AND 0x80 \<noteq> 0" "b AND 0xe0 \<noteq> 0xc0" "b AND 0xf0 \<noteq> 0xe0" "b AND 0xf8 \<noteq> 0xf0" "b AND 0xc0 = 0x80"
proof -
  have b: "b AND 0xc0 = 0x80" using assms by (simp add: is_cont_def)
  have 1: "b AND 0x80 = (b AND 0xc0) AND 0x80" "(b AND 0xe0) AND 0xc0 = b AND 0xc0"
    "(b AND 0xf0) AND 0xc0 = b AND 0xc0" "(b AND 0xf8) AND 0xc0 = b AND 0xc0"
    by (simp_all add: and.assoc)
  show "b AND 0x80 \<noteq> 0" unfolding 1(1) b by simp
  show "b AND 0xe0 \<noteq> 0xc0" using 1(2) b by auto
  show "b AND 0xf0 \<noteq> 0xe0" using 1(3) b by auto
  show "b AND 0xf8 \<noteq> 0xf0" using 1(4) b by auto
  show "b AND 0xc0 = 0x80" by (rule b)
qed

lemma cont_step:
  assumes "is_cont b" "\<not> flag (pr_tek p) TS_8BIT" "t_utf8_left (pr_tek p) = Suc n"
  shows "teken_input_byte b p =
    (let w = push_bit 6 (t_utf8_partial (pr_tek p)) OR ucast (b AND 0x3f);
         q = tk (\<lambda>t. t\<lparr>t_utf8_left := n, t_utf8_partial := w\<rparr>) p
     in if n = 0 then teken_input_char (uint w) q else Inr q)"
  using assms(2,3) cont_not_lead [OF assms(1)] by (simp add: teken_input_byte_def Let_def tk_def)

lemma lead_step:
  assumes "\<not> flag (pr_tek p) TS_8BIT"
  shows "b AND 0xe0 = 0xc0 \<Longrightarrow> teken_input_byte b p = utf8_start 1 (b AND 0x1f) p"
    and "b AND 0xf0 = 0xe0 \<Longrightarrow> teken_input_byte b p = utf8_start 2 (b AND 0x0f) p"
    and "b AND 0xf8 = 0xf0 \<Longrightarrow> teken_input_byte b p = utf8_start 3 (b AND 0x07) p"
proof -
  have masks: "b AND 0x80 = (b AND 0xe0) AND 0x80" "b AND 0x80 = (b AND 0xf0) AND 0x80"
    "b AND 0x80 = (b AND 0xf8) AND 0x80" "b AND 0xe0 = (b AND 0xf0) AND 0xe0"
    "b AND 0xe0 = (b AND 0xf8) AND 0xe0" "b AND 0xf0 = (b AND 0xf8) AND 0xf0"
    by (simp_all add: and.assoc)
  show "teken_input_byte b p = utf8_start 1 (b AND 0x1f) p" if "b AND 0xe0 = 0xc0"
    using masks(1) that assms by (simp add: teken_input_byte_def)
  show "teken_input_byte b p = utf8_start 2 (b AND 0x0f) p" if "b AND 0xf0 = 0xe0"
    using masks(2,4) that assms by (simp add: teken_input_byte_def)
  show "teken_input_byte b p = utf8_start 3 (b AND 0x07) p" if "b AND 0xf8 = 0xf0"
    using masks(3,5,6) that assms by (simp add: teken_input_byte_def)
qed

text \<open>
  C22.  The emulator decodes a multi-byte UTF-8 character as \<open>teken_utf8_bytes_to_codepoint\<close> does:
  a lead byte of the given length and continuation bytes have the effect of the one character,
  with the decoder state consumed.
\<close>

theorem utf8_decoding:
  assumes "\<not> flag (pr_tek p) TS_8BIT" "is_cont b1" "is_cont b2" "is_cont b3" "utf8_len b0 = n" "n \<noteq> 0"
  shows "teken_input (take n [b0, b1, b2, b3]) p =
    (let w = teken_utf8_bytes_to_codepoint [b0, b1, b2, b3] (int n) in teken_input_char (uint w) (utf8_done w p))"
proof -
  have last: "bindR m (teken_input []) = m" for m by (cases m) simp_all
  consider "b0 AND 0xe0 = 0xc0" "n = 2" | "b0 AND 0xf0 = 0xe0" "n = 3" | "b0 AND 0xf8 = 0xf0" "n = 4"
    using assms(5,6) by (auto simp: utf8_len_def split: if_splits)
  then show ?thesis
    by cases (use assms(1-4) in \<open>simp_all add: lead_step utf8_start_def cont_step tk_def utf8_done_def Let_def
      push_bit_or or.assoc last numeral_eq_Suc\<close>)
qed

theorem utf8_decoding_witness:
  "teken_input (take 3 [0xe2, 0x82, 0xac, 0x80]) (zero_process (\<lambda>n l. int l)) =
    teken_input_char 0x20ac (utf8_done 0x20ac (zero_process (\<lambda>n l. int l)))"
proof -
  have "teken_utf8_bytes_to_codepoint [0xe2, 0x82, 0xac, 0x80] (int 3) = 0x20ac" by code_simp
  moreover have "\<not> flag (pr_tek (zero_process (\<lambda>n l. int l))) TS_8BIT"
    by (simp add: zero_process_def zero_teken_def flag_def)
  ultimately show ?thesis
    using utf8_decoding [where p = "zero_process (\<lambda>n l. int l)" and ?b1.0 = "0x82" and ?b2.0 = "0xac"
      and ?b3.0 = "0x80" and ?b0.0 = "0xe2" and n = 3]
    by (simp add: is_cont_def utf8_len_def)
qed

text \<open>
  C30.  A horizontal tab moves the cursor to the next tab stop on its line, or to the last column
  when there is none before it; on the last column it stays.
\<close>

theorem horizontal_tab_next_stop:
  assumes "term_ok k p"
  shows "\<exists>q. teken_subr_horizontal_tab p = Inr q \<and>
    (let c = tp_col (t_cursor (pr_tek p)); c' = tp_col (t_cursor (pr_tek q)); w = pr_ncol p in
     if c = w - 1 then q = p
     else c < c' \<and> c' \<le> w - 1 \<and> (c' = w - 1 \<or> teken_tab_isset (pr_tek p) c' = Inr True) \<and>
       (\<forall>d. c < d \<and> d < c' \<longrightarrow> teken_tab_isset (pr_tek p) d = Inr False))"
proof -
  let ?t = "pr_tek p"
  have t: "0 \<le> tp_col (t_cursor ?t)" "tp_col (t_cursor ?t) < tp_col (t_winsize ?t)" "tp_col (t_winsize ?t) \<le> 65535"
    "tab_ok ?t" "tp_row (t_cursor ?t) < tp_row (t_winsize ?t)" "tp_col (t_winsize ?t) = pr_ncol p"
    using assms by (auto simp: term_ok_defs tab_ok_def)
  have eq: "teken_subr_horizontal_tab p = bindR (forward_tab_loop 65536 1 ?t) (\<lambda>t. teken_funcs_cursor (p\<lparr>pr_tek := t\<rparr>))"
    by (simp only: teken_subr_horizontal_tab_def teken_subr_cursor_forward_tabulation_def on_tek_def bindR_assoc bindR_simps)
  show ?thesis
  proof (cases "tp_col (t_cursor ?t) = tp_col (t_winsize ?t) - 1")
    case True
    have "forward_tab_loop 65536 1 ?t = Inr ?t"
      using True by (subst numeral_eq_Suc, subst forward_tab_loop.simps) simp
    then show ?thesis unfolding eq using True t by (simp add: teken_funcs_cursor_def term_cursor_def)
  next
    case False
    have m: "okR (col_moved ?t) (forward_tab_loop 65536 1 ?t)"
      by (rule forward_tab_loop_ok) (use t in \<open>auto simp: tab_ok_def\<close>)
    have "tp_col (t_winsize ?t) - tp_col (t_cursor ?t) \<le> int 65536" using t by simp
    from forward_tab_finds [OF t(1-4) this False] m obtain u where u: "forward_tab_loop 65536 1 ?t = Inr u"
      "col_moved ?t u" "tp_col (t_cursor ?t) < tp_col (t_cursor u)" "tp_col (t_cursor u) \<le> tp_col (t_winsize ?t) - 1"
      "tp_col (t_cursor u) = tp_col (t_winsize ?t) - 1 \<or> tp_col (t_cursor u) \<in> tab_stops ?t"
      "\<forall>c. tp_col (t_cursor ?t) < c \<and> c < tp_col (t_cursor u) \<longrightarrow> c \<notin> tab_stops ?t"
      by (auto simp: okR_def)
    have "teken_subr_horizontal_tab p = Inr (p\<lparr>pr_tek := u\<rparr>)"
      unfolding eq using u t by (auto simp: teken_funcs_cursor_def term_cursor_def col_moved_def)
    then show ?thesis using False u t tabs.isset_law [OF t(4)] by (auto simp: Let_def)
  qed
qed

theorem horizontal_tab_next_stop_witness:
  "\<exists>p q. process_new (\<lambda>n l. int l) = Inr p \<and> teken_subr_horizontal_tab p = Inr q \<and> 8 < tp_col (t_cursor (pr_tek q))"
proof -
  obtain p where p: "process_new (\<lambda>n l. int l) = Inr p" "term_ok 0 p"
    "t_cursor (pr_tek p) = \<lparr>tp_row = 0, tp_col = 8\<rparr>" "pr_ncol p = 80"
    using process_new_ok by blast
  then show ?thesis using horizontal_tab_next_stop [OF p(2)] by (auto simp: Let_def)
qed

text \<open>
  C36.  \<open>teken_subr_cursor_up\<close> moves a cursor that is above the scrolling region down, to the first
  line of the region, for every number of lines.
\<close>

theorem cursor_up_moves_down:
  assumes "term_ok k p" "tp_row (t_cursor (pr_tek p)) < ts_begin (t_scrollreg (pr_tek p))" "1 \<le> n" "n < 2 ^ 30"
  shows "\<exists>q. teken_subr_cursor_up n p = Inr q \<and>
    tp_row (t_cursor (pr_tek q)) = ts_begin (t_scrollreg (pr_tek p)) \<and>
    tp_row (t_cursor (pr_tek p)) < tp_row (t_cursor (pr_tek q))"
  using assms
  by (auto simp: teken_subr_cursor_up_def teken_funcs_cursor_def term_cursor_def tk_def term_ok_defs Let_def)

theorem cursor_up_moves_down_witness:
  "\<exists>p q. term_ok 0 p \<and> teken_subr_cursor_up 1 p = Inr q \<and>
    tp_row (t_cursor (pr_tek p)) < tp_row (t_cursor (pr_tek q))"
proof -
  obtain p where p: "term_ok 0 p" "pr_nlin p = 24" using process_new_ok by blast
  let ?q = "tk (\<lambda>t. t\<lparr>t_scrollreg := \<lparr>ts_begin = 4, ts_end = 10\<rparr>,
     t_originreg := \<lparr>ts_begin = 0, ts_end = 24\<rparr>, t_cursor := \<lparr>tp_row = 0, tp_col = 0\<rparr>,
     t_stateflags := 0\<rparr>) p"
  have q: "term_ok 0 ?q" using p by (auto simp: tk_def term_ok_defs)
  have "tp_row (t_cursor (pr_tek ?q)) < ts_begin (t_scrollreg (pr_tek ?q))" by (simp add: tk_def)
  from cursor_up_moves_down [OF q this, of 1] show ?thesis using q by auto
qed

text \<open>
  The command \<open>-winsz\<close> accepts two columns, but the emulator aborts on such a terminal: the
  second of two full-width characters wraps to the next line, where the cursor is set to the
  column after the character, which is outside of the window.
\<close>

theorem two_columns_abort:
  "bindR (on_tek teken_init (zero_process (\<lambda>n l. int l))) (\<lambda>p.
     bindR (process_set_winsz 2 2 p) (teken_input [0xe4, 0xb8, 0x80, 0xe4, 0xb8, 0x80])) = Inl AssertFail"
  unfolding faults_iff [symmetric] by code_simp

end
