(* ===== verification/Vlu.thy ===== *)
theory Vlu
  imports VTest_Prelude
begin

text \<open>
  The line buffer \<open>lib/vlu.c\<close>: bytes arrive in pieces, a callback gets every complete line.

  \<^item> Model.  \<open>vlu\<close> is \<open>struct vlu\<close> without its callback; \<open>vlu_buf\<close> has the \<open>bufl + 1\<close> bytes of
    the allocation.  The callback \<open>func\<close> and the state \<open>priv\<close> that it works on are arguments:
    \<open>func priv line\<close> gives the new state and the returned \<open>int\<close>.  \<open>VLU_Feed\<close> may run forever, so its
    loop is a partial function whose value is then \<open>None\<close>; \<open>read(2)\<close> is an argument of \<open>VLU_Fd\<close>.
  \<^item> Specification.  \<open>split_lines\<close> cuts a byte sequence at CR and NL, \<open>deliver\<close> runs the callback
    until it returns something else than 0.
  \<^item> Properties.  On data without NUL whose lines are shorter than the buffer, \<open>VLU_Feed\<close> ends,
    delivers exactly the lines and keeps the rest, so it does not matter how the bytes are cut into
    pieces.  With a longer line it never returns.
\<close>

subsection \<open>State and operations\<close>

record vlu =
  vlu_buf :: "byte list"
  vlu_bufl :: nat
  vlu_bufp :: nat

type_synonym 'p vlu_f = "'p \<Rightarrow> byte list \<Rightarrow> 'p \<times> int"

abbreviation BUFSIZ :: nat where
  "BUFSIZ \<equiv> 8192"

text \<open>\<open>mem\<close> is what the allocation of a given size contains; allocation never fails.\<close>

definition VLU_New :: "(nat \<Rightarrow> byte) \<Rightarrow> nat \<Rightarrow> vlu" where
  "VLU_New mem bufsize = (let bufsize = (if bufsize = 0 then BUFSIZ else bufsize); bufl = bufsize - 1 in
     \<lparr>vlu_buf = map mem [0..<bufl + 1], vlu_bufl = bufl, vlu_bufp = 0\<rparr>)"

definition VLU_Reset :: "vlu \<Rightarrow> vlu" where
  "VLU_Reset l = l\<lparr>vlu_bufp := 0\<rparr>"

definition is_eol :: "byte \<Rightarrow> bool" where
  "is_eol c = (c = 10 \<or> c = 13)"

text \<open>The inner loop of \<open>LineUpProcess\<close>: the index of the first CR, NL or NUL from \<open>q\<close> on.\<close>

function find_eol :: "byte list \<Rightarrow> nat \<Rightarrow> nat res" where
  "find_eol buf q = bindR (nthR buf q) (\<lambda>c.
     if c = 0 then Inr q
     else if is_eol c then Inr q
     else find_eol buf (q + 1))"
  by pat_completeness auto
termination
  by (relation "measure (\<lambda>(buf, q). length buf - q)") (auto simp: nthR_Inr_iff)

declare find_eol.simps [simp del]

lemma find_eol_bounds: "find_eol buf q = Inr r \<Longrightarrow> q \<le> r \<and> r < length buf"
  by (induction buf q rule: find_eol.induct)
    (subst (asm) (2) find_eol.simps, auto simp: res_iffs split: if_splits dest: Suc_leD)

text \<open>\<open>strchr(p, '\<^verbatim>\<open>\0\<close>')\<close>, and the C string at \<open>p\<close> that a callback sees.\<close>

function find_nul :: "byte list \<Rightarrow> nat \<Rightarrow> nat res" where
  "find_nul buf q = bindR (nthR buf q) (\<lambda>c. if c = 0 then Inr q else find_nul buf (q + 1))"
  by pat_completeness auto
termination
  by (relation "measure (\<lambda>(buf, q). length buf - q)") (auto simp: nthR_Inr_iff)

declare find_nul.simps [simp del]

definition cstring_at :: "byte list \<Rightarrow> nat \<Rightarrow> byte list" where
  "cstring_at buf p = takeWhile (\<lambda>c. c \<noteq> 0) (drop p buf)"

text \<open>
  The outer loop of \<open>LineUpProcess\<close>: the buffer, the callback's state, the final \<open>p\<close>, and the
  value of the callback that ended the loop, 0 if none did.
\<close>

function line_loop :: "'p vlu_f \<Rightarrow> byte list \<Rightarrow> 'p \<Rightarrow> nat \<Rightarrow> (byte list \<times> 'p \<times> nat \<times> int) res" where
  "line_loop func buf priv p = bindR (nthR buf p) (\<lambda>c.
     if c = 0 then Inr (buf, priv, p, 0)
     else bindR (find_eol buf p) (\<lambda>q.
       if buf ! q = 0 then Inr (buf, priv, p, 0)
       else let buf' = buf[q := 0]; (priv', i) = func priv (cstring_at buf' p) in
         if i \<noteq> 0 then Inr (buf', priv', p, i)
         else line_loop func buf' priv' (q + 1)))"
  by pat_completeness auto
termination
  by (relation "measure (\<lambda>(_, buf, _, p). length buf - p)") (auto dest!: find_eol_bounds)

declare line_loop.simps [simp del]

definition LineUpProcess :: "'p vlu_f \<Rightarrow> vlu \<Rightarrow> 'p \<Rightarrow> (vlu \<times> 'p \<times> int) res" where
  "LineUpProcess func l priv =
     guardR Undefined (vlu_bufp l < length (vlu_buf l)) (
     bindR (line_loop func ((vlu_buf l)[vlu_bufp l := 0]) priv 0) (\<lambda>(buf, priv', p, i).
       if i \<noteq> 0 then Inr (l\<lparr>vlu_buf := buf\<rparr>, priv', i)
       else if buf ! p \<noteq> 0 then
         bindR (find_nul buf p) (\<lambda>q. let n = q - p; buf' = take n (drop p buf) @ drop n buf in
           Inr (l\<lparr>vlu_buf := buf'[n := 0], vlu_bufp := n\<rparr>, priv', 0))
       else Inr (l\<lparr>vlu_buf := buf, vlu_bufp := 0\<rparr>, priv', 0)))"

text \<open>
  \<open>read(fd, .., sz)\<close> is \<open>rd fd sz\<close>: the descriptor after the call, and the bytes that it stores
  (none at the end of the file) or \<open>None\<close> for an error.
\<close>

definition VLU_Fd ::
  "('f \<Rightarrow> nat \<Rightarrow> 'f \<times> byte list option) \<Rightarrow> 'p vlu_f \<Rightarrow> vlu \<Rightarrow> 'p \<Rightarrow> 'f \<Rightarrow> (vlu \<times> 'p \<times> 'f \<times> int) res" where
  "VLU_Fd rd func l priv fd =
     guardR AssertFail (vlu_bufp l \<le> vlu_bufl l) (
     let sz = vlu_bufl l - vlu_bufp l in
     case rd fd sz of
       (fd', None) \<Rightarrow> Inr (l, priv, fd', - 1)
     | (fd', Some bs) \<Rightarrow>
         if bs = [] then Inr (l, priv, fd', - 2)
         else guardR AssertFail (length bs \<le> sz) (
           let buf = take (vlu_bufp l) (vlu_buf l) @ bs @ drop (vlu_bufp l + length bs) (vlu_buf l) in
           bindR (LineUpProcess func (l\<lparr>vlu_buf := buf, vlu_bufp := vlu_bufp l + length bs\<rparr>) priv)
             (\<lambda>(l', priv', i). Inr (l', priv', fd', i))))"

text \<open>The loop of \<open>VLU_File\<close>; it ends when \<open>VLU_Fd\<close> returns something else than 0.\<close>

partial_function (option) file_loop ::
  "('f \<Rightarrow> nat \<Rightarrow> 'f \<times> byte list option) \<Rightarrow> 'p vlu_f \<Rightarrow> vlu \<Rightarrow> 'p \<Rightarrow> 'f \<Rightarrow> ('p \<times> 'f \<times> int) res option" where
  "file_loop rd func l priv fd = (case VLU_Fd rd func l priv fd of
      Inl e \<Rightarrow> Some (Inl e)
    | Inr (l', priv', fd', i) \<Rightarrow> if i = 0 then file_loop rd func l' priv' fd' else Some (Inr (priv', fd', i)))"

definition VLU_File ::
  "('f \<Rightarrow> nat \<Rightarrow> 'f \<times> byte list option) \<Rightarrow> 'p vlu_f \<Rightarrow> (nat \<Rightarrow> byte) \<Rightarrow> nat \<Rightarrow> 'p \<Rightarrow> 'f \<Rightarrow> ('p \<times> 'f \<times> int) res option" where
  "VLU_File rd func mem bufsize priv fd = file_loop rd func (VLU_New mem bufsize) priv fd"

text \<open>
  \<open>VLU_Feed\<close>: \<open>ptr\<close> is the object at the pointer.  With \<open>bufp > bufl\<close> the unsigned difference
  wraps and \<open>memcpy\<close> writes past the buffer.
\<close>

definition feed_copy :: "vlu \<Rightarrow> byte list \<Rightarrow> nat \<Rightarrow> (nat \<times> vlu) res" where
  "feed_copy l ptr len = guardR Undefined (vlu_bufp l \<le> vlu_bufl l) (
     let u = (if len > vlu_bufl l - vlu_bufp l then vlu_bufl l - vlu_bufp l else len) in
     guardR Undefined (u \<le> length ptr \<and> vlu_bufp l + u \<le> length (vlu_buf l)) (
     Inr (u, l\<lparr>vlu_buf := take (vlu_bufp l) (vlu_buf l) @ take u ptr @ drop (vlu_bufp l + u) (vlu_buf l),
       vlu_bufp := vlu_bufp l + u\<rparr>)))"

partial_function (option) feed_loop ::
  "'p vlu_f \<Rightarrow> vlu \<Rightarrow> 'p \<Rightarrow> byte list \<Rightarrow> nat \<Rightarrow> (vlu \<times> 'p \<times> int) res option" where
  "feed_loop func l priv ptr len = (if len > 0 then
      (case feed_copy l ptr len of
        Inl e \<Rightarrow> Some (Inl e)
      | Inr (u, l1) \<Rightarrow>
          (case LineUpProcess func l1 priv of
            Inl e \<Rightarrow> Some (Inl e)
          | Inr (l2, priv', i) \<Rightarrow>
              if i \<noteq> 0 then Some (Inr (l2, priv', i))
              else feed_loop func l2 priv' (drop u ptr) (len - u)))
    else Some (Inr (l, priv, 0)))"

definition VLU_Feed :: "'p vlu_f \<Rightarrow> vlu \<Rightarrow> 'p \<Rightarrow> byte list \<Rightarrow> int \<Rightarrow> (vlu \<times> 'p \<times> int) res option" where
  "VLU_Feed func l priv ptr len =
     (if len > 0 then feed_loop func l priv ptr (nat len) else Some (Inl AssertFail))"

subsection \<open>Specification\<close>

fun split_lines :: "byte list \<Rightarrow> byte list \<Rightarrow> byte list list \<times> byte list" where
  "split_lines acc [] = ([], acc)"
| "split_lines acc (b # bs) = (if is_eol b
     then (let (ls, r) = split_lines [] bs in (acc # ls, r))
     else split_lines (acc @ [b]) bs)"

fun deliver :: "'p vlu_f \<Rightarrow> 'p \<Rightarrow> byte list list \<Rightarrow> 'p \<times> int" where
  "deliver func priv [] = (priv, 0)"
| "deliver func priv (x # xs) = (let (priv', i) = func priv x in
     if i \<noteq> 0 then (priv', i) else deliver func priv' xs)"

definition pending :: "vlu \<Rightarrow> byte list" where
  "pending l = take (vlu_bufp l) (vlu_buf l)"

definition plain :: "byte list \<Rightarrow> bool" where
  "plain bs = (list_all (\<lambda>b. b \<noteq> 0 \<and> \<not> is_eol b) bs)"

definition vlu_ok :: "vlu \<Rightarrow> bool" where
  "vlu_ok l = (length (vlu_buf l) = vlu_bufl l + 1 \<and> vlu_bufp l \<le> vlu_bufl l \<and> plain (pending l))"

text \<open>Every line of the data, the unfinished one included, is shorter than \<open>n\<close>.\<close>

definition lines_fit :: "nat \<Rightarrow> byte list \<Rightarrow> byte list \<Rightarrow> bool" where
  "lines_fit n acc bs = (let (ls, r) = split_lines acc bs in list_all (\<lambda>l. length l < n) (ls @ [r]))"

subsection \<open>Lines\<close>

lemma plain_simps [simp]:
  "plain []"
  "plain (b # bs) = (b \<noteq> 0 \<and> \<not> is_eol b \<and> plain bs)"
  "plain (xs @ ys) = (plain xs \<and> plain ys)"
  by (auto simp: plain_def)

lemma is_eol_nz: "is_eol c \<Longrightarrow> c \<noteq> 0"
  by (auto simp: is_eol_def)

lemma split_no_eol: "\<forall>x\<in>set xs. \<not> is_eol x \<Longrightarrow> split_lines acc xs = ([], acc @ xs)"
  by (induction xs arbitrary: acc) auto

lemma split_plain: "plain xs \<Longrightarrow> split_lines acc xs = ([], acc @ xs)"
  by (simp add: split_no_eol plain_def list_all_iff)

lemma split_append:
  "split_lines acc (xs @ ys) =
     (let (ls, r) = split_lines acc xs; (ls', r') = split_lines r ys in (ls @ ls', r'))"
  by (induction acc xs rule: split_lines.induct) (auto simp: Let_def split: prod.split)

lemma split_pending: "plain acc \<Longrightarrow> split_lines acc xs = split_lines [] (acc @ xs)"
  by (simp add: split_append split_plain)

lemma split_rest_plain: "plain acc \<Longrightarrow> 0 \<notin> set xs \<Longrightarrow> plain (snd (split_lines acc xs))"
  by (induction acc xs rule: split_lines.induct) (auto split: prod.split)

lemma first_eol:
  assumes "0 \<notin> set bs" and "\<not> plain bs"
  obtains xs c ys where "bs = xs @ c # ys" "plain xs" "is_eol c"
proof -
  have "\<exists>x\<in>set bs. is_eol x" using assms by (auto simp: plain_def list_all_iff)
  then obtain xs c ys where "bs = xs @ c # ys" "is_eol c" "\<forall>x\<in>set xs. \<not> is_eol x"
    using split_list_first_prop [of bs is_eol] by blast
  then show thesis using assms(1) by (intro that) (auto simp: plain_def list_all_iff)
qed

lemma deliver_append:
  "deliver func priv (xs @ ys) =
     (let (priv', i) = deliver func priv xs in if i \<noteq> 0 then (priv', i) else deliver func priv' ys)"
  by (induction xs arbitrary: priv) (auto simp: Let_def split: prod.split)

subsection \<open>The loops of the code\<close>

lemma exI2: "P a b \<Longrightarrow> \<exists>x y. P x y"
  by blast

lemma find_eol_eq:
  "plain xs \<Longrightarrow> c = 0 \<or> is_eol c \<Longrightarrow> find_eol (pre @ xs @ c # ys) (length pre) = Inr (length pre + length xs)"
proof (induction xs arbitrary: pre)
  case Nil
  then show ?case by (subst find_eol.simps) auto
next
  case (Cons x xs)
  then show ?case using Cons.IH [of "pre @ [x]"] by (subst find_eol.simps) simp
qed

lemma find_nul_eq:
  "0 \<notin> set xs \<Longrightarrow> find_nul (pre @ xs @ 0 # ys) (length pre) = Inr (length pre + length xs)"
proof (induction xs arbitrary: pre)
  case Nil
  then show ?case by (subst find_nul.simps) simp
next
  case (Cons x xs)
  then show ?case using Cons.IH [of "pre @ [x]"] by (subst find_nul.simps) auto
qed

lemma plain_nz: "plain xs \<Longrightarrow> 0 \<notin> set xs"
  by (auto simp: plain_def list_all_iff)

lemma cstring_at_eq: "0 \<notin> set xs \<Longrightarrow> cstring_at (pre @ xs @ 0 # ys) (length pre) = xs"
  by (induction xs) (auto simp: cstring_at_def)

text \<open>
  What the outer loop does with the data \<open>bs\<close> between \<open>p\<close> and the NUL: the lines are delivered,
  and if no callback ends the loop, the unfinished line and the NUL are at the new \<open>p\<close>.
\<close>

lemma line_loop_eq:
  assumes "0 \<notin> set bs"
  shows "\<exists>pre' r. line_loop func (pre @ bs @ 0 # zs) priv (length pre) =
      Inr (pre' @ r @ 0 # zs, fst (deliver func priv (fst (split_lines [] bs))), length pre',
        snd (deliver func priv (fst (split_lines [] bs)))) \<and>
      length pre' + length r = length pre + length bs \<and>
      (snd (deliver func priv (fst (split_lines [] bs))) = 0 \<longrightarrow> r = snd (split_lines [] bs))"
  using assms
proof (induction "length bs" arbitrary: bs pre priv rule: less_induct)
  case less
  show ?case
  proof (cases "plain bs")
    case True
    have "line_loop func (pre @ bs @ 0 # zs) priv (length pre) = Inr (pre @ bs @ 0 # zs, priv, length pre, 0)"
    proof (cases bs)
      case Nil
      then show ?thesis by (subst line_loop.simps) simp
    next
      case (Cons b bs')
      then show ?thesis using True find_eol_eq [of bs 0 pre zs] by (subst line_loop.simps) (simp add: nth_append)
    qed
    moreover have "split_lines [] bs = ([], bs)" using split_plain [OF True, of "[]"] by simp
    ultimately show ?thesis by (auto intro: exI2 [of _ pre bs])
  next
    case False
    obtain xs c ys where bs: "bs = xs @ c # ys" and xs: "plain xs" and c: "is_eol c"
      using first_eol [OF less.prems False] by blast
    obtain priv' i where f: "func priv xs = (priv', i)" by fastforce
    define pre1 where "pre1 = pre @ xs @ [0]"
    have len: "length pre1 = Suc (length pre + length xs)" by (simp add: pre1_def)
    have lenb: "length bs = Suc (length xs + length ys)" by (simp add: bs)
    have q: "find_eol (pre @ bs @ 0 # zs) (length pre) = Inr (length pre + length xs)"
      using find_eol_eq [of xs c pre "ys @ 0 # zs"] xs c bs by simp
    have upd: "(pre @ bs @ 0 # zs)[length pre + length xs := 0] = pre1 @ ys @ 0 # zs"
      unfolding bs pre1_def by (simp add: list_update_append)
    have at: "(pre @ bs @ 0 # zs) ! (length pre + length xs) = c"
      unfolding bs by (simp add: nth_append)
    have cs: "cstring_at (pre1 @ ys @ 0 # zs) (length pre) = xs"
      using cstring_at_eq [of xs pre "ys @ 0 # zs"] plain_nz [OF xs] by (simp add: pre1_def)
    have ne: "(pre @ bs @ 0 # zs) ! length pre \<noteq> 0"
      using xs is_eol_nz [OF c] by (cases xs) (auto simp: bs nth_append)
    have step: "line_loop func (pre @ bs @ 0 # zs) priv (length pre) =
       (if i \<noteq> 0 then Inr (pre1 @ ys @ 0 # zs, priv', length pre, i)
        else line_loop func (pre1 @ ys @ 0 # zs) priv' (length pre1))"
      using is_eol_nz [OF c] ne q at
      by (subst line_loop.simps) (simp add: upd cs f len)
    obtain ls r where sp: "split_lines [] ys = (ls, r)" by fastforce
    have spl: "split_lines [] bs = (xs # ls, r)"
      using split_plain [OF xs, of "[]"] c by (simp add: bs split_append sp)
    show ?thesis
    proof (cases "i = 0")
      case True
      have "length ys < length bs" "0 \<notin> set ys" using less.prems by (simp_all add: bs)
      from less.hyps [OF this, of pre1 priv'] obtain pre' r' where
        "line_loop func (pre1 @ ys @ 0 # zs) priv' (length pre1) =
           Inr (pre' @ r' @ 0 # zs, fst (deliver func priv' ls), length pre', snd (deliver func priv' ls))"
        "length pre' + length r' = length pre1 + length ys"
        "snd (deliver func priv' ls) = 0 \<longrightarrow> r' = r"
        using sp by auto
      then show ?thesis using True by (auto intro!: exI2 [of _ pre' r'] simp: step spl f len lenb)
    next
      case False
      then show ?thesis by (auto intro!: exI2 [of _ pre "xs @ 0 # ys"] simp: step spl f pre1_def lenb)
    qed
  qed
qed

text \<open>The bytes that the code looks at end at the first NUL; what follows a NUL is lost.\<close>

definition upto_nul :: "byte list \<Rightarrow> byte list" where
  "upto_nul bs = takeWhile (\<lambda>b. b \<noteq> 0) bs"

lemma upto_nul_id: "0 \<notin> set bs \<Longrightarrow> upto_nul bs = bs"
  by (auto simp: upto_nul_def takeWhile_eq_all_conv)

lemma upto_nul_nz: "0 \<notin> set (upto_nul bs)"
  by (auto simp: upto_nul_def dest: set_takeWhileD)

lemma upto_nul_split: "\<exists>ys. bs @ 0 # zs = upto_nul bs @ 0 # ys"
  by (induction bs) (auto simp: upto_nul_def)

lemma LineUpProcess_eq:
  assumes len: "length (vlu_buf l) = vlu_bufl l + 1" "vlu_bufp l \<le> vlu_bufl l"
    and sp: "split_lines [] (upto_nul (pending l)) = (ls, r)" and dl: "deliver func priv ls = (priv', i)"
  shows "\<exists>l'. LineUpProcess func l priv = Inr (l', priv', i) \<and> vlu_bufl l' = vlu_bufl l \<and>
    length (vlu_buf l') = length (vlu_buf l) \<and> vlu_bufp l' \<le> vlu_bufl l \<and> (i = 0 \<longrightarrow> pending l' = r)"
proof -
  obtain zs where zs: "pending l @ 0 # drop (Suc (vlu_bufp l)) (vlu_buf l) = upto_nul (pending l) @ 0 # zs"
    using upto_nul_split by blast
  have buf: "(vlu_buf l)[vlu_bufp l := 0] = [] @ upto_nul (pending l) @ 0 # zs"
    using len zs by (simp add: upd_conv_take_nth_drop pending_def)
  obtain pre r' where
    ll: "line_loop func ([] @ upto_nul (pending l) @ 0 # zs) priv (length []) =
      Inr (pre @ r' @ 0 # zs, priv', length pre, i)"
    and n: "length pre + length r' = length (upto_nul (pending l))" and r': "i = 0 \<longrightarrow> r' = r"
    using line_loop_eq [OF upto_nul_nz, of func "[]" "pending l" zs priv] sp dl by auto
  have "length (pending l @ 0 # drop (Suc (vlu_bufp l)) (vlu_buf l)) = vlu_bufl l + 1"
    using len by (simp add: pending_def)
  then have tot: "length (pre @ r' @ 0 # zs) = vlu_bufl l + 1" using n zs by simp
  consider (stop) "i \<noteq> 0" | (rest) "i = 0" "r \<noteq> []" | (empty) "i = 0" "r = []" by blast
  then show ?thesis
  proof cases
    case stop
    then show ?thesis using ll len tot by (simp add: LineUpProcess_def buf)
  next
    case rest
    have "0 \<notin> set r" using split_rest_plain [of "[]" "upto_nul (pending l)"] sp upto_nul_nz plain_nz by fastforce
    then have fn: "find_nul (pre @ r @ 0 # zs) (length pre) = Inr (length pre + length r)"
      and "(pre @ r @ 0 # zs) ! length pre \<noteq> 0"
      using rest find_nul_eq [of r pre zs] by (auto simp: nth_append neq_Nil_conv)
    then show ?thesis using rest ll len tot r' n
      by (auto simp: LineUpProcess_def buf pending_def Let_def)
  next
    case empty
    then show ?thesis using ll len tot r' by (simp add: LineUpProcess_def buf pending_def)
  qed
qed

text \<open>One round of \<open>VLU_Feed\<close>: as much of the data as fits is added to the unfinished line.\<close>

lemma feed_copy_eq:
  assumes "vlu_ok l" and "len \<le> length ptr" and "u = min len (vlu_bufl l - vlu_bufp l)"
  shows "\<exists>l1. feed_copy l ptr len = Inr (u, l1) \<and> vlu_bufl l1 = vlu_bufl l \<and>
    length (vlu_buf l1) = vlu_bufl l + 1 \<and> vlu_bufp l1 = vlu_bufp l + u \<and> vlu_bufp l1 \<le> vlu_bufl l \<and>
    pending l1 = pending l @ take u ptr"
  using assms by (auto simp: feed_copy_def vlu_ok_def pending_def Let_def min_def)

lemma lines_fit_append:
  "lines_fit n acc (xs @ ys) \<Longrightarrow> split_lines acc xs = (ls, r) \<Longrightarrow> lines_fit n r ys"
  by (auto simp: lines_fit_def split_append Let_def split: prod.splits)

lemma split_first_length: "\<forall>l\<in>set (fst (split_lines acc bs) @ [snd (split_lines acc bs)]). length l < n \<Longrightarrow> length acc < n"
  by (induction acc bs rule: split_lines.induct) (auto split: prod.splits if_splits)

lemma lines_fit_acc: "lines_fit n acc bs \<Longrightarrow> length acc < n"
  using split_first_length [of acc bs n] by (auto simp: lines_fit_def list_all_iff split: prod.splits)

lemma vlu_okI:
  "length (vlu_buf l) = vlu_bufl l + 1 \<Longrightarrow> vlu_bufp l \<le> vlu_bufl l \<Longrightarrow> plain (pending l) \<Longrightarrow> vlu_ok l"
  by (simp add: vlu_ok_def)

lemma length_pending: "vlu_ok l \<Longrightarrow> length (pending l) = vlu_bufp l"
  by (simp add: vlu_ok_def pending_def)

lemma feed_loop_eq:
  assumes "vlu_ok l" and "0 \<notin> set bs" and "lines_fit (vlu_bufl l) (pending l) bs"
    and "split_lines (pending l) bs = (ls, r)" and "deliver func priv ls = (priv', i)"
  shows "\<exists>l'. feed_loop func l priv bs (length bs) = Some (Inr (l', priv', i)) \<and>
    vlu_bufl l' = vlu_bufl l \<and> (i = 0 \<longrightarrow> vlu_ok l' \<and> pending l' = r)"
  using assms
proof (induction "length bs" arbitrary: bs l priv ls rule: less_induct)
  case less
  show ?case
  proof (cases bs)
    case Nil
    then show ?thesis using less.prems by (subst feed_loop.simps) auto
  next
    case (Cons b bs')
    define u where "u = min (length bs) (vlu_bufl l - vlu_bufp l)"
    have u: "0 < u" "u \<le> length bs"
      using lines_fit_acc [OF less.prems(3)] length_pending [OF less.prems(1)] Cons by (auto simp: u_def)
    obtain l1 where l1: "feed_copy l bs (length bs) = Inr (u, l1)" "vlu_bufl l1 = vlu_bufl l"
      "length (vlu_buf l1) = vlu_bufl l1 + 1" "vlu_bufp l1 \<le> vlu_bufl l1"
      "pending l1 = pending l @ take u bs"
      using feed_copy_eq [OF less.prems(1) order_refl u_def] by auto
    obtain ls1 r1 where sp1: "split_lines (pending l) (take u bs) = (ls1, r1)" by fastforce
    obtain ls2 r2 where sp2: "split_lines r1 (drop u bs) = (ls2, r2)" by fastforce
    have pl: "plain (pending l)" using less.prems(1) by (simp add: vlu_ok_def)
    have sp: "ls = ls1 @ ls2" "r = r2"
      using less.prems(4) split_append [of "pending l" "take u bs" "drop u bs"] sp1 sp2 by auto
    obtain priv1 i1 where d1: "deliver func priv ls1 = (priv1, i1)" by fastforce
    have nz: "0 \<notin> set (pending l1)" "0 \<notin> set (take u bs)" "0 \<notin> set (drop u bs)"
      using less.prems(2) plain_nz [OF pl] l1(5) by (auto dest: in_set_takeD in_set_dropD)
    have "split_lines [] (upto_nul (pending l1)) = (ls1, r1)"
      using sp1 split_pending [OF pl] l1(5) upto_nul_id [OF nz(1)] by simp
    from LineUpProcess_eq [OF l1(3,4) this d1] obtain l2 where
      l2: "LineUpProcess func l1 priv = Inr (l2, priv1, i1)" "vlu_bufl l2 = vlu_bufl l"
      "length (vlu_buf l2) = vlu_bufl l2 + 1" "vlu_bufp l2 \<le> vlu_bufl l2" "i1 = 0 \<longrightarrow> pending l2 = r1"
      using l1(2,3) by auto
    have step: "feed_loop func l priv bs (length bs) =
       (if i1 \<noteq> 0 then Some (Inr (l2, priv1, i1)) else feed_loop func l2 priv1 (drop u bs) (length (drop u bs)))"
      using Cons l1 l2(1) by (subst feed_loop.simps) simp
    show ?thesis
    proof (cases "i1 = 0")
      case False
      then show ?thesis using less.prems(5) sp d1 step l2(2) by (auto simp: deliver_append)
    next
      case True
      have "plain r1" using split_rest_plain [OF pl nz(2)] sp1 by simp
      then have ok: "vlu_ok l2" using l2 True by (simp add: vlu_okI)
      have "lines_fit (vlu_bufl l2) r1 (drop u bs)"
        using lines_fit_append [of "vlu_bufl l" "pending l" "take u bs" "drop u bs" ls1 r1]
          less.prems(3) sp1 l2(2) by simp
      then show ?thesis
        using less.hyps [of "drop u bs" l2 ls2 priv1] ok nz(3) u Cons sp sp2 d1 l2 True less.prems(5) step
        by (auto simp: deliver_append)
    qed
  qed
qed

lemma feed_loop_diverges:
  assumes "feed_loop func l priv ptr len = Some y"
  shows "vlu_ok l \<and> len \<le> length ptr \<and> plain (take len ptr) \<longrightarrow> vlu_bufp l + len \<le> vlu_bufl l"
proof (rule feed_loop.raw_induct [where P = "\<lambda>func l priv ptr len y.
    vlu_ok l \<and> len \<le> length ptr \<and> plain (take len ptr) \<longrightarrow> vlu_bufp l + len \<le> vlu_bufl l", OF _ assms], goal_cases)
  case (1 loop func l priv ptr len y)
  show ?case
  proof (intro impI, rule ccontr)
    assume "vlu_ok l \<and> len \<le> length ptr \<and> plain (take len ptr)"
    then have a: "vlu_ok l" "len \<le> length ptr" "plain (take len ptr)" by simp_all
    assume long: "\<not> vlu_bufp l + len \<le> vlu_bufl l"
    define u where "u = min len (vlu_bufl l - vlu_bufp l)"
    have u: "u = vlu_bufl l - vlu_bufp l" "u < len" "vlu_bufp l \<le> vlu_bufl l"
      using long a(1) by (auto simp: u_def vlu_ok_def)
    obtain l1 where l1: "feed_copy l ptr len = Inr (u, l1)" "vlu_bufl l1 = vlu_bufl l"
      "length (vlu_buf l1) = vlu_bufl l1 + 1" "vlu_bufp l1 \<le> vlu_bufl l1"
      "pending l1 = pending l @ take u ptr"
      using feed_copy_eq [OF a(1,2) u_def] by auto
    have "take u ptr = take u (take len ptr)" using u by simp
    then have "plain (take u ptr)" using a(3) by (metis append_take_drop_id plain_simps(3))
    then have pl: "plain (pending l1)" using a(1) l1(5) by (simp add: vlu_ok_def)
    obtain l2 where l2: "LineUpProcess func l1 priv = Inr (l2, priv, 0)" "vlu_bufl l2 = vlu_bufl l"
      "length (vlu_buf l2) = vlu_bufl l2 + 1" "vlu_bufp l2 \<le> vlu_bufl l2" "pending l2 = pending l1"
      using LineUpProcess_eq [OF l1(3,4), of "[]" "pending l1" func priv priv 0] l1(2,3)
        split_plain [OF pl, of "[]"] upto_nul_id [OF plain_nz [OF pl]] by auto
    have ok: "vlu_ok l2" using l2 pl by (simp add: vlu_okI)
    have "vlu_bufp l2 = vlu_bufl l2"
      using length_pending [OF ok] l2 l1(5) length_pending [OF a(1)] u a(2) by simp
    moreover have "loop func l2 priv (drop u ptr) (len - u) = Some y"
      using 1(2) l1(1) l2(1) u(2) by (simp split: if_splits)
    moreover have "plain (take (len - u) (drop u ptr))"
      using a(3) by (metis append_take_drop_id drop_take plain_simps(3))
    ultimately show False using 1(1) [of func l2 priv "drop u ptr" "len - u" y] ok a(2) u(2) diff_le_mono [OF a(2), of u] by auto
  qed
qed

text \<open>
  \<open>VLU_Fd\<close> on any state of the right shape, for a \<open>read(2)\<close> that stores at most what was asked
  for and, whenever it stores something, has less left.
\<close>

definition reader_ok :: "('f \<Rightarrow> nat \<Rightarrow> 'f \<times> byte list option) \<Rightarrow> ('f \<Rightarrow> nat) \<Rightarrow> bool" where
  "reader_ok rd left = (\<forall>fd sz. case rd fd sz of (fd', None) \<Rightarrow> True
     | (fd', Some bs) \<Rightarrow> length bs \<le> sz \<and> (bs \<noteq> [] \<longrightarrow> left fd' < left fd))"

definition vlu_shape :: "vlu \<Rightarrow> bool" where
  "vlu_shape l = (length (vlu_buf l) = vlu_bufl l + 1 \<and> vlu_bufp l \<le> vlu_bufl l)"

lemma LineUpProcess_shape:
  assumes "vlu_shape l"
  shows "okR (\<lambda>(l', priv', i). vlu_shape l') (LineUpProcess func l priv)"
proof -
  obtain ls r where sp: "split_lines [] (upto_nul (pending l)) = (ls, r)" by fastforce
  obtain priv' i where dl: "deliver func priv ls = (priv', i)" by fastforce
  show ?thesis using LineUpProcess_eq [OF _ _ sp dl] assms by (auto simp: vlu_shape_def)
qed

lemma VLU_Fd_shape:
  assumes "reader_ok rd left" and "vlu_shape l"
  shows "okR (\<lambda>(l', priv', fd', i). vlu_shape l' \<and> (i = 0 \<longrightarrow> left fd' < left fd)) (VLU_Fd rd func l priv fd)"
proof -
  obtain fd' d where rd: "rd fd (vlu_bufl l - vlu_bufp l) = (fd', d)" by fastforce
  show ?thesis
  proof (cases "d = None \<or> d = Some []")
    case True
    then show ?thesis using rd assms(2) by (auto simp: VLU_Fd_def vlu_shape_def)
  next
    case False
    then obtain bs where d: "d = Some bs" "bs \<noteq> []" by auto
    have bs: "length bs \<le> vlu_bufl l - vlu_bufp l" "left fd' < left fd"
      using spec [OF spec [OF assms(1) [unfolded reader_ok_def], of fd], of "vlu_bufl l - vlu_bufp l"] rd d
      by simp_all
    define l1 where "l1 = l\<lparr>vlu_buf := take (vlu_bufp l) (vlu_buf l) @ bs @ drop (vlu_bufp l + length bs) (vlu_buf l),
      vlu_bufp := vlu_bufp l + length bs\<rparr>"
    have "vlu_shape l1" using assms(2) bs(1) by (auto simp: vlu_shape_def l1_def)
    from LineUpProcess_shape [OF this, of func priv] show ?thesis
      using rd d bs assms(2) by (auto simp: VLU_Fd_def l1_def [symmetric] vlu_shape_def okR_def)
  qed
qed

lemma file_loop_returns:
  assumes "reader_ok rd left" and "vlu_shape l"
  shows "\<exists>priv' fd' i. file_loop rd func l priv fd = Some (Inr (priv', fd', i)) \<and> i \<noteq> 0"
  using assms(2)
proof (induction "left fd" arbitrary: l priv fd rule: less_induct)
  case less
  obtain l' priv' fd' i where "VLU_Fd rd func l priv fd = Inr (l', priv', fd', i)"
    "vlu_shape l'" "i = 0 \<longrightarrow> left fd' < left fd"
    using VLU_Fd_shape [OF assms(1) less.prems, of fd func priv] by (auto simp: okR_def)
  then show ?case using less.hyps [of fd' l' priv'] by (subst file_loop.simps) auto
qed

lemma VLU_New_ok: "vlu_ok (VLU_New mem n)" "vlu_shape (VLU_New mem n)"
  by (simp_all add: VLU_New_def vlu_ok_def vlu_shape_def pending_def Let_def)

subsection \<open>Properties\<close>

text \<open>
  C10.  \<open>VLU_Feed\<close> implements line splitting: on data without NUL whose lines are shorter than the
  buffer it ends without a fault, the callback gets exactly the lines of the pending bytes
  followed by the data, in order and until it first returns a value other than 0, which
  \<open>VLU_Feed\<close> returns; if it always returns 0 the unfinished last line is pending afterwards.
\<close>

theorem VLU_Feed_lines:
  assumes "vlu_ok l" and "bs \<noteq> []" and "0 \<notin> set bs" and "lines_fit (vlu_bufl l) (pending l) bs"
  shows "\<exists>l'. VLU_Feed func l priv bs (int (length bs)) =
      Some (Inr (l', deliver func priv (fst (split_lines (pending l) bs)))) \<and>
    (snd (deliver func priv (fst (split_lines (pending l) bs))) = 0 \<longrightarrow>
      vlu_ok l' \<and> pending l' = snd (split_lines (pending l) bs))"
proof -
  obtain ls r where sp: "split_lines (pending l) bs = (ls, r)" by fastforce
  obtain priv' i where dl: "deliver func priv ls = (priv', i)" by fastforce
  show ?thesis using feed_loop_eq [OF assms(1,3,4) sp dl] sp dl assms(2) by (auto simp: VLU_Feed_def)
qed

theorem VLU_Feed_lines_witness:
  "\<exists>l'. VLU_Feed (\<lambda>p s. (p @ [s], 0)) (VLU_New (\<lambda>_. 255) 8) [] (cstr ''GET a'' @ [13, 10] @ cstr ''H: b'') 11 =
      Some (Inr (l', [cstr ''GET a'', []], 0)) \<and> pending l' = cstr ''H: b''"
proof -
  have "vlu_ok (VLU_New (\<lambda>_. 255) 8) \<and> 0 \<notin> set (cstr ''GET a'' @ [13, 10] @ cstr ''H: b'') \<and>
    lines_fit (vlu_bufl (VLU_New (\<lambda>_. 255) 8)) (pending (VLU_New (\<lambda>_. 255) 8)) (cstr ''GET a'' @ [13, 10] @ cstr ''H: b'')"
    by code_simp
  moreover have "deliver (\<lambda>p s. (p @ [s], 0)) [] (fst (split_lines (pending (VLU_New (\<lambda>_. 255) 8))
      (cstr ''GET a'' @ [13, 10] @ cstr ''H: b''))) = ([cstr ''GET a'', []], 0)" by code_simp
  moreover have "snd (split_lines (pending (VLU_New (\<lambda>_. 255) 8))
      (cstr ''GET a'' @ [13, 10] @ cstr ''H: b'')) = cstr ''H: b''" by code_simp
  moreover have "length (cstr ''GET a'' @ [13, 10] @ cstr ''H: b'') = 11" by code_simp
  ultimately show ?thesis
    using VLU_Feed_lines [of "VLU_New (\<lambda>_. 255) 8" "cstr ''GET a'' @ [13, 10] @ cstr ''H: b''"
      "\<lambda>p s. (p @ [s], 0)" "[]"] by auto
qed

text \<open>
  C37.  \<open>VLU_Feed\<close> does not end when a line does not fit into the buffer: the buffer is full, every
  further round copies zero bytes, and no line can be delivered.
\<close>

theorem VLU_Feed_long_line_hangs:
  assumes "vlu_ok l" and "plain bs" and "vlu_bufl l < length (pending l) + length bs"
  shows "VLU_Feed func l priv bs (int (length bs)) = None"
proof (rule ccontr)
  assume "VLU_Feed func l priv bs (int (length bs)) \<noteq> None"
  then obtain y where "VLU_Feed func l priv bs (int (length bs)) = Some y" by blast
  moreover have "bs \<noteq> []" using assms by (auto simp: vlu_ok_def pending_def)
  ultimately have "feed_loop func l priv bs (length bs) = Some y" by (simp add: VLU_Feed_def)
  from feed_loop_diverges [OF this] show False
    using assms length_pending [OF assms(1)] by simp
qed

theorem VLU_Feed_long_line_hangs_witness:
  "VLU_Feed (\<lambda>p s. (p @ [s], 0)) (VLU_New (\<lambda>_. 255) 4) [] (cstr ''host'') 4 = None"
proof -
  have "vlu_ok (VLU_New (\<lambda>_. 255) 4) \<and> plain (cstr ''host'') \<and>
    vlu_bufl (VLU_New (\<lambda>_. 255) 4) < length (pending (VLU_New (\<lambda>_. 255) 4)) + length (cstr ''host'')" by code_simp
  moreover have "length (cstr ''host'') = 4" by code_simp
  ultimately show ?thesis
    using VLU_Feed_long_line_hangs [of "VLU_New (\<lambda>_. 255) 4" "cstr ''host''" "\<lambda>p s. (p @ [s], 0)" "[]"] by simp
qed

text \<open>
  C19.  \<open>VLU_File\<close> always ends, whatever the bytes, the lines and the callback are: it returns the
  first value other than 0 of the callback, or the negative value for the end of the file or an
  error, and never fails an assertion or leaves its buffer.  \<open>read(2)\<close> must not return more than it
  is asked for, and the data it can return must be finite.
\<close>

theorem VLU_File_returns:
  assumes "reader_ok rd left"
  shows "\<exists>priv' fd' i. VLU_File rd func mem bufsize priv fd = Some (Inr (priv', fd', i)) \<and> i \<noteq> 0"
  using file_loop_returns [OF assms VLU_New_ok(2)] by (simp add: VLU_File_def)

theorem VLU_File_returns_witness:
  "reader_ok (\<lambda>fd sz. (drop (min sz 3) fd, Some (take (min sz 3) fd))) (length :: byte list \<Rightarrow> nat) \<and>
   (\<exists>priv' fd' i. VLU_File (\<lambda>fd sz. (drop (min sz 3) fd, Some (take (min sz 3) fd)))
      (\<lambda>p s. (p @ [s], 0)) (\<lambda>_. 255) 6 [] (cstr ''ab'' @ [10, 0, 10] @ cstr ''a long line'') =
      Some (Inr (priv', fd', i)) \<and> i \<noteq> 0)"
proof -
  have r: "reader_ok (\<lambda>fd sz. (drop (min sz 3) fd, Some (take (min sz 3) fd))) (length :: byte list \<Rightarrow> nat)"
    by (auto simp: reader_ok_def)
  show ?thesis by (rule conjI [OF r VLU_File_returns [OF r]])
qed

end
