(* ===== verification/Vbh.thy ===== *)
theory Vbh
  imports VTest_Prelude "HOL-Library.Multiset"
begin

text \<open>
  The binary heap \<open>lib/vbh.c\<close>: the structure, the index arithmetic and the operations.

  \<^item> \<open>vbh\<close> is \<open>struct vbh\<close>.  \<open>vb_array\<close> has the row pointers; a row that is allocated has a cell for
    every index, a fresh cell is \<open>Uninit\<close>.  Items are values of type \<open>'a\<close>, the memory behind them and
    behind \<open>priv\<close> is a value of type \<open>'s\<close>: the callbacks \<open>vb_cmp\<close> and \<open>vb_update\<close> read and write it.
  \<^item> \<open>parent\<close> and \<open>child\<close> are the page-aware versions that are compiled (\<open>VM_AWARE\<close>).
  \<^item> \<open>vbh_trickledown\<close> has no bound in the code, so it is a partial function; that it ends on every
    heap is proved in theory \<open>Vbh_Ops\<close>.
\<close>

subsection \<open>The structure\<close>

datatype 'a cell = Uninit | Null | Item 'a

record ('a, 's) vbh =
  vb_cmp :: "'s \<Rightarrow> 'a \<Rightarrow> 'a \<Rightarrow> bool"
  vb_update :: "('a \<Rightarrow> u32 \<Rightarrow> 's \<Rightarrow> 's) option"
  vb_array :: "(nat \<Rightarrow> 'a cell) option list"
  vb_rows :: nat
  vb_length :: u32
  vb_next :: u32
  vb_page_size :: u32
  vb_page_mask :: u32
  vb_page_shift :: nat

abbreviation (input) ROW_SHIFT :: nat where
  "ROW_SHIFT \<equiv> 16"

abbreviation (input) ROOT_IDX :: u32 where
  "ROOT_IDX \<equiv> 1"

abbreviation (input) ROW_WIDTH :: u32 where
  "ROW_WIDTH \<equiv> 65536"

abbreviation (input) VBH_NOIDX :: u32 where
  "VBH_NOIDX \<equiv> 0"

abbreviation (input) UINT_MAX :: u32 where
  "UINT_MAX \<equiv> 0xffffffff"

definition row_of :: "u32 \<Rightarrow> nat" where
  "row_of n = unat (drop_bit ROW_SHIFT n)"

definition col_of :: "u32 \<Rightarrow> nat" where
  "col_of n = unat (n AND (ROW_WIDTH - 1))"

text \<open>The macros \<open>ROW\<close> and \<open>A\<close>, read and written; \<open>A_item\<close> is an access with \<open>assert(A(bh, n) != NULL)\<close>.\<close>

definition A_get :: "('a, 's) vbh \<Rightarrow> u32 \<Rightarrow> 'a cell res" where
  "A_get bh n = bindR (nthR (vb_array bh) (row_of n)) (\<lambda>row.
     case row of None \<Rightarrow> Inl Undefined | Some r \<Rightarrow> Inr (r (col_of n)))"

definition A_set :: "('a, 's) vbh \<Rightarrow> u32 \<Rightarrow> 'a cell \<Rightarrow> ('a, 's) vbh res" where
  "A_set bh n c = bindR (nthR (vb_array bh) (row_of n)) (\<lambda>row.
     case row of None \<Rightarrow> Inl Undefined
     | Some r \<Rightarrow> Inr (bh\<lparr>vb_array := (vb_array bh)[row_of n := Some (r(col_of n := c))]\<rparr>))"

definition A_item :: "('a, 's) vbh \<Rightarrow> u32 \<Rightarrow> 'a res" where
  "A_item bh n = bindR (A_get bh n) (\<lambda>c.
     case c of Uninit \<Rightarrow> Inl Undefined | Null \<Rightarrow> Inl AssertFail | Item x \<Rightarrow> Inr x)"

subsection \<open>Index arithmetic\<close>

definition parent_idx :: "('a, 's) vbh \<Rightarrow> u32 \<Rightarrow> u32" where
  "parent_idx bh u = (let po = u AND vb_page_mask bh in
     if u < vb_page_size bh \<or> po > 3 then (u AND NOT (vb_page_mask bh)) OR drop_bit 1 po
     else if po < 2 then
       let v = drop_bit (vb_page_shift bh) (u - vb_page_size bh);
           v = v + (v AND NOT (drop_bit 1 (vb_page_mask bh)))
       in v OR (vb_page_size bh div 2)
     else u - 2)"

definition parent :: "('a, 's) vbh \<Rightarrow> u32 \<Rightarrow> u32 res" where
  "parent bh u = guardR AssertFail (u \<noteq> UINT_MAX) (Inr (parent_idx bh u))"

definition child :: "('a, 's) vbh \<Rightarrow> u32 \<Rightarrow> u32 \<times> u32" where
  "child bh u = (
     if u > vb_page_mask bh \<and> u AND (vb_page_mask bh - 1) = 0 then (u + 2, u + 2)
     else if u AND drop_bit 1 (vb_page_size bh) \<noteq> 0 then
       let a = drop_bit 1 (u AND NOT (vb_page_mask bh));
           a = a OR (u AND drop_bit 1 (vb_page_mask bh));
           a = a + 1;
           uu = push_bit (vb_page_shift bh) (ucast a) :: u64;
           a = ucast uu
       in if ucast a = uu then (a, a + 1) else (UINT_MAX, UINT_MAX)
     else let a = u + (u AND vb_page_mask bh) in (a, a + 1))"

subsection \<open>Operations\<close>

definition vbh_addrow :: "('a, 's) vbh \<Rightarrow> ('a, 's) vbh res" where
  "vbh_addrow bh = (
     let bh = (if row_of (vb_length bh) \<ge> vb_rows bh
       then bh\<lparr>vb_array := vb_array bh @ replicate (vb_rows bh) None, vb_rows := vb_rows bh * 2\<rparr>
       else bh) in
     bindR (nthR (vb_array bh) (row_of (vb_length bh))) (\<lambda>row.
     guardR AssertFail (row = None) (
     Inr (bh\<lparr>vb_array := (vb_array bh)[row_of (vb_length bh) := Some (\<lambda>_. Uninit)],
       vb_length := vb_length bh + ROW_WIDTH\<rparr>))))"

text \<open>The loop that computes the shift; \<open>1U << u\<close> has no meaning for \<open>u = 32\<close>.\<close>

function page_shift_loop :: "u32 \<Rightarrow> nat \<Rightarrow> nat res" where
  "page_shift_loop page_size u = guardR Undefined (u < 32) (
     if push_bit u 1 \<noteq> page_size then page_shift_loop page_size (u + 1) else Inr u)"
  by pat_completeness auto
termination
  by (relation "measure (\<lambda>(_, u). 32 - u)") auto

declare page_shift_loop.simps [simp del]

text \<open>\<open>pagesize\<close> is the result of \<open>getpagesize()\<close>; pointers have eight bytes.\<close>

definition VBH_new ::
  "u32 \<Rightarrow> ('s \<Rightarrow> 'a \<Rightarrow> 'a \<Rightarrow> bool) \<Rightarrow> ('a \<Rightarrow> u32 \<Rightarrow> 's \<Rightarrow> 's) option \<Rightarrow> ('a, 's) vbh res" where
  "VBH_new pagesize cmp_f update_f = (
     let page_size = pagesize div 8; page_mask = page_size - 1 in
     guardR AssertFail (page_size AND page_mask = 0) (
     bindR (page_shift_loop page_size 1) (\<lambda>u.
     guardR AssertFail (page_size \<le> 8 * ROW_WIDTH) (
     bindR (vbh_addrow \<lparr>vb_cmp = cmp_f, vb_update = update_f, vb_array = replicate 16 None, vb_rows = 16,
       vb_length = 0, vb_next = ROOT_IDX, vb_page_size = page_size, vb_page_mask = page_mask,
       vb_page_shift = u\<rparr>) (\<lambda>bh.
     A_set bh ROOT_IDX Null)))))"

definition vbh_update :: "('a, 's) vbh \<Rightarrow> u32 \<Rightarrow> 's \<Rightarrow> 's res" where
  "vbh_update bh u s = guardR AssertFail (u < vb_next bh) (
     bindR (A_item bh u) (\<lambda>x. Inr (case vb_update bh of None \<Rightarrow> s | Some f \<Rightarrow> f x u s)))"

definition binhead_swap :: "('a, 's) vbh \<Rightarrow> u32 \<Rightarrow> u32 \<Rightarrow> 's \<Rightarrow> (('a, 's) vbh \<times> 's) res" where
  "binhead_swap bh u v s =
     guardR AssertFail (u < vb_next bh) (bindR (A_item bh u) (\<lambda>x.
     guardR AssertFail (v < vb_next bh) (bindR (A_item bh v) (\<lambda>y.
     bindR (A_set bh u (Item y)) (\<lambda>bh.
     bindR (A_set bh v (Item x)) (\<lambda>bh.
     bindR (vbh_update bh u s) (\<lambda>s.
     bindR (vbh_update bh v s) (\<lambda>s. Inr (bh, s)))))))))"

function trickleup_loop :: "('a, 's) vbh \<Rightarrow> u32 \<Rightarrow> 's \<Rightarrow> (('a, 's) vbh \<times> 's \<times> u32) res" where
  "trickleup_loop bh u s = (if u > ROOT_IDX then
     guardR AssertFail (u < vb_next bh) (bindR (A_item bh u) (\<lambda>x.
     bindR (parent bh u) (\<lambda>v.
     guardR AssertFail (v < u) (guardR AssertFail (v < vb_next bh) (bindR (A_item bh v) (\<lambda>y.
     if \<not> vb_cmp bh s x y then Inr (bh, s, u)
     else bindR (binhead_swap bh u v s) (\<lambda>(bh', s'). trickleup_loop bh' v s')))))))
     else Inr (bh, s, u))"
  by pat_completeness auto
termination
  by (relation "measure (\<lambda>(_, u, _). unat u)") (auto simp: word_less_nat_alt)

declare trickleup_loop.simps [simp del]

definition vbh_trickleup :: "('a, 's) vbh \<Rightarrow> u32 \<Rightarrow> 's \<Rightarrow> (('a, 's) vbh \<times> 's \<times> u32) res" where
  "vbh_trickleup bh u s =
     guardR AssertFail (u < vb_next bh) (bindR (A_item bh u) (\<lambda>_. trickleup_loop bh u s))"

text \<open>
  One round of the loop of \<open>vbh_trickledown\<close>: whether it continues, and the heap, memory and index
  after it.
\<close>

definition trickledown_round ::
  "('a, 's) vbh \<Rightarrow> u32 \<Rightarrow> 's \<Rightarrow> (bool \<times> ('a, 's) vbh \<times> 's \<times> u32) res" where
  "trickledown_round bh u s =
     guardR AssertFail (u < vb_next bh) (bindR (A_item bh u) (\<lambda>x.
     let (v1, v2) = child bh u in
     guardR AssertFail (v1 > 0) (guardR AssertFail (v2 > 0) (guardR AssertFail (v1 \<le> v2) (
     if v1 \<ge> vb_next bh then Inr (False, bh, s, u)
     else bindR (A_item bh v1) (\<lambda>y1.
       bindR (if v1 \<noteq> v2 \<and> v2 < vb_next bh
         then bindR (A_item bh v2) (\<lambda>y2. Inr (if vb_cmp bh s y2 y1 then v2 else v1))
         else Inr v1) (\<lambda>v.
       guardR AssertFail (v < vb_next bh) (bindR (A_item bh v) (\<lambda>y.
       if vb_cmp bh s x y then Inr (False, bh, s, u)
       else bindR (binhead_swap bh u v s) (\<lambda>(bh', s'). Inr (True, bh', s', v)))))))))))"

partial_function (option) trickledown_loop ::
  "('a, 's) vbh \<Rightarrow> u32 \<Rightarrow> 's \<Rightarrow> (('a, 's) vbh \<times> 's \<times> u32) res option" where
  "trickledown_loop bh u s = (case trickledown_round bh u s of
      Inl e \<Rightarrow> Some (Inl e)
    | Inr (c, bh', s', v) \<Rightarrow> if c then trickledown_loop bh' v s' else Some (Inr (bh', s', v)))"

definition vbh_trickledown :: "('a, 's) vbh \<Rightarrow> u32 \<Rightarrow> 's \<Rightarrow> (('a, 's) vbh \<times> 's \<times> u32) res option" where
  "vbh_trickledown bh u s = (
     case guardR AssertFail (u < vb_next bh) (A_item bh u) of
       Inl e \<Rightarrow> Some (Inl e)
     | Inr _ \<Rightarrow> trickledown_loop bh u s)"

definition VBH_insert :: "('a, 's) vbh \<Rightarrow> 'a \<Rightarrow> 's \<Rightarrow> (('a, 's) vbh \<times> 's) res" where
  "VBH_insert bh p s =
     guardR AssertFail (vb_length bh \<ge> vb_next bh) (
     bindR (if vb_length bh = vb_next bh then vbh_addrow bh else Inr bh) (\<lambda>bh.
     guardR AssertFail (vb_length bh > vb_next bh) (
     let u = vb_next bh; bh = bh\<lparr>vb_next := u + 1\<rparr> in
     bindR (A_set bh u (Item p)) (\<lambda>bh.
     bindR (vbh_update bh u s) (\<lambda>s.
     bindR (vbh_trickleup bh u s) (\<lambda>(bh, s, _).
     guardR AssertFail (u < vb_next bh) (bindR (A_item bh u) (\<lambda>_. Inr (bh, s)))))))))"

definition VBH_root :: "('a, 's) vbh \<Rightarrow> 'a cell res" where
  "VBH_root bh = A_get bh ROOT_IDX"

text \<open>\<open>VBH_destroy\<close> asks for an empty heap; it frees the rows and the structure.\<close>

definition VBH_destroy :: "('a, 's) vbh \<Rightarrow> unit res" where
  "VBH_destroy bh = bindR (VBH_root bh) (\<lambda>c. case c of
     Uninit \<Rightarrow> Inl Undefined | Null \<Rightarrow> Inr () | Item _ \<Rightarrow> Inl AssertFail)"

text \<open>The assertions on the index between and after the two movements.\<close>

definition idx_asserts :: "('a, 's) vbh \<Rightarrow> u32 \<Rightarrow> 'b \<Rightarrow> 'b res" where
  "idx_asserts bh idx r = guardR AssertFail (idx < vb_next bh) (guardR AssertFail (idx > 0) (
     bindR (A_item bh idx) (\<lambda>_. Inr r)))"

text \<open>\<open>vbh_trickleup\<close>, \<open>vbh_trickledown\<close> and the assertions, as \<open>VBH_delete\<close> and \<open>VBH_reorder\<close> have them.\<close>

definition trickle :: "('a, 's) vbh \<Rightarrow> u32 \<Rightarrow> 's \<Rightarrow> (('a, 's) vbh \<times> 's \<times> u32) res option" where
  "trickle bh idx s = (
     case bindR (vbh_trickleup bh idx s) (\<lambda>(bh, s, idx). idx_asserts bh idx (bh, s, idx)) of
       Inl e \<Rightarrow> Some (Inl e)
     | Inr (bh, s, idx) \<Rightarrow> map_option (\<lambda>r. bindR r (\<lambda>(bh, s, idx). idx_asserts bh idx (bh, s, idx)))
         (vbh_trickledown bh idx s))"

definition shrink :: "('a, 's) vbh \<Rightarrow> ('a, 's) vbh res" where
  "shrink bh = (if vb_next bh + 2 * ROW_WIDTH \<le> vb_length bh
     then bindR (nthR (vb_array bh) (row_of (vb_length bh - 1))) (\<lambda>_.
       Inr (bh\<lparr>vb_array := (vb_array bh)[row_of (vb_length bh - 1) := None],
         vb_length := vb_length bh - ROW_WIDTH\<rparr>))
     else Inr bh)"

text \<open>
  \<open>VBH_delete\<close> up to the movements: the heap, the memory, and whether the item was the last one.
  \<open>bh->update\<close> is called without the test for NULL that \<open>vbh_update\<close> has.
\<close>

definition delete_replace :: "('a, 's) vbh \<Rightarrow> u32 \<Rightarrow> 's \<Rightarrow> (bool \<times> ('a, 's) vbh \<times> 's) res" where
  "delete_replace bh idx s =
     guardR AssertFail (vb_next bh > ROOT_IDX) (
     guardR AssertFail (idx < vb_next bh) (
     guardR AssertFail (idx > 0) (
     bindR (A_item bh idx) (\<lambda>x.
     case vb_update bh of None \<Rightarrow> Inl Undefined | Some f \<Rightarrow>
     let s = f x VBH_NOIDX s; bh = bh\<lparr>vb_next := vb_next bh - 1\<rparr> in
     if idx = vb_next bh then bindR (A_set bh (vb_next bh) Null) (\<lambda>bh. Inr (True, bh, s))
     else bindR (A_get bh (vb_next bh)) (\<lambda>c.
       bindR (A_set bh idx c) (\<lambda>bh.
       bindR (A_set bh (vb_next bh) Null) (\<lambda>bh.
       bindR (vbh_update bh idx s) (\<lambda>s. Inr (False, bh, s)))))))))"

definition VBH_delete :: "('a, 's) vbh \<Rightarrow> u32 \<Rightarrow> 's \<Rightarrow> (('a, 's) vbh \<times> 's) res option" where
  "VBH_delete bh idx s = (case delete_replace bh idx s of
      Inl e \<Rightarrow> Some (Inl e)
    | Inr (tail, bh, s) \<Rightarrow> if tail then Some (Inr (bh, s))
        else map_option (\<lambda>r. bindR r (\<lambda>(bh, s, _). bindR (shrink bh) (\<lambda>bh. Inr (bh, s)))) (trickle bh idx s))"

definition VBH_reorder :: "('a, 's) vbh \<Rightarrow> u32 \<Rightarrow> 's \<Rightarrow> (('a, 's) vbh \<times> 's) res option" where
  "VBH_reorder bh idx s = (
     case guardR AssertFail (vb_next bh > ROOT_IDX) (idx_asserts bh idx ()) of
       Inl e \<Rightarrow> Some (Inl e)
     | Inr _ \<Rightarrow> map_option (\<lambda>r. bindR r (\<lambda>(bh, s, _). Inr (bh, s))) (trickle bh idx s))"

end
