(* ===== verification/Heap_Order.thy ===== *)
theory Heap_Order
  imports VTest_Prelude
begin

text \<open>
  Heap order on a tree of indices, independent of how the tree is laid out.  The locale
  \<open>heap_tree\<close> has the laws of the tree, a parent function and the pair of the children, and shows
  what one exchange of an item with its parent or with its lesser child does to the order.
\<close>

text \<open>The comparison functions of the heap: \<open>lt a b\<close> asks for \<open>a\<close> to be closer to the root.\<close>

definition swo :: "('a \<Rightarrow> 'a \<Rightarrow> bool) \<Rightarrow> bool" where
  "swo lt = ((\<forall>a b. lt a b \<longrightarrow> \<not> lt b a) \<and> (\<forall>a b c. \<not> lt a b \<and> \<not> lt b c \<longrightarrow> \<not> lt a c))"

lemma swo_asym: "swo lt \<Longrightarrow> lt a b \<Longrightarrow> \<not> lt b a"
  and swo_neg_trans: "swo lt \<Longrightarrow> \<not> lt a b \<Longrightarrow> \<not> lt b c \<Longrightarrow> \<not> lt a c"
  unfolding swo_def by blast+

lemma swo_trans: "swo lt \<Longrightarrow> lt a b \<Longrightarrow> lt b c \<Longrightarrow> lt a c"
  using swo_asym [of lt b c] swo_neg_trans [of lt a c b] by blast

lemma swo_least: "swo lt \<Longrightarrow> lt a b \<Longrightarrow> \<not> lt c b \<Longrightarrow> \<not> lt c a"
  using swo_trans [of lt c a b] by blast

text \<open>
  \<open>heap_order\<close>: no item below \<open>n\<close> belongs closer to the root than its parent.  The others hold
  while the item at \<open>u\<close> moves: \<open>up_order\<close> excepts the edge above it, \<open>down_order\<close> the edges below
  it, \<open>at_order\<close> both.
\<close>

definition heap_order :: "(u32 \<Rightarrow> u32) \<Rightarrow> ('a \<Rightarrow> 'a \<Rightarrow> bool) \<Rightarrow> (u32 \<Rightarrow> 'a) \<Rightarrow> u32 \<Rightarrow> bool" where
  "heap_order par lt h n = (\<forall>v. 1 < v \<and> v < n \<longrightarrow> \<not> lt (h v) (h (par v)))"

definition bridged :: "(u32 \<Rightarrow> u32) \<Rightarrow> ('a \<Rightarrow> 'a \<Rightarrow> bool) \<Rightarrow> (u32 \<Rightarrow> 'a) \<Rightarrow> u32 \<Rightarrow> u32 \<Rightarrow> bool" where
  "bridged par lt h n u = (1 < u \<longrightarrow> (\<forall>v. 1 < v \<and> v < n \<and> par v = u \<longrightarrow> \<not> lt (h v) (h (par u))))"

definition up_order :: "(u32 \<Rightarrow> u32) \<Rightarrow> ('a \<Rightarrow> 'a \<Rightarrow> bool) \<Rightarrow> (u32 \<Rightarrow> 'a) \<Rightarrow> u32 \<Rightarrow> u32 \<Rightarrow> bool" where
  "up_order par lt h n u = ((\<forall>v. 1 < v \<and> v < n \<and> v \<noteq> u \<longrightarrow> \<not> lt (h v) (h (par v))) \<and> bridged par lt h n u)"

definition down_order :: "(u32 \<Rightarrow> u32) \<Rightarrow> ('a \<Rightarrow> 'a \<Rightarrow> bool) \<Rightarrow> (u32 \<Rightarrow> 'a) \<Rightarrow> u32 \<Rightarrow> u32 \<Rightarrow> bool" where
  "down_order par lt h n u = ((\<forall>v. 1 < v \<and> v < n \<and> par v \<noteq> u \<longrightarrow> \<not> lt (h v) (h (par v))) \<and> bridged par lt h n u)"

definition at_order :: "(u32 \<Rightarrow> u32) \<Rightarrow> ('a \<Rightarrow> 'a \<Rightarrow> bool) \<Rightarrow> (u32 \<Rightarrow> 'a) \<Rightarrow> u32 \<Rightarrow> u32 \<Rightarrow> bool" where
  "at_order par lt h n u =
     ((\<forall>v. 1 < v \<and> v < n \<and> v \<noteq> u \<and> par v \<noteq> u \<longrightarrow> \<not> lt (h v) (h (par v))) \<and> bridged par lt h n u)"

lemmas order_defs = heap_order_def bridged_def up_order_def down_order_def at_order_def

locale heap_tree =
  fixes good :: "'c \<Rightarrow> bool"
    and par :: "'c \<Rightarrow> u32 \<Rightarrow> u32"
    and kids :: "'c \<Rightarrow> u32 \<Rightarrow> u32 \<times> u32"
  assumes par_less: "good c \<Longrightarrow> 1 < u \<Longrightarrow> 1 \<le> par c u \<and> par c u < u"
    and kids_greater: "good c \<Longrightarrow> 1 \<le> u \<Longrightarrow> u < 0xffffffff \<Longrightarrow> kids c u = (a, b) \<Longrightarrow> u < a \<and> a \<le> b"
    and kids_iff: "good c \<Longrightarrow> 1 \<le> u \<Longrightarrow> kids c u = (a, b) \<Longrightarrow> 1 < v \<Longrightarrow> v < 0xffffffff \<Longrightarrow>
      par c v = u \<longleftrightarrow> v = a \<or> v = b"
begin

lemma root_least:
  assumes "good c" and "swo lt" and "heap_order (par c) lt h n" and "1 \<le> v" and "v < n"
  shows "\<not> lt (h v) (h 1)"
  using assms(4,5)
proof (induction "unat v" arbitrary: v rule: less_induct)
  case less
  show ?case
  proof (cases "v = 1")
    case True
    then show ?thesis using assms(2) swo_asym by metis
  next
    case False
    then have v: "1 < v" using less.prems(1) by (simp add: order_less_le)
    note p = par_less [OF assms(1) v]
    then have "\<not> lt (h (par c v)) (h 1)"
      using less.hyps [of "par c v"] less.prems(2) by (auto simp: word_less_nat_alt)
    moreover have "\<not> lt (h v) (h (par c v))" using assms(3) v less.prems(2) by (simp add: heap_order_def)
    ultimately show ?thesis using swo_neg_trans [OF assms(2)] by blast
  qed
qed

lemma up_step:
  assumes "good c" and "swo lt" and "at_order (par c) lt h n u" and "1 < u" and "u < n"
    and "lt (h u) (h (par c u))"
  shows "up_order (par c) lt (h(u := h (par c u), par c u := h u)) n (par c u)"
proof -
  let ?p = "par c u" and ?h = "h(u := h (par c u), par c u := h u)"
  note p = par_less [OF assms(1,4)]
  have pu: "?p \<noteq> u" "u \<noteq> ?p" using p by auto
  have edges: "\<And>v. 1 < v \<Longrightarrow> v < n \<Longrightarrow> v \<noteq> u \<Longrightarrow> par c v \<noteq> u \<Longrightarrow> \<not> lt (h v) (h (par c v))"
    and bridge: "\<And>v. 1 < v \<Longrightarrow> v < n \<Longrightarrow> par c v = u \<Longrightarrow> \<not> lt (h v) (h ?p)"
    using assms(3,4) by (auto simp: at_order_def bridged_def)
  have "\<not> lt (?h v) (?h (par c v))" if v: "1 < v" "v < n" "v \<noteq> ?p" for v
  proof -
    consider "v = u" | "v \<noteq> u" "par c v = u" | "v \<noteq> u" "par c v = ?p" | "v \<noteq> u" "par c v \<noteq> u" "par c v \<noteq> ?p"
      by blast
    then show ?thesis
    proof cases
      case 1
      then show ?thesis using pu swo_asym [OF assms(2,6)] by simp
    next
      case 2
      then show ?thesis using bridge [OF v(1,2)] v pu by simp
    next
      case 3
      have "\<not> lt (h v) (h ?p)" using edges [OF v(1,2) 3(1)] 3 pu by simp
      then have "\<not> lt (h v) (h u)" using swo_trans [OF assms(2) _ assms(6)] by blast
      then show ?thesis using 3 v pu by simp
    next
      case 4
      then show ?thesis using edges [OF v(1,2)] v by simp
    qed
  qed
  moreover have "\<not> lt (?h v) (?h (par c ?p))" if r: "1 < ?p" and v: "1 < v" "v < n" "par c v = ?p" for v
  proof -
    have pp: "par c ?p \<noteq> ?p" "par c ?p \<noteq> u" "?p < n"
      using par_less [OF assms(1) r] p assms(5) by auto
    have pe: "\<not> lt (h ?p) (h (par c ?p))" using edges [OF r pp(3)] pu pp by simp
    show ?thesis
    proof (cases "v = u")
      case True
      then show ?thesis using pe pu pp by simp
    next
      case False
      have "\<not> lt (h v) (h ?p)" using edges [OF v(1,2) False] v pu by simp
      then have "\<not> lt (h v) (h (par c ?p))" using pe swo_neg_trans [OF assms(2)] by blast
      moreover have "v \<noteq> ?p" using par_less [OF assms(1) v(1)] v by auto
      ultimately show ?thesis using False pu pp by simp
    qed
  qed
  ultimately show ?thesis unfolding up_order_def bridged_def by blast
qed

lemma up_stop:
  assumes "up_order (par c) lt h n u" and "u \<le> 1 \<or> \<not> lt (h u) (h (par c u))"
  shows "heap_order (par c) lt h n"
  using assms unfolding up_order_def heap_order_def by (metis leD)

lemma at_stop:
  assumes "at_order (par c) lt h n u" and "u \<le> 1 \<or> \<not> lt (h u) (h (par c u))"
  shows "down_order (par c) lt h n u"
  using assms unfolding at_order_def down_order_def by (metis leD)

lemma heap_down:
  assumes "good c" and "swo lt" and "heap_order (par c) lt h n" and "u < n"
  shows "down_order (par c) lt h n u"
proof -
  have edge: "\<And>v. 1 < v \<Longrightarrow> v < n \<Longrightarrow> \<not> lt (h v) (h (par c v))" using assms(3) by (simp add: heap_order_def)
  have "\<not> lt (h v) (h (par c u))" if "1 < u" "1 < v" "v < n" "par c v = u" for v
    using swo_neg_trans [OF assms(2) edge [OF that(2,3)]] edge [OF that(1) assms(4)] that(4) by blast
  then show ?thesis using edge by (simp add: down_order_def bridged_def)
qed

lemma down_step:
  assumes "good c" and "swo lt" and "down_order (par c) lt h n u" and "1 \<le> u" and "u < v" and "v < n"
    and "par c v = u" and least: "\<And>w. 1 < w \<Longrightarrow> w < n \<Longrightarrow> par c w = u \<Longrightarrow> \<not> lt (h w) (h v)"
    and "\<not> lt (h u) (h v)"
  shows "down_order (par c) lt (h(u := h v, v := h u)) n v"
proof -
  let ?h = "h(u := h v, v := h u)"
  have v1: "1 < v" "u \<noteq> v" using assms(4,5) by auto
  have edges: "\<And>w. 1 < w \<Longrightarrow> w < n \<Longrightarrow> par c w \<noteq> u \<Longrightarrow> \<not> lt (h w) (h (par c w))"
    and bridge: "\<And>w. 1 < u \<Longrightarrow> 1 < w \<Longrightarrow> w < n \<Longrightarrow> par c w = u \<Longrightarrow> \<not> lt (h w) (h (par c u))"
    using assms(3) by (auto simp: down_order_def bridged_def)
  have "\<not> lt (?h w) (?h (par c w))" if w: "1 < w" "w < n" "par c w \<noteq> v" for w
  proof -
    consider "w = v" | "w \<noteq> v" "par c w = u" | "w = u" | "w \<noteq> v" "w \<noteq> u" "par c w \<noteq> u" by blast
    then show ?thesis
    proof cases
      case 1
      then show ?thesis using v1 assms(7,9) by simp
    next
      case 2
      moreover have "w \<noteq> u" using 2 par_less [OF assms(1) w(1)] by auto
      ultimately show ?thesis using least [OF w(1,2)] v1 by simp
    next
      case 3
      moreover have "par c u \<noteq> u" using 3 par_less [OF assms(1) w(1)] by auto
      ultimately show ?thesis using bridge [of v] v1 w assms(6,7) by simp
    next
      case 4
      then show ?thesis using edges [OF w(1,2)] w by simp
    qed
  qed
  moreover have "\<not> lt (?h w) (?h (par c v))" if w: "1 < w" "w < n" "par c w = v" for w
  proof -
    have "w \<noteq> v" "w \<noteq> u" using w par_less [OF assms(1) w(1)] assms(5) by auto
    then show ?thesis using edges [OF w(1,2)] w v1 assms(7) by simp
  qed
  ultimately show ?thesis unfolding down_order_def bridged_def by blast
qed

lemma down_stop:
  assumes "down_order (par c) lt h n u" and "\<And>w. 1 < w \<Longrightarrow> w < n \<Longrightarrow> par c w = u \<Longrightarrow> \<not> lt (h w) (h u)"
  shows "heap_order (par c) lt h n"
  using assms by (auto simp: down_order_def heap_order_def)

end

end
