(* ===== verification/Vbh_Tree.thy ===== *)
theory Vbh_Tree
  imports Vbh Heap_Order
begin

text \<open>
  The shape of the heap of \<open>lib/vbh.c\<close>.

  \<^item> \<open>parent_idx\<close> and \<open>child\<close> are rewritten from bit operations to division and remainder
    (\<open>page_parent\<close>, \<open>page_child\<close>), and are shown to describe the same tree.
  \<^item> The interpretation \<open>pages\<close> discharges the laws of the locale \<open>heap_tree\<close> for the index
    arithmetic of the code.
\<close>

subsection \<open>From bits to division\<close>

lemma and_not_mask_eq: "w AND NOT (mask k) = push_bit k (drop_bit k (w :: 'a :: len word))"
  by (rule bit_word_eqI) (auto simp: bit_simps)

lemma or_low_eq: "y < 2 ^ k \<Longrightarrow> push_bit k x OR y = x * 2 ^ k + (y :: nat)"
proof -
  assume y: "y < 2 ^ k"
  then have "take_bit k y = y" by (simp add: take_bit_nat_eq_self)
  then have "\<And>n. \<not> bit (push_bit k x) n \<or> \<not> bit y n"
    by (metis bit_push_bit_iff_nat bit_take_bit_iff not_less)
  then have "push_bit k x OR y = push_bit k x + y" by (simp add: disjunctive_add)
  then show ?thesis by (simp add: push_bit_eq_mult)
qed

lemma or_half: "r < 2 ^ j \<Longrightarrow> (x * 2 ^ Suc j + r) OR 2 ^ j = x * 2 ^ Suc j + (2 ^ j + (r :: nat))"
proof -
  assume r: "r < 2 ^ j"
  have "x * 2 ^ Suc j + r = push_bit (Suc j) x OR r" using r or_low_eq [of r "Suc j" x] by simp
  moreover have "2 ^ j OR r = 2 ^ j + r" using or_low_eq [OF r, of 1] by (simp add: push_bit_eq_mult)
  ultimately have "(x * 2 ^ Suc j + r) OR 2 ^ j = push_bit (Suc j) x OR (2 ^ j + r)"
    by (metis or.assoc or.commute)
  then show ?thesis using r or_low_eq [of "2 ^ j + r" "Suc j" x] by simp
qed

lemma unat_and_mask: "unat (w AND mask k :: 'a :: len word) = unat w mod 2 ^ k"
  by (simp only: take_bit_eq_mask [symmetric] unsigned_take_bit_eq) (simp add: take_bit_eq_mod)

lemma unat_drop: "unat (drop_bit k w :: 'a :: len word) = unat w div 2 ^ k"
  by (simp only: unsigned_drop_bit_eq take_bit_length_eq) (simp add: drop_bit_eq_div take_bit_nat_eq_self unat_less_pow)

lemma unat_page_base: "unat (w AND NOT (mask k) :: 'a :: len word) = (unat w div 2 ^ k) * 2 ^ k"
proof -
  have "unat w div 2 ^ k * 2 ^ k \<le> unat w" by simp
  then have "unat w div 2 ^ k * 2 ^ k < 2 ^ LENGTH('a)" using unat_less_pow [of w] by (rule le_less_trans)
  then show ?thesis
    by (simp only: and_not_mask_eq unsigned_push_bit_eq unat_drop) (simp add: push_bit_eq_mult take_bit_nat_eq_self)
qed

lemma unat_or: "unat (v OR w :: 'a :: len word) = unat v OR unat w"
  by (rule unsigned_or_eq)

lemma unat_or_low:
  "unat v = x * 2 ^ k \<Longrightarrow> unat w < 2 ^ k \<Longrightarrow> unat (v OR w :: 'a :: len word) = x * 2 ^ k + unat w"
  using or_low_eq [of "unat w" k x] by (simp only: unat_or push_bit_eq_mult)

lemma half_bit: "(w AND 2 ^ k = (0 :: 'a :: len word)) \<longleftrightarrow> \<not> bit w k"
  by (auto simp: and_exp_eq_0_iff_not_bit)

lemma bit_unat_iff: "bit (w :: 'a :: len word) k \<longleftrightarrow> unat w mod 2 ^ Suc k \<ge> 2 ^ k"
proof -
  have "bit w k = bit (unat w) k" by (simp add: bit_unsigned_iff)
  also have "\<dots> = odd (unat w div 2 ^ k)" by (simp add: bit_iff_odd)
  also have "\<dots> = (unat w mod 2 ^ Suc k \<ge> 2 ^ k)"
  proof -
    have m: "unat w mod 2 ^ Suc k = 2 ^ k * (unat w div 2 ^ k mod 2) + unat w mod 2 ^ k"
      using mod_mult2_eq [of "unat w" "2 ^ k" 2] by (simp add: mult.commute)
    show ?thesis
    proof (cases "odd (unat w div 2 ^ k)")
      case True
      then show ?thesis unfolding m by (simp add: odd_iff_mod_2_eq_one)
    next
      case False
      then show ?thesis unfolding m by (simp add: even_iff_mod_2_eq_zero not_le)
    qed
  qed
  finally show ?thesis .
qed

subsection \<open>The tree on natural numbers\<close>

text \<open>\<open>h\<close> is half of the page size: the bottom row of a page has the offsets from \<open>h\<close> on.\<close>

definition page_parent :: "nat \<Rightarrow> nat \<Rightarrow> nat" where
  "page_parent h n = (let q = n div (2 * h); po = n mod (2 * h) in
     if q = 0 \<or> po > 3 then q * (2 * h) + po div 2
     else if po < 2 then (q - 1) div h * (2 * h) + (h + (q - 1) mod h)
     else n - 2)"

definition page_child :: "nat \<Rightarrow> nat \<Rightarrow> nat \<times> nat" where
  "page_child h n = (let q = n div (2 * h); po = n mod (2 * h) in
     if q > 0 \<and> po < 2 then (n + 2, n + 2)
     else if po \<ge> h then let a = (q * h + (po - h) + 1) * (2 * h) in (a, a + 1)
     else (n + po, n + po + 1))"

lemma page_parent_at: "po < 2 * h \<Longrightarrow> page_parent h (q * (2 * h) + po) =
    (if q = 0 \<or> po > 3 then q * (2 * h) + po div 2
     else if po < 2 then (q - 1) div h * (2 * h) + (h + (q - 1) mod h)
     else q * (2 * h) + po - 2)"
  by (simp add: page_parent_def div_mult_self3 [of "2 * h" po q])

lemma page_child_at: "po < 2 * h \<Longrightarrow> page_child h (q * (2 * h) + po) =
    (if q > 0 \<and> po < 2 then (q * (2 * h) + (po + 2), q * (2 * h) + (po + 2))
     else if po \<ge> h then ((q * h + (po - h) + 1) * (2 * h) + 0, (q * h + (po - h) + 1) * (2 * h) + 1)
     else (q * (2 * h) + 2 * po, q * (2 * h) + (2 * po + 1)))"
  by (simp add: page_child_def Let_def div_mult_self3 [of "2 * h" po q])

lemma page_split:
  assumes "0 < h"
  obtains q po where "n = q * (2 * h) + po" "po < 2 * (h :: nat)"
  using that [of "n div (2 * h)" "n mod (2 * h)"] assms div_mult_mod_eq [of n "2 * h"] by simp

lemma page_parent_less:
  assumes "2 \<le> h" and "1 < n"
  shows "1 \<le> page_parent h n \<and> page_parent h n < n"
proof -
  have "0 < h" using assms by simp
  then obtain q po where n: "n = q * (2 * h) + po" "po < 2 * h" by (rule page_split)
  consider (usual) "q = 0 \<or> po > 3" | (first) "q > 0" "po < 2" | (second) "q > 0" "2 \<le> po" "po \<le> 3"
    by linarith
  then show ?thesis
  proof cases
    case usual
    then show ?thesis using n assms by (auto simp: page_parent_at)
  next
    case first
    have "(q - 1) div h * h \<le> q - 1" by simp
    moreover have "(q - 1) div h * h + (q - 1) mod h = q - 1" by simp
    moreover have "q * 2 \<le> q * h" "h \<le> q * h" using assms first by simp_all
    moreover have "page_parent h n = 2 * ((q - 1) div h * h) + (h + (q - 1) mod h)"
      using n first by (simp add: page_parent_at)
    moreover have "n \<ge> 2 * (q * h)" using n by simp
    ultimately show ?thesis using assms first by linarith
  next
    case second
    have "h \<le> q * h" using second by simp
    then have "4 \<le> q * (2 * h)" using assms by linarith
    moreover have "page_parent h n = q * (2 * h) + po - 2" using n second by (simp add: page_parent_at)
    ultimately show ?thesis using n second by linarith
  qed
qed

lemma page_child_greater:
  assumes "2 \<le> h" and "1 \<le> n" and "page_child h n = (a, b)"
  shows "n < a \<and> a \<le> b"
proof -
  have "0 < h" using assms by simp
  then obtain q po where n: "n = q * (2 * h) + po" "po < 2 * h" by (rule page_split)
  show ?thesis
  proof (cases "po \<ge> h \<and> \<not> (q > 0 \<and> po < 2)")
    case True
    then obtain r where r: "po = h + r" using le_Suc_ex by blast
    have ab: "a = (q * h + r + 1) * (2 * h)" "b = a + 1"
      using True n assms r page_child_at [OF n(2), of q] by auto
    have "q \<le> q * h" using assms by simp
    then have "q + 1 \<le> q * h + r + 1" by linarith
    then have "(q + 1) * (2 * h) \<le> (q * h + r + 1) * (2 * h)" by (rule mult_le_mono1)
    moreover have "n < (q + 1) * (2 * h)" using n by simp
    ultimately show ?thesis using ab by linarith
  next
    case False
    then show ?thesis using n assms page_child_at [OF n(2), of q] by (auto split: if_splits)
  qed
qed

lemma page_parent_child:
  assumes "2 \<le> h" and "1 \<le> n" and "page_child h n = (a, b)"
  shows "page_parent h a = n \<and> page_parent h b = n"
proof -
  have h: "0 < h" using assms by simp
  then obtain q po where n: "n = q * (2 * h) + po" "po < 2 * h" by (rule page_split)
  consider (magic) "q > 0" "po < 2" | (bottom) "po \<ge> h" "\<not> (q > 0 \<and> po < 2)"
    | (usual) "po < h" "\<not> (q > 0 \<and> po < 2)" by linarith
  then show ?thesis
  proof cases
    case magic
    then have "a = q * (2 * h) + (po + 2)" "b = q * (2 * h) + (po + 2)"
      using n assms by (auto simp: page_child_at)
    then show ?thesis using magic n assms page_parent_at [of "po + 2" h q] by simp
  next
    case bottom
    then obtain r where r: "po = h + r" using le_Suc_ex by blast
    have "a = (q * h + r + 1) * (2 * h) + 0" "b = (q * h + r + 1) * (2 * h) + 1"
      using n assms bottom r page_child_at [OF n(2), of q] by auto
    moreover have "(q * h + r) div h = q" "(q * h + r) mod h = r" using n r h by simp_all
    ultimately show ?thesis using n r assms page_parent_at [of 0 h "q * h + r + 1"]
      page_parent_at [of 1 h "q * h + r + 1"] by simp
  next
    case usual
    then have "a = q * (2 * h) + 2 * po" "b = q * (2 * h) + (2 * po + 1)"
      using n assms by (auto simp: page_child_at)
    then show ?thesis using usual n assms page_parent_at [of "2 * po" h q] page_parent_at [of "2 * po + 1" h q]
      by auto
  qed
qed

lemma page_child_parent:
  assumes "2 \<le> h" and "1 < n"
  shows "n = fst (page_child h (page_parent h n)) \<or> n = snd (page_child h (page_parent h n))"
proof -
  have h: "0 < h" using assms by simp
  then obtain q po where n: "n = q * (2 * h) + po" "po < 2 * h" by (rule page_split)
  consider (usual) "q = 0 \<or> po > 3" | (first) "q > 0" "po < 2" | (second) "q > 0" "2 \<le> po" "po \<le> 3"
    by linarith
  then show ?thesis
  proof cases
    case usual
    then have "page_parent h n = q * (2 * h) + po div 2" using n by (simp add: page_parent_at)
    moreover have "po div 2 < h" using n by simp
    moreover have "q = 0 \<or> 2 \<le> po div 2" using usual by auto
    moreover have "po = 2 * (po div 2) \<or> po = 2 * (po div 2) + 1" by arith
    ultimately show ?thesis using n page_child_at [of "po div 2" h q] by auto
  next
    case first
    define q' r where "q' = (q - 1) div h" and "r = (q - 1) mod h"
    have q: "q' * h + r + 1 = q" "r < h" using first h by (simp_all add: q'_def r_def)
    have "page_parent h n = q' * (2 * h) + (h + r)" using n first by (simp add: page_parent_at q'_def r_def)
    then have "page_child h (page_parent h n) = (q * (2 * h) + 0, q * (2 * h) + 1)"
      using page_child_at [of "h + r" h q'] q(2) assms by (simp add: q(1) [symmetric])
    then show ?thesis using n first by auto
  next
    case second
    then obtain e where e: "po = 2 + e" "e < 2" using le_Suc_ex [of 2 po] by auto
    have "page_parent h n = q * (2 * h) + e" using n second e page_parent_at [OF n(2), of q] by simp
    then show ?thesis using second n e page_child_at [of e h q] by simp
  qed
qed

subsection \<open>The index arithmetic of the code\<close>

definition page_ok :: "('a, 's) vbh \<Rightarrow> bool" where
  "page_ok bh = (2 \<le> vb_page_shift bh \<and> vb_page_shift bh \<le> 19 \<and>
     vb_page_size bh = 2 ^ vb_page_shift bh \<and> vb_page_mask bh = mask (vb_page_shift bh))"

definition half_page :: "('a, 's) vbh \<Rightarrow> nat" where
  "half_page bh = 2 ^ (vb_page_shift bh - 1)"

lemma unat_pow_u32: "k < 32 \<Longrightarrow> unat (2 ^ k :: u32) = 2 ^ k"
  using unat_of_nat_u32 [of "2 ^ k"] power_strict_increasing [of k 32 "2 :: nat"] by simp

lemma unat_mask_u32: "k < 32 \<Longrightarrow> unat (mask k :: u32) = 2 ^ k - 1"
  using unat_sub_u32 [of 1 "2 ^ k"] by (simp add: mask_eq_exp_minus_1 unat_pow_u32)

lemma half_mask: "0 < k \<Longrightarrow> k \<le> 32 \<Longrightarrow> drop_bit 1 (mask k :: u32) = mask (k - 1)"
  by (rule bit_word_eqI) (auto simp: bit_simps)

lemma half_size:
  assumes "0 < k" and "k < 32"
  shows "drop_bit 1 (2 ^ k :: u32) = 2 ^ (k - 1)" "(2 ^ k :: u32) div 2 = 2 ^ (k - 1)"
proof -
  obtain j where "k = Suc j" using assms by (cases k) auto
  then have "unat (2 ^ k :: u32) div 2 = unat (2 ^ (k - 1) :: u32)"
    using assms unat_pow_u32 [of k] unat_pow_u32 [of j] by simp
  then show "drop_bit 1 (2 ^ k :: u32) = 2 ^ (k - 1)" "(2 ^ k :: u32) div 2 = 2 ^ (k - 1)"
    by (simp_all only: word_unat_eq_iff unat_drop unat_div) simp_all
qed

lemma unat_push:
  "unat x * 2 ^ m < 2 ^ LENGTH('a) \<Longrightarrow> unat (push_bit m x :: 'a :: len word) = unat x * 2 ^ m"
  by (simp only: unsigned_push_bit_eq) (simp add: push_bit_eq_mult take_bit_nat_eq_self)

lemma and_push_mask: "u AND push_bit m (mask j) = push_bit m (drop_bit m u AND mask j :: 'a :: len word)"
  by (rule bit_word_eqI) (auto simp: bit_simps)

lemma first_two:
  assumes "0 < k" and "k < 32"
  shows "(u AND (mask k - 1) = (0 :: u32)) \<longleftrightarrow> unat u mod 2 ^ k < 2"
proof -
  obtain j where j: "k = Suc j" using assms by (cases k) auto
  define x where "x = drop_bit 1 u AND mask j"
  have x: "unat x = unat u div 2 mod 2 ^ j" by (simp only: x_def unat_and_mask unat_drop) simp
  have "unat u div 2 mod 2 ^ j \<le> unat u div 2" by simp
  then have x31: "2 * unat x < 2 ^ 32" using unat_u32_less [of u] x by linarith
  have "mask k - 1 = (push_bit 1 (mask j) :: u32)"
    by (simp add: j mask_Suc_double one_or_eq push_bit_double)
  moreover have "u AND push_bit 1 (mask j) = push_bit 1 x" unfolding x_def by (rule and_push_mask)
  ultimately have "(u AND (mask k - 1) = 0) \<longleftrightarrow> unat (push_bit 1 x) = 0" by (simp only: unat_eq_0)
  also have "\<dots> \<longleftrightarrow> unat u div 2 mod 2 ^ j = 0" using unat_push [of x 1] x31 x by simp
  also have "\<dots> \<longleftrightarrow> unat u mod 2 ^ k < 2" using mod_mult2_eq [of "unat u" 2 "2 ^ j"] j by auto
  finally show ?thesis .
qed

lemma page_okE:
  assumes "page_ok bh"
  obtains k where "2 \<le> k" "k \<le> 19" "vb_page_shift bh = k" "vb_page_size bh = 2 ^ k"
    "vb_page_mask bh = mask k" "2 * half_page bh = 2 ^ k" "half_page bh = 2 ^ (k - 1)" "2 \<le> half_page bh"
proof -
  define k where "k = vb_page_shift bh"
  have "2 ^ 1 \<le> (2 :: nat) ^ (k - 1)" by (rule power_increasing) (use assms in \<open>auto simp: page_ok_def k_def\<close>)
  then show thesis using assms that [of k]
    by (auto simp: page_ok_def half_page_def k_def [symmetric] power_Suc [symmetric] simp del: power_Suc)
qed

lemma page_top: "k \<le> 32 \<Longrightarrow> unat (u :: u32) div 2 ^ k * 2 ^ k + 2 ^ k \<le> 2 ^ 32"
proof -
  assume k: "k \<le> 32"
  have e: "(2 :: nat) ^ 32 = 2 ^ (32 - k) * 2 ^ k" using k by (simp only: power_add [symmetric]) simp
  have "unat u div 2 ^ k < 2 ^ (32 - k)"
    using unat_u32_less [of u] by (simp only: e less_mult_imp_div_less)
  then have "(unat u div 2 ^ k + 1) * 2 ^ k \<le> 2 ^ (32 - k) * 2 ^ k" by (intro mult_le_mono1) simp
  then show ?thesis by (simp only: e) simp
qed

lemma unat_parent:
  assumes "page_ok bh"
  shows "unat (parent_idx bh u) = page_parent (half_page bh) (unat u)"
proof -
  obtain k where k: "2 \<le> k" "k \<le> 19" "vb_page_shift bh = k" "vb_page_size bh = 2 ^ k"
    "vb_page_mask bh = mask k" "2 * half_page bh = 2 ^ k" "half_page bh = 2 ^ (k - 1)" "2 \<le> half_page bh"
    using page_okE [OF assms] by blast
  define q po where "q = unat u div 2 ^ k" and "po = unat u mod 2 ^ k"
  have po: "unat (u AND mask k) = po" "po < 2 ^ k" by (simp_all only: unat_and_mask po_def) simp
  have c1: "u < 2 ^ k \<longleftrightarrow> q = 0" using k unat_pow_u32 [of k] by (simp add: word_less_nat_alt q_def div_eq_0_iff)
  have c2: "u AND mask k > 3 \<longleftrightarrow> po > 3" "u AND mask k < 2 \<longleftrightarrow> po < 2" by (simp_all add: word_less_nat_alt po(1))
  have up: "unat u = q * 2 ^ k + po" by (simp only: q_def po_def div_mult_mod_eq)
  consider (usual) "q = 0 \<or> po > 3" | (first) "q > 0" "po < 2" | (second) "q > 0" "2 \<le> po" "po \<le> 3" by linarith
  then show ?thesis
  proof cases
    case usual
    have "unat (drop_bit 1 (u AND mask k)) = po div 2" by (simp only: unat_drop po(1)) simp
    then have "unat ((u AND NOT (mask k)) OR drop_bit 1 (u AND mask k)) = q * 2 ^ k + po div 2"
      using unat_or_low [OF unat_page_base [of u k], of "drop_bit 1 (u AND mask k)"] po(2) by (simp add: q_def)
    then show ?thesis using usual c1 c2 k
      by (simp add: parent_idx_def page_parent_def q_def [symmetric] po_def [symmetric])
  next
    case first
    define m where "m = q - 1"
    define v where "v = drop_bit k (u - 2 ^ k)"
    have "1 * 2 ^ k \<le> q * 2 ^ k" by (rule mult_le_mono1) (use first in simp)
    then have "2 ^ k \<le> unat u" using up by linarith
    then have v: "unat v = m" using k unat_sub_u32 [of "2 ^ k" u] unat_pow_u32 [of k]
      by (simp only: v_def unat_drop) (simp add: q_def m_def le_div_geq)
    have sm: "m div 2 ^ (k - 1) * 2 ^ (k - 1) + m mod 2 ^ (k - 1) = m" by (rule div_mult_mod_eq)
    have "2 * 2 \<le> (2 :: nat) ^ k" using k by simp
    have "q * 2 ^ k \<le> unat u" using up by simp
    then have "q * 4 < 2 ^ 32" using unat_u32_less [of u] mult_le_mono2 [OF \<open>2 * 2 \<le> 2 ^ k\<close>, of q] by linarith
    moreover have d2: "m div 2 ^ (k - 1) * 2 ^ k = 2 * (m div 2 ^ (k - 1) * 2 ^ (k - 1))"
      using k(6,7) by (metis mult.left_commute)
    moreover have "unat (v AND NOT (mask (k - 1))) = m div 2 ^ (k - 1) * 2 ^ (k - 1)"
      using unat_page_base [of v "k - 1"] v by simp
    moreover have "m < q" using first by (simp add: m_def)
    ultimately have nv: "unat (v + (v AND NOT (mask (k - 1)))) = m div 2 ^ (k - 1) * 2 ^ k + m mod 2 ^ (k - 1)"
      using unat_add_u32 [of v "v AND NOT (mask (k - 1))"] v sm by linarith
    have "unat ((v + (v AND NOT (mask (k - 1)))) OR 2 ^ (k - 1)) =
        m div 2 ^ (k - 1) * 2 ^ k + (2 ^ (k - 1) + m mod 2 ^ (k - 1))"
      using or_half [of "m mod 2 ^ (k - 1)" "k - 1" "m div 2 ^ (k - 1)"] k unat_pow_u32 [of "k - 1"]
      by (simp only: unat_or nv) (simp add: Suc_diff_Suc)
    then show ?thesis using first c1 c2 k half_mask [of k] half_size [of k]
      by (simp add: parent_idx_def page_parent_def q_def [symmetric] po_def [symmetric] v_def m_def Let_def)
  next
    case second
    then have "unat (u - 2) = unat u - 2" using unat_sub_u32 [of 2 u] up by simp
    then show ?thesis using second c1 c2 k
      by (simp add: parent_idx_def page_parent_def q_def [symmetric] po_def [symmetric])
  qed
qed

lemma unat_up: "unat (ucast (w :: u32) :: u64) = unat w"
  using unat_u32_less [of w] by (simp add: unsigned_ucast_eq take_bit_nat_eq_self)

lemma unat_down: "unat (ucast (x :: u64) :: u32) = unat x mod 2 ^ 32"
  by (simp only: unsigned_ucast_eq) (simp add: take_bit_eq_mod)

lemma ucast_fit: "(ucast (ucast (x :: u64) :: u32) = x) \<longleftrightarrow> unat x < 2 ^ 32"
proof -
  have "unat (ucast (ucast x :: u32) :: u64) = unat x mod 2 ^ 32"
    by (simp only: unat_up unat_down)
  then show ?thesis by (auto simp add: word_unat_eq_iff mod_eq_self_iff_div_eq_0 div_eq_0_iff)
qed

lemma ucast_low: "unat (x :: u64) < 2 ^ 32 \<Longrightarrow> (ucast x :: u32) = of_nat (unat x)"
  by (simp only: word_unat_eq_iff unat_down unat_of_nat) simp

text \<open>An index that does not fit into 32 bits is replaced by \<open>UINT_MAX\<close>.\<close>

lemma child_eq:
  assumes "page_ok bh" and ab: "page_child (half_page bh) (unat u) = (a, b)"
  shows "child bh u = (if a < 2 ^ 32 then (of_nat a, of_nat b) else (UINT_MAX, UINT_MAX))"
    and "a < 2 ^ 32 \<Longrightarrow> b < 2 ^ 32"
proof -
  obtain k where k: "2 \<le> k" "k \<le> 19" "vb_page_shift bh = k" "vb_page_size bh = 2 ^ k"
    "vb_page_mask bh = mask k" "2 * half_page bh = 2 ^ k" "half_page bh = 2 ^ (k - 1)" "2 \<le> half_page bh"
    using page_okE [OF assms(1)] by blast
  define q po where "q = unat u div 2 ^ k" and "po = unat u mod 2 ^ k"
  have po: "unat (u AND mask k) = po" "po < 2 ^ k" by (simp_all only: unat_and_mask po_def) simp
  have up: "unat u = q * 2 ^ k + po" by (simp only: q_def po_def div_mult_mod_eq)
  have top: "q * 2 ^ k + 2 ^ k \<le> 2 ^ 32" unfolding q_def by (rule page_top) (use k in simp)
  have at: "page_child (half_page bh) (unat u) =
    (if q > 0 \<and> po < 2 then (unat u + 2, unat u + 2)
     else if po \<ge> half_page bh then ((q * half_page bh + (po - half_page bh) + 1) * 2 ^ k,
       (q * half_page bh + (po - half_page bh) + 1) * 2 ^ k + 1)
     else (unat u + po, unat u + po + 1))"
    by (simp add: page_child_def k(6) q_def po_def Let_def)
  have c1: "(u > mask k \<and> u AND (mask k - 1) = 0) \<longleftrightarrow> q > 0 \<and> po < 2"
  proof -
    have "u > mask k \<longleftrightarrow> q > 0"
      using k unat_mask_u32 [of k] by (auto simp: word_less_nat_alt q_def div_greater_zero_iff)
    then show ?thesis using first_two [of k u] k by (simp add: po_def)
  qed
  have c2: "u AND drop_bit 1 (2 ^ k) \<noteq> 0 \<longleftrightarrow> po \<ge> half_page bh"
    using half_size [of k] half_bit [of u "k - 1"] bit_unat_iff [of u "k - 1"] k by (simp add: po_def)
  consider (magic) "q > 0 \<and> po < 2" | (bottom) "po \<ge> half_page bh" "\<not> (q > 0 \<and> po < 2)"
    | (usual) "po < half_page bh" "\<not> (q > 0 \<and> po < 2)" by linarith
  then have "child bh u = (if a < 2 ^ 32 then (of_nat a, of_nat b) else (UINT_MAX, UINT_MAX)) \<and>
    (a < 2 ^ 32 \<longrightarrow> b < 2 ^ 32)"
  proof cases
    case magic
    have "unat u + 2 < 2 ^ 32" using magic top up k by linarith
    moreover have "a = unat u + 2" "b = unat u + 2" using magic at ab by simp_all
    moreover have "child bh u = (u + 2, u + 2)" using magic c1 k by (simp add: child_def)
    ultimately show ?thesis by simp
  next
    case usual
    have "unat u + po + 1 < 2 ^ 32" using usual top up k by linarith
    moreover have "a = unat u + unat (u AND mask k)" "b = unat u + unat (u AND mask k) + 1"
      using usual at ab po(1) by auto
    moreover have "child bh u = (u + (u AND mask k), u + (u AND mask k) + 1)"
      using usual c1 c2 k by (auto simp: child_def Let_def)
    ultimately show ?thesis by (simp add: po(1) [symmetric])
  next
    case bottom
    then obtain r where r: "po = 2 ^ (k - 1) + r" using le_Suc_ex k(7) by metis
    define n where "n = q * 2 ^ (k - 1) + r + 1"
    have k2: "(2 :: nat) ^ k = 2 * 2 ^ (k - 1)" using k(6,7) by simp
    have rk: "r < 2 ^ (k - 1)" using r po(2) k2 by linarith
    have base: "unat (drop_bit 1 (u AND NOT (mask k))) = q * 2 ^ (k - 1)"
      by (simp only: unat_drop unat_page_base q_def [symmetric]) (simp add: k2)
    have "unat u = (2 * q + 1) * 2 ^ (k - 1) + r" using up r k2 by (simp add: algebra_simps)
    then have low: "unat (u AND mask (k - 1)) = r" using rk by (simp only: unat_and_mask mod_mult_self3 mod_less)
    have "q * 2 ^ k = 2 * (q * 2 ^ (k - 1))" "(2 :: nat) ^ 32 = 2 * 2 ^ 31" using k2 by simp_all
    then have nb: "n \<le> 2 ^ 31" using rk top k2 unfolding n_def by linarith
    define w where "w = (drop_bit 1 (u AND NOT (mask k)) OR (u AND mask (k - 1))) + 1"
    define uu where "uu = (push_bit k (ucast w) :: u64)"
    have "unat (drop_bit 1 (u AND NOT (mask k)) OR (u AND mask (k - 1))) = q * 2 ^ (k - 1) + r"
      using unat_or_low [OF base, of "u AND mask (k - 1)"] low rk by simp
    then have w: "unat w = n"
      using nb unat_add_u32 [of "drop_bit 1 (u AND NOT (mask k)) OR (u AND mask (k - 1))" 1]
      by (simp add: w_def n_def)
    have "(2 :: nat) ^ k \<le> 2 ^ 19" using k by (intro power_increasing) simp_all
    then have "n * 2 ^ k \<le> 2 ^ 31 * 2 ^ 19" by (rule mult_le_mono [OF nb])
    then have uu: "unat uu = n * 2 ^ k"
      using unat_push [of "ucast w :: u64" k] w unat_up [of w] by (simp add: uu_def)
    have "q * half_page bh + (po - half_page bh) + 1 = n" using r k(7) by (simp add: n_def)
    then have "page_child (half_page bh) (unat u) = (n * 2 ^ k, n * 2 ^ k + 1)"
      unfolding at using bottom by auto
    then have ab': "a = n * 2 ^ k" "b = n * 2 ^ k + 1" using ab by simp_all
    have "even a" "b = a + 1" using ab' k by simp_all
    then have b: "a < 2 ^ 32 \<Longrightarrow> b < 2 ^ 32" by (auto elim!: evenE)
    have ch: "child bh u = (if ucast (ucast uu :: u32) = uu then (ucast uu, ucast uu + 1) else (UINT_MAX, UINT_MAX))"
      using bottom c1 c2 k half_mask [of k] by (auto simp: child_def Let_def uu_def w_def)
    show ?thesis
    proof (cases "a < 2 ^ 32")
      case True
      then show ?thesis using ch ucast_fit [of uu] ucast_low [of uu] uu ab' b by simp
    next
      case False
      then show ?thesis using ch ucast_fit [of uu] uu ab' by simp
    qed
  qed
  then show "child bh u = (if a < 2 ^ 32 then (of_nat a, of_nat b) else (UINT_MAX, UINT_MAX))"
    and "a < 2 ^ 32 \<Longrightarrow> b < 2 ^ 32" by simp_all
qed

subsection \<open>The tree of the code\<close>

interpretation pages: heap_tree page_ok parent_idx child
proof
  fix bh :: "('a, 's) vbh" and u a b v
  assume ok: "page_ok bh"
  have h: "2 \<le> half_page bh" by (rule page_okE [OF ok])
  show "1 \<le> parent_idx bh u \<and> parent_idx bh u < u" if "1 < u"
    using page_parent_less [OF h, of "unat u"] that
    by (simp add: word_le_nat_alt word_less_nat_alt unat_parent [OF ok])
  assume u: "1 \<le> u" and ch: "child bh u = (a, b)"
  obtain a' b' where c: "page_child (half_page bh) (unat u) = (a', b')" by fastforce
  have u1: "1 \<le> unat u" using u by (simp add: word_le_nat_alt)
  note gt = page_child_greater [OF h u1 c] and pc = page_parent_child [OF h u1 c]
  note eq = child_eq [OF ok c]
  show "u < a \<and> a \<le> b" if "u < UINT_MAX"
    using that gt eq ch by (auto simp: word_less_nat_alt word_le_nat_alt unat_of_nat_u32 split: if_splits)
  show "parent_idx bh v = u \<longleftrightarrow> v = a \<or> v = b" if v: "1 < v" "v < UINT_MAX"
  proof
    assume p: "parent_idx bh v = u"
    then have "unat v = a' \<or> unat v = b'"
      using page_child_parent [OF h, of "unat v"] v c by (simp add: unat_parent [OF ok, symmetric] word_less_nat_alt)
    moreover have "a' < 2 ^ 32" using calculation unat_u32_less [of v] gt by auto
    ultimately show "v = a \<or> v = b" using eq ch by auto
  next
    assume "v = a \<or> v = b"
    moreover have a': "a' < 2 ^ 32" using eq(1) ch calculation v by (auto split: if_splits)
    ultimately have "unat v = a' \<or> unat v = b'" using eq ch by (auto simp: unat_of_nat_u32)
    then show "parent_idx bh v = u" using pc by (auto simp: word_unat_eq_iff unat_parent [OF ok])
  qed
qed

end
