(* ===== verification/Vbh_Ops.thy ===== *)
theory Vbh_Ops
  imports Vbh_Tree
begin

text \<open>
  The operations of \<open>lib/vbh.c\<close> keep a heap.

  \<^item> \<open>vbh_wf\<close>: the rows up to the length are allocated, the indices below \<open>next\<close> hold items.
    \<open>heap_inv\<close> adds the heap order and that the update callback has told every item its index.
  \<^item> \<open>moved\<close> is what the exchanges keep: only the array changes, the items are the same, their
    indices are tracked.
  \<^item> Each operation ends without a fault and keeps \<open>heap_inv\<close>.
\<close>

subsection \<open>The array\<close>

definition rows_ok :: "('a, 's) vbh \<Rightarrow> bool" where
  "rows_ok bh = (page_ok bh \<and> length (vb_array bh) = vb_rows bh \<and>
     (\<exists>n. 0 < n \<and> n \<le> vb_rows bh \<and> unat (vb_length bh) = n * 65536 \<and>
       (\<forall>i < vb_rows bh. vb_array bh ! i \<noteq> None \<longleftrightarrow> i < n)))"

lemma row_of_eq: "row_of n = unat n div 65536"
  by (simp add: row_of_def unat_drop)

lemma col_of_eq: "col_of n = unat n mod 65536"
proof -
  have "ROW_WIDTH - 1 = (mask 16 :: u32)" by (simp add: mask_eq_exp_minus_1)
  then show ?thesis by (simp only: col_of_def unat_and_mask) simp
qed

lemma cell_inj: "row_of m = row_of n \<Longrightarrow> col_of m = col_of n \<Longrightarrow> m = n"
  unfolding row_of_eq col_of_eq by (metis div_mult_mod_eq word_unat_eq_iff)

lemma row_alloc:
  assumes "rows_ok bh" and "n < vb_length bh"
  obtains r where "row_of n < length (vb_array bh)" "vb_array bh ! row_of n = Some r"
proof -
  obtain k where k: "0 < k" "k \<le> vb_rows bh" "unat (vb_length bh) = k * 65536"
    "\<forall>i < vb_rows bh. vb_array bh ! i \<noteq> None \<longleftrightarrow> i < k" "length (vb_array bh) = vb_rows bh"
    using assms(1) by (auto simp: rows_ok_def)
  have "row_of n < k" using assms(2) k(3) by (simp add: row_of_eq word_less_nat_alt less_mult_imp_div_less)
  then show thesis using that k by (metis not_None_eq order_less_le_trans)
qed

lemma A_get_ok: "rows_ok bh \<Longrightarrow> n < vb_length bh \<Longrightarrow> \<exists>c. A_get bh n = Inr c"
  by (erule (1) row_alloc) (simp add: A_get_def)

lemma A_set_ok:
  assumes "rows_ok bh" and "n < vb_length bh"
  shows "\<exists>arr. A_set bh n c = Inr (bh\<lparr>vb_array := arr\<rparr>) \<and> rows_ok (bh\<lparr>vb_array := arr\<rparr>) \<and>
    (\<forall>m. A_get (bh\<lparr>vb_array := arr\<rparr>) m = (if m = n then Inr c else A_get bh m))"
proof -
  obtain r where r: "row_of n < length (vb_array bh)" "vb_array bh ! row_of n = Some r"
    by (rule row_alloc [OF assms])
  define arr where "arr = (vb_array bh)[row_of n := Some (r(col_of n := c))]"
  have none: "arr ! i = None \<longleftrightarrow> vb_array bh ! i = None" if "i < length (vb_array bh)" for i
    using r that by (cases "i = row_of n") (auto simp: arr_def)
  have len: "length arr = length (vb_array bh)" by (simp add: arr_def)
  have "rows_ok (bh\<lparr>vb_array := arr\<rparr>)"
    using assms(1) none len by (auto simp: rows_ok_def page_ok_def)
  moreover have "A_get (bh\<lparr>vb_array := arr\<rparr>) m = (if m = n then Inr c else A_get bh m)" for m
  proof (cases "row_of m = row_of n")
    case True
    then show ?thesis using r cell_inj [of m n] by (auto simp: A_get_def arr_def)
  next
    case False
    then show ?thesis by (auto simp: A_get_def arr_def nthR_def)
  qed
  ultimately show ?thesis using r by (auto simp: A_set_def arr_def)
qed

subsection \<open>Well-formed heaps\<close>

definition item :: "('a, 's) vbh \<Rightarrow> u32 \<Rightarrow> 'a" where
  "item bh n = (case A_get bh n of Inr (Item x) \<Rightarrow> x | _ \<Rightarrow> undefined)"

definition filled :: "('a, 's) vbh \<Rightarrow> u32 \<Rightarrow> bool" where
  "filled bh n = (case A_get bh n of Inr (Item x) \<Rightarrow> True | _ \<Rightarrow> False)"

definition used :: "('a, 's) vbh \<Rightarrow> u32 set" where
  "used bh = {v. 1 \<le> v \<and> v < vb_next bh}"

definition contents :: "('a, 's) vbh \<Rightarrow> 'a set" where
  "contents bh = item bh ` used bh"

definition vbh_wf :: "('a, 's) vbh \<Rightarrow> bool" where
  "vbh_wf bh = (rows_ok bh \<and> 1 \<le> vb_next bh \<and> vb_next bh \<le> vb_length bh \<and>
     (\<forall>v \<in> used bh. filled bh v) \<and> (vb_next bh = 1 \<longrightarrow> A_get bh 1 = Inr Null))"

text \<open>
  What the callbacks must satisfy: \<open>get s x\<close> is the index that item \<open>x\<close> has been told, the update
  callback changes nothing else of that, and no comparison.
\<close>

definition callbacks :: "('s \<Rightarrow> 'a \<Rightarrow> u32) \<Rightarrow> ('a, 's) vbh \<Rightarrow> bool" where
  "callbacks get bh = (\<exists>f. vb_update bh = Some f \<and>
     (\<forall>x u s y. get (f x u s) y = (if y = x then u else get s y)) \<and>
     (\<forall>x u s. vb_cmp bh (f x u s) = vb_cmp bh s))"

definition tracks :: "('s \<Rightarrow> 'a \<Rightarrow> u32) \<Rightarrow> ('a, 's) vbh \<Rightarrow> 's \<Rightarrow> bool" where
  "tracks get bh s = (\<forall>v \<in> used bh. get s (item bh v) = v)"

definition heap_inv :: "('s \<Rightarrow> 'a \<Rightarrow> u32) \<Rightarrow> ('a, 's) vbh \<Rightarrow> 's \<Rightarrow> bool" where
  "heap_inv get bh s = (vbh_wf bh \<and> callbacks get bh \<and> swo (vb_cmp bh s) \<and>
     heap_order (parent_idx bh) (vb_cmp bh s) (item bh) (vb_next bh) \<and> tracks get bh s)"

lemma array_frame [simp]:
  "parent_idx (bh\<lparr>vb_array := arr\<rparr>) = parent_idx bh"
  "child (bh\<lparr>vb_array := arr\<rparr>) = child bh"
  "page_ok (bh\<lparr>vb_array := arr\<rparr>) = page_ok bh"
  "used (bh\<lparr>vb_array := arr\<rparr>) = used bh"
  "callbacks get (bh\<lparr>vb_array := arr\<rparr>) = callbacks get bh"
  by (simp_all add: fun_eq_iff parent_idx_def child_def page_ok_def used_def callbacks_def Let_def)

lemma size_frame [simp]:
  "parent_idx (bh\<lparr>vb_next := n\<rparr>) = parent_idx bh"
  "parent_idx (bh\<lparr>vb_rows := k\<rparr>) = parent_idx bh"
  "parent_idx (bh\<lparr>vb_length := l\<rparr>) = parent_idx bh"
  "callbacks get (bh\<lparr>vb_next := n\<rparr>) = callbacks get bh"
  "callbacks get (bh\<lparr>vb_rows := k\<rparr>) = callbacks get bh"
  "callbacks get (bh\<lparr>vb_length := l\<rparr>) = callbacks get bh"
  "A_get (bh\<lparr>vb_next := n\<rparr>) = A_get bh"
  "A_get (bh\<lparr>vb_rows := k\<rparr>) = A_get bh"
  "A_get (bh\<lparr>vb_length := l\<rparr>) = A_get bh"
  "rows_ok (bh\<lparr>vb_next := n\<rparr>) = rows_ok bh"
  "item (bh\<lparr>vb_next := n\<rparr>) = item bh"
  "filled (bh\<lparr>vb_next := n\<rparr>) = filled bh"
  by (simp_all add: fun_eq_iff parent_idx_def callbacks_def A_get_def rows_ok_def page_ok_def item_def
      filled_def Let_def)

lemma used_iff: "v \<in> used bh \<longleftrightarrow> 1 \<le> v \<and> v < vb_next bh"
  by (simp add: used_def)

lemma A_item_used:
  assumes "vbh_wf bh" and "v \<in> used bh"
  shows "A_item bh v = Inr (item bh v)" "A_get bh v = Inr (Item (item bh v))"
  using assms by (auto simp: vbh_wf_def A_item_def item_def filled_def split: sum.splits cell.splits)

lemma used_length: "vbh_wf bh \<Longrightarrow> v \<in> used bh \<Longrightarrow> v < vb_length bh"
  by (auto simp: vbh_wf_def used_def)

lemma tracks_inj: "tracks get bh s \<Longrightarrow> inj_on (item bh) (used bh)"
  unfolding tracks_def by (rule inj_on_inverseI [where g = "get s"]) blast

lemma item_upd:
  "(\<And>m. A_get bh' m = (if m = n then Inr (Item x) else A_get bh m)) \<Longrightarrow> item bh' = (item bh)(n := x)"
  by (auto simp: item_def fun_eq_iff)

definition notify :: "('a, 's) vbh \<Rightarrow> 'a \<Rightarrow> u32 \<Rightarrow> 's \<Rightarrow> 's" where
  "notify bh x u s = (case vb_update bh of None \<Rightarrow> s | Some f \<Rightarrow> f x u s)"

lemma notify_laws:
  assumes "callbacks get bh"
  shows "get (notify bh x u s) y = (if y = x then u else get s y)"
    "vb_cmp bh (notify bh x u s) = vb_cmp bh s"
  using assms by (auto simp: callbacks_def notify_def)

lemma notify_array [simp]: "notify (bh\<lparr>vb_array := arr\<rparr>) = notify bh"
  by (simp add: notify_def fun_eq_iff)

lemma vbh_update_eq: "vbh_wf bh \<Longrightarrow> u \<in> used bh \<Longrightarrow> vbh_update bh u s = Inr (notify bh (item bh u) u s)"
  by (simp add: vbh_update_def A_item_used notify_def used_iff)

subsection \<open>Exchanges\<close>

definition moved ::
  "('s \<Rightarrow> 'a \<Rightarrow> u32) \<Rightarrow> ('a, 's) vbh \<Rightarrow> 's \<Rightarrow> ('a, 's) vbh \<Rightarrow> 's \<Rightarrow> bool" where
  "moved get bh s bh' s' = ((\<exists>arr. bh' = bh\<lparr>vb_array := arr\<rparr>) \<and> vbh_wf bh' \<and> tracks get bh' s' \<and>
     contents bh' = contents bh \<and> vb_cmp bh s' = vb_cmp bh s \<and> (\<forall>y. y \<notin> contents bh \<longrightarrow> get s' y = get s y))"

lemma moved_refl: "vbh_wf bh \<Longrightarrow> tracks get bh s \<Longrightarrow> moved get bh s bh s"
  unfolding moved_def by (auto intro: exI [of _ "vb_array bh"])

lemma moved_trans: "moved get bh s bh1 s1 \<Longrightarrow> moved get bh1 s1 bh2 s2 \<Longrightarrow> moved get bh s bh2 s2"
  by (auto simp: moved_def)

lemma moved_frame:
  assumes "moved get bh s bh' s'"
  shows "vbh_wf bh'" "tracks get bh' s'" "vb_next bh' = vb_next bh" "vb_cmp bh' s' = vb_cmp bh s"
    "used bh' = used bh" "parent_idx bh' = parent_idx bh" "child bh' = child bh"
    "callbacks get bh' = callbacks get bh" "contents bh' = contents bh"
  using assms by (auto simp: moved_def)

lemma moved_cmp: "moved get bh s bh' s' \<Longrightarrow> vb_cmp bh' = vb_cmp bh"
  by (auto simp: moved_def)

lemma swap_moved:
  assumes wf: "vbh_wf bh" and cb: "callbacks get bh" and tr: "tracks get bh s"
    and u: "u \<in> used bh" and v: "v \<in> used bh" and "u \<noteq> v"
  shows "okR (\<lambda>(bh', s'). moved get bh s bh' s' \<and> item bh' = (item bh)(u := item bh v, v := item bh u))
    (binhead_swap bh u v s)"
proof -
  let ?x = "item bh u" and ?y = "item bh v"
  have rows: "rows_ok bh" using wf by (simp add: vbh_wf_def)
  obtain a1 where a1: "A_set bh u (Item ?y) = Inr (bh\<lparr>vb_array := a1\<rparr>)" "rows_ok (bh\<lparr>vb_array := a1\<rparr>)"
    "\<And>m. A_get (bh\<lparr>vb_array := a1\<rparr>) m = (if m = u then Inr (Item ?y) else A_get bh m)"
    using A_set_ok [OF rows used_length [OF wf u]] by blast
  have "v < vb_length (bh\<lparr>vb_array := a1\<rparr>)" using used_length [OF wf v] by simp
  from A_set_ok [OF a1(2) this] obtain a2 where
    a2: "A_set (bh\<lparr>vb_array := a1\<rparr>) v (Item ?x) = Inr (bh\<lparr>vb_array := a2\<rparr>)" "rows_ok (bh\<lparr>vb_array := a2\<rparr>)"
    "\<And>m. A_get (bh\<lparr>vb_array := a2\<rparr>) m = (if m = v then Inr (Item ?x) else A_get (bh\<lparr>vb_array := a1\<rparr>) m)"
    by fastforce
  let ?bh = "bh\<lparr>vb_array := a2\<rparr>"
  have item: "item ?bh = (item bh)(u := ?y, v := ?x)"
    using item_upd [OF a1(3)] item_upd [OF a2(3)] by simp
  have "filled ?bh w" if "w \<in> used bh" for w
    using that wf by (auto simp: filled_def a1(3) a2(3) vbh_wf_def)
  moreover have "vb_next bh \<noteq> 1" using u by (auto simp: used_iff)
  ultimately have wf': "vbh_wf ?bh" using wf a2(2) by (simp add: vbh_wf_def)
  define s1 where "s1 = notify bh ?y u s"
  define s2 where "s2 = notify bh ?x v s1"
  have ups: "vbh_update ?bh u s = Inr s1" "vbh_update ?bh v s1 = Inr s2"
    using vbh_update_eq [OF wf', of u] vbh_update_eq [OF wf', of v] u v \<open>u \<noteq> v\<close>
    by (simp_all add: item s1_def s2_def)
  have sw: "binhead_swap bh u v s = Inr (?bh, s2)"
    using u v a1(1) a2(1) ups by (simp add: binhead_swap_def A_item_used [OF wf] used_iff)
  have xy: "?x \<noteq> ?y" using tracks_inj [OF tr] u v \<open>u \<noteq> v\<close> by (auto dest: inj_onD)
  have get: "get s2 z = (if z = ?x then v else if z = ?y then u else get s z)" for z
    by (simp add: s1_def s2_def notify_laws [OF cb])
  have "get s2 (item ?bh w) = w" if "w \<in> used bh" for w
    using that tr xy inj_onD [OF tracks_inj [OF tr] _ that u] inj_onD [OF tracks_inj [OF tr] _ that v]
    by (auto simp: item get tracks_def)
  then have "tracks get ?bh s2" by (simp add: tracks_def)
  moreover have "contents ?bh = contents bh"
    using u v by (auto simp: contents_def item image_iff)
  moreover have "vb_cmp bh s2 = vb_cmp bh s" by (simp add: s1_def s2_def notify_laws [OF cb])
  moreover have "get s2 z = get s z" if "z \<notin> contents bh" for z
    using that u v by (auto simp: get contents_def)
  ultimately show ?thesis using sw wf' item by (auto simp: moved_def)
qed

subsection \<open>Movements\<close>

text \<open>The facts about a heap that the movements start from, and their consequences.\<close>

definition movable :: "('s \<Rightarrow> 'a \<Rightarrow> u32) \<Rightarrow> ('a, 's) vbh \<Rightarrow> 's \<Rightarrow> bool" where
  "movable get bh s = (vbh_wf bh \<and> callbacks get bh \<and> tracks get bh s \<and> swo (vb_cmp bh s))"

lemma movable_page: "movable get bh s \<Longrightarrow> page_ok bh"
  by (simp add: movable_def vbh_wf_def rows_ok_def)

lemma movable_moved: "movable get bh s \<Longrightarrow> moved get bh s bh' s' \<Longrightarrow> movable get bh' s'"
  by (auto simp: movable_def dest: moved_frame)

lemma movable_refl: "movable get bh s \<Longrightarrow> moved get bh s bh s"
  by (simp add: movable_def moved_refl)

lemma movable_swap:
  assumes "movable get bh s" and "u \<in> used bh" and "v \<in> used bh" and "u \<noteq> v"
  obtains bh' s' where "binhead_swap bh u v s = Inr (bh', s')" "moved get bh s bh' s'"
    "movable get bh' s'" "item bh' = (item bh)(u := item bh v, v := item bh u)"
  using swap_moved [OF _ _ _ assms(2,3,4)] assms(1) movable_moved [OF assms(1)]
  by (fastforce simp: okR_def movable_def)

lemma used_not_max: "u \<in> used bh \<Longrightarrow> u \<noteq> UINT_MAX \<and> u < UINT_MAX"
  using unat_u32_less [of "vb_next bh"] by (auto simp: used_iff word_less_nat_alt)

lemma parent_used:
  assumes "page_ok bh" and "u \<in> used bh" and "1 < u"
  shows "parent bh u = Inr (parent_idx bh u)" "parent_idx bh u < u" "parent_idx bh u \<in> used bh"
  using pages.par_less [OF assms(1,3)] assms(2) used_not_max [OF assms(2)]
  by (auto simp: parent_def used_iff)

text \<open>One round of \<open>vbh_trickleup\<close>.\<close>

lemma trickleup_round:
  assumes mv: "movable get bh s" and u: "u \<in> used bh" and "1 < u"
  shows "trickleup_loop bh u s = (if \<not> vb_cmp bh s (item bh u) (item bh (parent_idx bh u)) then Inr (bh, s, u)
    else bindR (binhead_swap bh u (parent_idx bh u) s) (\<lambda>(bh', s'). trickleup_loop bh' (parent_idx bh u) s'))"
proof -
  note p = parent_used [OF movable_page [OF mv] u \<open>1 < u\<close>]
  have wf: "vbh_wf bh" using mv by (simp add: movable_def)
  show ?thesis using p u \<open>1 < u\<close> by (subst trickleup_loop.simps) (simp add: A_item_used [OF wf] used_iff)
qed

lemma trickleup_root: "trickleup_loop bh 1 s = Inr (bh, s, 1)"
  by (subst trickleup_loop.simps) simp

lemma trickleup_heap:
  assumes "movable get bh s" and "u \<in> used bh"
    and "up_order (parent_idx bh) (vb_cmp bh s) (item bh) (vb_next bh) u"
  shows "okR (\<lambda>(bh', s', u'). moved get bh s bh' s' \<and> u' \<in> used bh \<and>
      heap_order (parent_idx bh) (vb_cmp bh s) (item bh') (vb_next bh)) (trickleup_loop bh u s)"
  using assms
proof (induction "unat u" arbitrary: u bh s rule: less_induct)
  case less
  note mv = less.prems(1) and u = less.prems(2) and up = less.prems(3)
  have ref: "moved get bh s bh s" using mv by (rule movable_refl)
  show ?case
  proof (cases "u = 1")
    case True
    then show ?thesis using ref u pages.up_stop [OF up] by (simp add: trickleup_root)
  next
    case False
    then have u1: "1 < u" using u by (simp add: used_iff order_less_le)
    let ?v = "parent_idx bh u"
    note pg = movable_page [OF mv]
    note p = parent_used [OF pg u u1]
    show ?thesis
    proof (cases "vb_cmp bh s (item bh u) (item bh ?v)")
      case False
      then show ?thesis using ref u pages.up_stop [OF up] by (simp add: trickleup_round [OF mv u u1])
    next
      case True
      have ne: "u \<noteq> ?v" using p(2) by auto
      obtain bh1 s1 where sw: "binhead_swap bh u ?v s = Inr (bh1, s1)" and m1: "moved get bh s bh1 s1"
        and mv1: "movable get bh1 s1" and it: "item bh1 = (item bh)(u := item bh ?v, ?v := item bh u)"
        by (rule movable_swap [OF mv u p(3) ne])
      note f = moved_frame [OF m1]
      have at: "at_order (parent_idx bh) (vb_cmp bh s) (item bh) (vb_next bh) u"
        using up by (simp add: up_order_def at_order_def)
      have "swo (vb_cmp bh s)" using mv by (simp add: movable_def)
      from pages.up_step [OF pg this at u1 _ True]
      have "up_order (parent_idx bh1) (vb_cmp bh1 s1) (item bh1) (vb_next bh1) ?v"
        using u f it by (simp add: used_iff)
      from less.hyps [OF _ mv1 _ this] have "okR (\<lambda>(bh', s', u'). moved get bh1 s1 bh' s' \<and> u' \<in> used bh \<and>
          heap_order (parent_idx bh) (vb_cmp bh s) (item bh') (vb_next bh)) (trickleup_loop bh1 ?v s1)"
        using p f by (simp add: word_less_nat_alt)
      then show ?thesis using sw True moved_trans [OF m1] by (auto simp: trickleup_round [OF mv u u1] okR_def)
    qed
  qed
qed

lemma trickleup_at:
  assumes mv: "movable get bh s" and u: "u \<in> used bh"
    and at: "at_order (parent_idx bh) (vb_cmp bh s) (item bh) (vb_next bh) u"
  shows "okR (\<lambda>(bh', s', u'). moved get bh s bh' s' \<and> u' \<in> used bh \<and>
      down_order (parent_idx bh) (vb_cmp bh s) (item bh') (vb_next bh) u') (trickleup_loop bh u s)"
proof (cases "1 < u \<and> vb_cmp bh s (item bh u) (item bh (parent_idx bh u))")
  case False
  have "u = 1 \<or> 1 < u" using u by (auto simp: used_iff order_le_less)
  then have "trickleup_loop bh u s = Inr (bh, s, u)"
    using False trickleup_root trickleup_round [OF mv u] by auto
  then show ?thesis using u pages.at_stop [OF at] movable_refl [OF mv] False by (simp add: not_less)
next
  case True
  let ?v = "parent_idx bh u"
  note pg = movable_page [OF mv]
  have u1: "1 < u" and lt: "vb_cmp bh s (item bh u) (item bh ?v)" using True by simp_all
  note p = parent_used [OF pg u u1]
  have ne: "u \<noteq> ?v" using p(2) by auto
  obtain bh1 s1 where sw: "binhead_swap bh u ?v s = Inr (bh1, s1)" and m1: "moved get bh s bh1 s1"
    and mv1: "movable get bh1 s1" and it: "item bh1 = (item bh)(u := item bh ?v, ?v := item bh u)"
    by (rule movable_swap [OF mv u p(3) ne])
  note f = moved_frame [OF m1]
  have swo: "swo (vb_cmp bh s)" using mv by (simp add: movable_def)
  from pages.up_step [OF pg this at u1 _ lt]
  have "up_order (parent_idx bh1) (vb_cmp bh1 s1) (item bh1) (vb_next bh1) ?v"
    using u f it by (simp add: used_iff)
  from trickleup_heap [OF mv1 _ this] have "okR (\<lambda>(bh', s', u'). moved get bh1 s1 bh' s' \<and> u' \<in> used bh \<and>
      heap_order (parent_idx bh) (vb_cmp bh s) (item bh') (vb_next bh)) (trickleup_loop bh1 ?v s1)"
    using p f by simp
  then show ?thesis using sw lt moved_trans [OF m1] pages.heap_down [OF pg swo]
    by (auto simp: trickleup_round [OF mv u u1] okR_def used_iff)
qed

text \<open>One round of \<open>vbh_trickledown\<close>: there is no child, or the lesser child is compared.\<close>

lemma trickledown_leaf:
  assumes mv: "movable get bh s" and u: "u \<in> used bh" and ch: "child bh u = (a, b)" and "vb_next bh \<le> a"
  shows "trickledown_round bh u s = Inr (False, bh, s, u)"
    and "\<And>w. 1 < w \<Longrightarrow> w < vb_next bh \<Longrightarrow> parent_idx bh w \<noteq> u"
proof -
  have wf: "vbh_wf bh" using mv by (simp add: movable_def)
  note g = pages.kids_greater [OF movable_page [OF mv] _ _ ch] used_not_max [OF u]
  have ab: "u < a" "a \<le> b" "0 < a" "0 < b" using g u by (auto simp: used_iff word_gt_0)
  show "trickledown_round bh u s = Inr (False, bh, s, u)"
    using ab u ch assms(4) by (simp add: trickledown_round_def A_item_used [OF wf] used_iff)
  fix w assume w: "1 < w" "w < vb_next bh"
  then have "w < UINT_MAX" using used_not_max [of w bh] by (simp add: used_iff)
  then show "parent_idx bh w \<noteq> u"
    using pages.kids_iff [OF movable_page [OF mv] _ ch w(1)] u w ab assms(4) by (auto simp: used_iff)
qed

lemma trickledown_child:
  assumes mv: "movable get bh s" and u: "u \<in> used bh" and ch: "child bh u = (a, b)" and "a < vb_next bh"
  obtains v where "v \<in> used bh" "u < v" "parent_idx bh v = u"
    "\<And>w. 1 < w \<Longrightarrow> w < vb_next bh \<Longrightarrow> parent_idx bh w = u \<Longrightarrow> \<not> vb_cmp bh s (item bh w) (item bh v)"
    "trickledown_round bh u s = (if vb_cmp bh s (item bh u) (item bh v) then Inr (False, bh, s, u)
      else bindR (binhead_swap bh u v s) (\<lambda>(bh', s'). Inr (True, bh', s', v)))"
proof -
  have wf: "vbh_wf bh" and swo: "swo (vb_cmp bh s)" using mv by (simp_all add: movable_def)
  note pg = movable_page [OF mv]
  have ab: "u < a" "a \<le> b" "0 < a" "0 < b"
    using pages.kids_greater [OF pg _ _ ch] used_not_max [OF u] u by (auto simp: used_iff word_gt_0)
  have u1: "1 \<le> u" using u by (simp add: used_iff)
  then have a1: "1 < a" "1 < b" using ab by auto
  have irr: "\<And>x. \<not> vb_cmp bh s x x" using swo_asym [OF swo] by blast
  have kid: "parent_idx bh w = u \<longleftrightarrow> w = a \<or> w = b" if "1 < w" "w < vb_next bh" for w
    using pages.kids_iff [OF pg u1 ch that(1)] used_not_max [of w bh] that by (simp add: used_iff)
  let ?sw = "a \<noteq> b \<and> b < vb_next bh \<and> vb_cmp bh s (item bh b) (item bh a)"
  define v where "v = (if ?sw then b else a)"
  have v: "v \<in> used bh" "u < v" "v = a \<or> v = b"
    using ab a1 assms(4) by (auto simp: v_def used_iff)
  have ia: "A_item bh a = Inr (item bh a)" using A_item_used [OF wf, of a] a1 assms(4) by (simp add: used_iff)
  have lt: "u < vb_next bh" "v < vb_next bh" "(vb_next bh \<le> a) = False"
    using u v assms(4) by (simp_all add: used_iff)
  have pick: "(if a \<noteq> b \<and> b < vb_next bh
      then bindR (A_item bh b) (\<lambda>y2. Inr (if vb_cmp bh s y2 (item bh a) then b else a)) else Inr a) = Inr v"
    using a1 A_item_used [OF wf, of b] by (auto simp: v_def used_iff)
  have "trickledown_round bh u s = (if vb_cmp bh s (item bh u) (item bh v) then Inr (False, bh, s, u)
      else bindR (binhead_swap bh u v s) (\<lambda>(bh', s'). Inr (True, bh', s', v)))"
    by (simp only: trickledown_round_def ch Let_def prod.case guardR_True [OF lt(1)] guardR_True [OF lt(2)]
        guardR_True [OF ab(2)] guardR_True [OF ab(3)] guardR_True [OF ab(4)] bindR_simps
        A_item_used(1) [OF wf u] A_item_used(1) [OF wf v(1)] ia lt(3) if_False pick)
  moreover have "parent_idx bh v = u" using kid [of v] v a1 by (auto simp: used_iff)
  moreover have "\<not> vb_cmp bh s (item bh w) (item bh v)" if "1 < w" "w < vb_next bh" "parent_idx bh w = u" for w
    using kid [OF that(1,2)] that swo_asym [OF swo] irr by (auto simp: v_def)
  ultimately show thesis using that v by blast
qed

lemma trickledown_heap:
  assumes "movable get bh s" and "u \<in> used bh"
    and "down_order (parent_idx bh) (vb_cmp bh s) (item bh) (vb_next bh) u"
  shows "\<exists>bh' s' u'. trickledown_loop bh u s = Some (Inr (bh', s', u')) \<and> moved get bh s bh' s' \<and> u' \<in> used bh \<and>
      heap_order (parent_idx bh) (vb_cmp bh s) (item bh') (vb_next bh)"
  using assms
proof (induction "unat (vb_next bh) - unat u" arbitrary: u bh s rule: less_induct)
  case less
  note mv = less.prems(1) and u = less.prems(2) and down = less.prems(3)
  have ref: "moved get bh s bh s" using mv by (rule movable_refl)
  note pg = movable_page [OF mv]
  have swo: "swo (vb_cmp bh s)" using mv by (simp add: movable_def)
  obtain a b where ch: "child bh u = (a, b)" by fastforce
  show ?case
  proof (cases "a < vb_next bh")
    case False
    then have na: "vb_next bh \<le> a" by simp
    note leaf = trickledown_leaf [OF mv u ch na]
    have "heap_order (parent_idx bh) (vb_cmp bh s) (item bh) (vb_next bh)"
      by (rule pages.down_stop [OF down]) (use leaf(2) in blast)
    then show ?thesis using ref u leaf(1) by (subst trickledown_loop.simps) simp
  next
    case True
    obtain v where v: "v \<in> used bh" "u < v" "parent_idx bh v = u"
      and least: "\<And>w. 1 < w \<Longrightarrow> w < vb_next bh \<Longrightarrow> parent_idx bh w = u \<Longrightarrow> \<not> vb_cmp bh s (item bh w) (item bh v)"
      and round: "trickledown_round bh u s = (if vb_cmp bh s (item bh u) (item bh v) then Inr (False, bh, s, u)
        else bindR (binhead_swap bh u v s) (\<lambda>(bh', s'). Inr (True, bh', s', v)))"
      by (rule trickledown_child [OF mv u ch True]) blast
    show ?thesis
    proof (cases "vb_cmp bh s (item bh u) (item bh v)")
      case True
      have "heap_order (parent_idx bh) (vb_cmp bh s) (item bh) (vb_next bh)"
        by (rule pages.down_stop [OF down], rule swo_least [OF swo True], rule least)
      then show ?thesis using ref u round True by (subst trickledown_loop.simps) simp
    next
      case False
      have ne: "u \<noteq> v" using v(2) by auto
      obtain bh1 s1 where sw: "binhead_swap bh u v s = Inr (bh1, s1)" and m1: "moved get bh s bh1 s1"
        and mv1: "movable get bh1 s1" and it: "item bh1 = (item bh)(u := item bh v, v := item bh u)"
        by (rule movable_swap [OF mv u v(1) ne])
      note f = moved_frame [OF m1]
      have "down_order (parent_idx bh) (vb_cmp bh s) ((item bh)(u := item bh v, v := item bh u)) (vb_next bh) v"
        by (rule pages.down_step [OF pg swo down _ v(2) _ v(3) least False]) (use u v in \<open>auto simp: used_iff\<close>)
      then have dn: "down_order (parent_idx bh1) (vb_cmp bh1 s1) (item bh1) (vb_next bh1) v" using f it by simp
      have "unat (vb_next bh1) - unat v < unat (vb_next bh) - unat u"
        using v f by (simp add: used_iff word_less_nat_alt) linarith
      from less.hyps [OF this mv1 _ dn] obtain bh' s' u' where
        "trickledown_loop bh1 v s1 = Some (Inr (bh', s', u'))" "moved get bh1 s1 bh' s'" "u' \<in> used bh"
        "heap_order (parent_idx bh) (vb_cmp bh s) (item bh') (vb_next bh)"
        using v f by auto
      then show ?thesis using round False sw moved_trans [OF m1] by (subst trickledown_loop.simps) auto
    qed
  qed
qed

lemma idx_asserts_ok: "vbh_wf bh \<Longrightarrow> u \<in> used bh \<Longrightarrow> idx_asserts bh u r = Inr r"
  by (simp add: idx_asserts_def A_item_used used_iff word_le_nat_alt word_less_nat_alt)

lemma trickle_heap:
  assumes mv: "movable get bh s" and u: "u \<in> used bh"
    and at: "at_order (parent_idx bh) (vb_cmp bh s) (item bh) (vb_next bh) u"
  shows "\<exists>bh' s' u'. trickle bh u s = Some (Inr (bh', s', u')) \<and> moved get bh s bh' s' \<and>
      heap_order (parent_idx bh) (vb_cmp bh s) (item bh') (vb_next bh)"
proof -
  have wf: "vbh_wf bh" using mv by (simp add: movable_def)
  obtain bh1 s1 u1 where up: "trickleup_loop bh u s = Inr (bh1, s1, u1)" and m1: "moved get bh s bh1 s1"
    and u1: "u1 \<in> used bh" and dn: "down_order (parent_idx bh) (vb_cmp bh s) (item bh1) (vb_next bh) u1"
    using trickleup_at [OF assms] by (auto simp: okR_def)
  note f = moved_frame [OF m1]
  have mv1: "movable get bh1 s1" by (rule movable_moved [OF mv m1])
  obtain bh2 s2 u2 where dw: "trickledown_loop bh1 u1 s1 = Some (Inr (bh2, s2, u2))" and m2: "moved get bh1 s1 bh2 s2"
    and u2: "u2 \<in> used bh" and hp: "heap_order (parent_idx bh) (vb_cmp bh s) (item bh2) (vb_next bh)"
    using trickledown_heap [OF mv1, of u1] u1 dn f by auto
  have "vbh_trickleup bh u s = Inr (bh1, s1, u1)"
    using up u A_item_used [OF wf u] by (simp add: vbh_trickleup_def used_iff)
  moreover have "vbh_trickledown bh1 u1 s1 = Some (Inr (bh2, s2, u2))"
    using dw A_item_used [OF f(1), of u1] u1 f by (simp add: vbh_trickledown_def used_iff)
  ultimately have "trickle bh u s = Some (Inr (bh2, s2, u2))"
    using idx_asserts_ok [OF f(1), of u1 "(bh1, s1, u1)"] u1 f
      idx_asserts_ok [OF moved_frame(1) [OF m2], of u2 "(bh2, s2, u2)"] u2 moved_frame(5) [OF m2]
    by (simp add: trickle_def)
  then show ?thesis using hp moved_trans [OF m1 m2] by blast
qed

lemma moved_heap_inv:
  assumes "movable get bh s" and "moved get bh s bh' s'"
    and "heap_order (parent_idx bh) (vb_cmp bh s) (item bh') (vb_next bh)"
  shows "heap_inv get bh' s'"
  using assms moved_frame [OF assms(2)] by (simp add: heap_inv_def movable_def)

lemma heap_inv_movable: "heap_inv get bh s \<Longrightarrow> movable get bh s"
  by (simp add: heap_inv_def movable_def)

subsection \<open>Rows\<close>

lemma heap_inv_cells:
  assumes "heap_inv get bh s" and "rows_ok bh'" and "vb_next bh' = vb_next bh" and "vb_next bh \<le> vb_length bh'"
    and "vb_cmp bh' = vb_cmp bh" and "vb_update bh' = vb_update bh" and "parent_idx bh' = parent_idx bh"
    and cells: "\<And>m. m < vb_next bh \<or> m = 1 \<Longrightarrow> A_get bh' m = A_get bh m"
  shows "heap_inv get bh' s" "contents bh' = contents bh"
proof -
  have used: "used bh' = used bh" using assms(3) by (simp add: used_def)
  have item: "item bh' v = item bh v" and filled: "filled bh' v = filled bh v" if "v < vb_next bh" for v
    using cells [of v] that by (simp_all add: item_def filled_def)
  have pg: "page_ok bh" using assms(1) by (simp add: heap_inv_def vbh_wf_def rows_ok_def)
  have hp: "heap_order (parent_idx bh) (vb_cmp bh s) (item bh) (vb_next bh)" using assms(1) by (simp add: heap_inv_def)
  have "heap_order (parent_idx bh) (vb_cmp bh s) (item bh') (vb_next bh)"
    unfolding heap_order_def
  proof (intro allI impI, elim conjE)
    fix v assume v: "1 < v" "v < vb_next bh"
    have "parent_idx bh v < vb_next bh" using pages.par_less [OF pg v(1)] v(2) by auto
    then show "\<not> vb_cmp bh s (item bh' v) (item bh' (parent_idx bh v))"
      using hp v item by (simp add: heap_order_def)
  qed
  moreover have "vbh_wf bh'"
    using assms(1-4) filled cells [of 1] by (auto simp: heap_inv_def vbh_wf_def used used_iff)
  ultimately show "heap_inv get bh' s"
    using assms item by (auto simp: heap_inv_def callbacks_def tracks_def used used_iff)
  show "contents bh' = contents bh"
    unfolding contents_def used by (rule image_cong [OF refl]) (simp add: item used_iff)
qed

lemma rows_okE:
  assumes "rows_ok bh"
  obtains n where "page_ok bh" "length (vb_array bh) = vb_rows bh" "0 < n" "n \<le> vb_rows bh"
    "unat (vb_length bh) = n * 65536" "\<And>i. i < vb_rows bh \<Longrightarrow> vb_array bh ! i \<noteq> None \<longleftrightarrow> i < n"
  using assms by (auto simp: rows_ok_def)

lemma A_get_rows:
  assumes "row_of m < length (vb_array bh)" and "row_of m < length (vb_array bh')"
    and "vb_array bh' ! row_of m = vb_array bh ! row_of m"
  shows "A_get bh' m = A_get bh m"
  using assms by (simp add: A_get_def)

text \<open>The index at which \<open>length\<close> would wrap around to 0.\<close>

abbreviation (input) MAX_LENGTH :: u32 where
  "MAX_LENGTH \<equiv> 0xffff0000"

lemma addrow_ok:
  assumes "rows_ok bh" and "vb_length bh < MAX_LENGTH"
  shows "\<exists>bh'. vbh_addrow bh = Inr bh' \<and> rows_ok bh' \<and> vb_length bh' = vb_length bh + ROW_WIDTH \<and>
    vb_length bh < vb_length bh' \<and> vb_next bh' = vb_next bh \<and> vb_cmp bh' = vb_cmp bh \<and>
    vb_update bh' = vb_update bh \<and> parent_idx bh' = parent_idx bh \<and>
    (\<forall>m. m < vb_length bh \<longrightarrow> A_get bh' m = A_get bh m)"
proof -
  obtain n where n: "page_ok bh" "length (vb_array bh) = vb_rows bh" "0 < n" "n \<le> vb_rows bh"
    "unat (vb_length bh) = n * 65536" and alloc: "\<And>i. i < vb_rows bh \<Longrightarrow> vb_array bh ! i \<noteq> None \<longleftrightarrow> i < n"
    using rows_okE [OF assms(1)] by metis
  have row: "row_of (vb_length bh) = n" by (simp add: row_of_eq n(5))
  define bh1 where "bh1 = (if n \<ge> vb_rows bh
    then bh\<lparr>vb_array := vb_array bh @ replicate (vb_rows bh) None, vb_rows := vb_rows bh * 2\<rparr> else bh)"
  define bh2 where "bh2 = bh1\<lparr>vb_array := (vb_array bh1)[n := Some (\<lambda>_. Uninit)], vb_length := vb_length bh + ROW_WIDTH\<rparr>"
  have len1: "length (vb_array bh1) = vb_rows bh1" "n < vb_rows bh1" "vb_rows bh \<le> vb_rows bh1"
    using n by (auto simp: bh1_def)
  have arr1: "vb_array bh1 ! i = (if i < n then vb_array bh ! i else None)" if "i < vb_rows bh1" for i
    using that n alloc [of i] by (cases "vb_array bh ! i") (auto simp: bh1_def nth_append split: if_splits)
  have l1: "vb_length bh1 = vb_length bh" by (simp add: bh1_def)
  have "vbh_addrow bh = Inr bh2"
    unfolding vbh_addrow_def row bh1_def [symmetric] Let_def l1 using arr1 [of n] len1 by (simp add: bh2_def)
  moreover have len2: "unat (vb_length bh2) = (n + 1) * 65536"
    using assms(2) n(5) unat_add_u32 [of "vb_length bh" ROW_WIDTH] by (simp add: bh2_def word_less_nat_alt)
  moreover have "rows_ok bh2"
  proof -
    have "page_ok bh2" using n(1) by (simp add: bh2_def bh1_def page_ok_def)
    moreover have "vb_array bh2 ! i \<noteq> None \<longleftrightarrow> i < n + 1" if "i < vb_rows bh1" for i
      using arr1 [OF that] alloc [of i] n len1 that by (cases "i = n") (auto simp: bh2_def)
    ultimately show ?thesis using len1 len2 n(3)
      by (auto simp: rows_ok_def bh2_def intro!: exI [of _ "n + 1"])
  qed
  moreover have "A_get bh2 m = A_get bh m" if "m < vb_length bh" for m
  proof (rule A_get_rows)
    have "row_of m < n" using that n(5) by (simp add: row_of_eq word_less_nat_alt less_mult_imp_div_less)
    then show "row_of m < length (vb_array bh)" "row_of m < length (vb_array bh2)"
      "vb_array bh2 ! row_of m = vb_array bh ! row_of m"
      using n len1 arr1 [of "row_of m"] by (auto simp: bh2_def)
  qed
  ultimately show ?thesis using n(5)
    by (intro exI [of _ bh2]) (simp add: word_less_nat_alt, simp add: bh2_def bh1_def)
qed

lemma shrink_ok:
  assumes "heap_inv get bh s" and "vb_next bh < 0xfffe0000"
  shows "\<exists>bh'. shrink bh = Inr bh' \<and> heap_inv get bh' s \<and> contents bh' = contents bh \<and> vb_next bh' = vb_next bh \<and>
    vb_cmp bh' = vb_cmp bh"
proof (cases "vb_next bh + 2 * ROW_WIDTH \<le> vb_length bh")
  case False
  then show ?thesis using assms(1) by (simp add: shrink_def)
next
  case True
  have rows: "rows_ok bh" using assms(1) by (simp add: heap_inv_def vbh_wf_def)
  obtain n where n: "page_ok bh" "length (vb_array bh) = vb_rows bh" "0 < n" "n \<le> vb_rows bh"
    "unat (vb_length bh) = n * 65536" and alloc: "\<And>i. i < vb_rows bh \<Longrightarrow> vb_array bh ! i \<noteq> None \<longleftrightarrow> i < n"
    using rows_okE [OF rows] by metis
  have nx: "unat (vb_next bh) + 131072 \<le> n * 65536"
    using True assms(2) n(5) unat_add_u32 [of "vb_next bh" "2 * ROW_WIDTH"]
    by (simp add: word_less_nat_alt word_le_nat_alt)
  have "unat (vb_length bh - 1) = n * 65536 - 1" using unat_sub_u32 [of 1 "vb_length bh"] n by simp
  then have row: "row_of (vb_length bh - 1) = n - 1" using n(3) by (cases n) (simp_all add: row_of_eq)
  define bh' where "bh' = bh\<lparr>vb_array := (vb_array bh)[n - 1 := None], vb_length := vb_length bh - ROW_WIDTH\<rparr>"
  have sh: "shrink bh = Inr bh'" using True row n by (simp add: shrink_def bh'_def)
  have len: "unat (vb_length bh') = (n - 1) * 65536"
    using unat_sub_u32 [of ROW_WIDTH "vb_length bh"] n by (simp add: bh'_def diff_mult_distrib)
  have "vb_array bh' ! i \<noteq> None \<longleftrightarrow> i < n - 1" if "i < vb_rows bh" for i
    using alloc [OF that] n that by (cases "i = n - 1") (auto simp: bh'_def)
  then have rows': "rows_ok bh'" using n nx len
    by (auto simp: rows_ok_def bh'_def page_ok_def intro!: exI [of _ "n - 1"])
  have cells: "A_get bh' m = A_get bh m" if "m < vb_next bh \<or> m = 1" for m
  proof (rule A_get_rows)
    have "unat m < (n - 1) * 65536" using that nx n(3) by (cases n) (auto simp: word_less_nat_alt)
    then have "row_of m < n - 1" by (simp add: row_of_eq less_mult_imp_div_less)
    then show "row_of m < length (vb_array bh)" "row_of m < length (vb_array bh')"
      "vb_array bh' ! row_of m = vb_array bh ! row_of m"
      using n by (auto simp: bh'_def)
  qed
  have "vb_next bh \<le> vb_length bh'" using nx len n(3) by (cases n) (auto simp: word_le_nat_alt)
  then show ?thesis
    using sh heap_inv_cells [OF assms(1) rows' _ _ _ _ _ cells] by (simp add: bh'_def)
qed

subsection \<open>Insertion\<close>

text \<open>Insertion when the array has room.\<close>

lemma insert_room:
  assumes inv: "heap_inv get bh s" and room: "vb_next bh < vb_length bh" and fresh: "x \<notin> contents bh"
  shows "\<exists>bh1 bh2 s2. A_set (bh\<lparr>vb_next := vb_next bh + 1\<rparr>) (vb_next bh) (Item x) = Inr bh1 \<and>
    vbh_update bh1 (vb_next bh) s = Inr (notify bh x (vb_next bh) s) \<and>
    (\<exists>v. vbh_trickleup bh1 (vb_next bh) (notify bh x (vb_next bh) s) = Inr (bh2, s2, v)) \<and>
    vb_next bh2 = vb_next bh + 1 \<and> vb_next bh \<in> used bh2 \<and>
    heap_inv get bh2 s2 \<and> contents bh2 = insert x (contents bh) \<and> vb_cmp bh2 = vb_cmp bh \<and>
    vb_cmp bh s2 = vb_cmp bh s"
proof -
  let ?u = "vb_next bh" and ?b = "bh\<lparr>vb_next := vb_next bh + 1\<rparr>" and ?s = "notify bh x (vb_next bh) s"
  have mv: "movable get bh s" using inv by (rule heap_inv_movable)
  have wf: "vbh_wf bh" and cb: "callbacks get bh" and tr: "tracks get bh s" and swo: "swo (vb_cmp bh s)"
    using mv by (simp_all add: movable_def)
  have rows: "rows_ok bh" and u1: "1 \<le> ?u" using wf by (simp_all add: vbh_wf_def)
  have unx: "unat (?u + 1) = unat ?u + 1"
    using room unat_u32_less [of "vb_length bh"] unat_add_u32 [of ?u 1] by (simp add: word_less_nat_alt)
  have less: "v < ?u + 1 \<longleftrightarrow> v < ?u \<or> v = ?u" for v
    using unx by (auto simp: word_less_nat_alt word_unat_eq_iff)
  obtain arr where arr: "A_set ?b ?u (Item x) = Inr (?b\<lparr>vb_array := arr\<rparr>)" "rows_ok (?b\<lparr>vb_array := arr\<rparr>)"
    "\<And>m. A_get (?b\<lparr>vb_array := arr\<rparr>) m = (if m = ?u then Inr (Item x) else A_get bh m)"
    using A_set_ok [of ?b ?u "Item x"] rows room by auto
  define b1 where "b1 = ?b\<lparr>vb_array := arr\<rparr>"
  have it: "item b1 = (item bh)(?u := x)" using item_upd [OF arr(3)] by (simp add: b1_def)
  have nb: "vb_next b1 = ?u + 1" "vb_length b1 = vb_length bh" "vb_cmp b1 = vb_cmp bh"
    "parent_idx b1 = parent_idx bh" "callbacks get b1" "notify b1 = notify bh"
    using cb by (simp_all add: b1_def notify_def fun_eq_iff)
  have used: "used b1 = insert ?u (used bh)" using u1 less by (auto simp: used_def nb)
  have A1: "A_get b1 m = (if m = ?u then Inr (Item x) else A_get bh m)" for m using arr(3) by (simp add: b1_def)
  have filled: "filled b1 v" if "v \<in> used b1" for v
    using that wf by (auto simp: used filled_def A1 vbh_wf_def)
  have le: "?u + 1 \<le> vb_length bh" using unx room by (simp add: word_le_nat_alt word_less_nat_alt)
  have n1: "?u + 1 \<noteq> 1" "1 \<le> ?u + 1" using unx u1 by (auto simp: word_unat_eq_iff word_le_nat_alt)
  have wf1: "vbh_wf b1"
    using arr(2) filled le n1 by (simp add: vbh_wf_def nb) (simp add: b1_def)
  have ni: "item bh v \<noteq> x" if "v \<in> used bh" for v using fresh that by (auto simp: contents_def)
  have tr1: "tracks get b1 ?s"
    using tr ni by (auto simp: tracks_def used it notify_laws [OF cb] used_iff)
  have mv1: "movable get b1 ?s"
    using wf1 tr1 swo nb by (simp add: movable_def notify_laws [OF cb])
  have pg: "page_ok bh" using rows by (simp add: rows_ok_def)
  have hp: "heap_order (parent_idx bh) (vb_cmp bh s) (item bh) ?u" using inv by (simp add: heap_inv_def)
  have "up_order (parent_idx b1) (vb_cmp b1 ?s) (item b1) (vb_next b1) ?u"
    unfolding up_order_def bridged_def
  proof (intro conjI allI impI; elim conjE)
    fix v assume v: "1 < v" "v < vb_next b1" "v \<noteq> ?u"
    then have vu: "v < ?u" by (simp add: nb less)
    have "parent_idx bh v < v" using pages.par_less [OF pg v(1)] by simp
    then have "parent_idx bh v \<noteq> ?u" using vu by auto
    then show "\<not> vb_cmp b1 ?s (item b1 v) (item b1 (parent_idx b1 v))"
      using hp v vu by (simp add: heap_order_def nb it notify_laws [OF cb])
  next
    fix v assume "1 < v" "v < vb_next b1" "parent_idx b1 v = ?u"
    then show "\<not> vb_cmp b1 ?s (item b1 v) (item b1 (parent_idx b1 ?u))"
      using pages.par_less [OF pg, of v] by (auto simp: nb less)
  qed
  from trickleup_heap [OF mv1 _ this] obtain b2 s2 v where
    tl: "trickleup_loop b1 ?u ?s = Inr (b2, s2, v)" and m2: "moved get b1 ?s b2 s2"
    and hp2: "heap_order (parent_idx b1) (vb_cmp b1 ?s) (item b2) (vb_next b1)"
    by (auto simp: okR_def used)
  have uu: "?u \<in> used b1" by (simp add: used)
  have "vbh_trickleup b1 ?u ?s = Inr (b2, s2, v)"
    using tl uu A_item_used [OF wf1 uu] by (simp add: vbh_trickleup_def used_iff)
  moreover have "vbh_update b1 ?u s = Inr ?s" using vbh_update_eq [OF wf1 uu] by (simp add: it nb)
  moreover have "contents b1 = insert x (contents bh)"
    by (auto simp: contents_def used it used_iff)
  ultimately show ?thesis
    using arr(1) moved_heap_inv [OF mv1 m2 hp2] moved_frame [OF m2] moved_cmp [OF m2] uu nb(1,3)
    by (auto simp: b1_def [symmetric] notify_laws [OF cb])
qed

lemma insert_heap:
  assumes inv: "heap_inv get bh s" and fresh: "x \<notin> contents bh" and max: "vb_next bh < MAX_LENGTH"
  shows "\<exists>bh' s'. VBH_insert bh x s = Inr (bh', s') \<and> heap_inv get bh' s' \<and>
    contents bh' = insert x (contents bh) \<and> vb_next bh' = vb_next bh + 1 \<and> vb_cmp bh' = vb_cmp bh \<and>
    vb_cmp bh s' = vb_cmp bh s"
proof -
  have wf: "vbh_wf bh" using inv by (simp add: heap_inv_def)
  have "\<exists>bh0. (if vb_length bh = vb_next bh then vbh_addrow bh else Inr bh) = Inr bh0 \<and> heap_inv get bh0 s \<and>
      contents bh0 = contents bh \<and> vb_next bh0 = vb_next bh \<and> vb_next bh0 < vb_length bh0 \<and> vb_cmp bh0 = vb_cmp bh"
  proof (cases "vb_length bh = vb_next bh")
    case True
    obtain bh0 where b: "vbh_addrow bh = Inr bh0" "rows_ok bh0" "vb_length bh < vb_length bh0"
      "vb_next bh0 = vb_next bh" "vb_cmp bh0 = vb_cmp bh" "vb_update bh0 = vb_update bh"
      "parent_idx bh0 = parent_idx bh" "\<And>m. m < vb_length bh \<Longrightarrow> A_get bh0 m = A_get bh m"
      using addrow_ok [of bh] wf max True by (auto simp: vbh_wf_def)
    obtain n where "0 < n" "unat (vb_length bh) = n * 65536"
      using wf unfolding vbh_wf_def by (auto elim!: rows_okE)
    then have one: "1 < vb_length bh" by (simp add: word_less_nat_alt)
    then have cells: "A_get bh0 m = A_get bh m" if "m < vb_next bh \<or> m = 1" for m using b(8) that True by auto
    have "vb_next bh \<le> vb_length bh0" using b(3) True by simp
    from heap_inv_cells [OF inv b(2,4) this b(5-7) cells] show ?thesis using b True by auto
  next
    case False
    then show ?thesis using inv wf by (auto simp: vbh_wf_def order_less_le)
  qed
  then obtain bh0 where b0: "(if vb_length bh = vb_next bh then vbh_addrow bh else Inr bh) = Inr bh0"
    "heap_inv get bh0 s" "contents bh0 = contents bh" "vb_next bh0 = vb_next bh" "vb_next bh0 < vb_length bh0"
    "vb_cmp bh0 = vb_cmp bh" by blast
  obtain b1 b2 s2 v where st: "A_set (bh0\<lparr>vb_next := vb_next bh0 + 1\<rparr>) (vb_next bh0) (Item x) = Inr b1"
    "vbh_update b1 (vb_next bh0) s = Inr (notify bh0 x (vb_next bh0) s)"
    "vbh_trickleup b1 (vb_next bh0) (notify bh0 x (vb_next bh0) s) = Inr (b2, s2, v)"
    "vb_next b2 = vb_next bh0 + 1" "vb_next bh0 \<in> used b2"
    "heap_inv get b2 s2" "contents b2 = insert x (contents bh0)" "vb_cmp b2 = vb_cmp bh0"
    "vb_cmp bh0 s2 = vb_cmp bh0 s"
    using insert_room [OF b0(2,5), of x] fresh b0(3) by auto
  have "A_item b2 (vb_next bh0) = Inr (item b2 (vb_next bh0))"
    using A_item_used [OF _ st(5)] st(6) by (simp add: heap_inv_def)
  moreover have "vb_next bh0 < vb_next b2" using st(5) by (simp add: used_iff)
  moreover have "vb_next bh \<le> vb_length bh" using wf by (simp add: vbh_wf_def)
  ultimately have "VBH_insert bh x s = Inr (b2, s2)"
    using st b0(5) unfolding VBH_insert_def b0(1) by (simp add: Let_def)
  then show ?thesis using st b0 by auto
qed

subsection \<open>Deletion and reordering\<close>

lemma contents_remove:
  assumes "tracks get bh s" and "u \<in> used bh" and "x = item bh u"
  shows "contents bh - {x} = item bh ` (used bh - {u})"
  using inj_on_image_set_diff [OF tracks_inj [OF assms(1)], of "used bh" "{u}"] assms by (auto simp: contents_def)

text \<open>The facts about a heap with an item at \<open>u\<close> and the number of items reduced by one.\<close>

lemma delete_facts:
  assumes "heap_inv get bh s" and "u \<in> used bh" and "n = vb_next bh - 1"
  shows "n \<in> used bh" "\<And>v. v < n \<longleftrightarrow> v < vb_next bh \<and> v \<noteq> n" "used (bh\<lparr>vb_next := n\<rparr>) = used bh - {n}"
    "1 < vb_next bh" "0 < u"
proof -
  have unx: "unat n = unat (vb_next bh) - 1" "1 < unat (vb_next bh)"
    using assms(2,3) unat_sub_u32 [of 1 "vb_next bh"] by (auto simp: used_iff word_less_nat_alt word_le_nat_alt)
  show less: "v < n \<longleftrightarrow> v < vb_next bh \<and> v \<noteq> n" for v
    using unx by (auto simp: word_less_nat_alt word_unat_eq_iff)
  show "n \<in> used bh" "1 < vb_next bh" using unx by (simp_all add: used_iff word_less_nat_alt word_le_nat_alt)
  show "used (bh\<lparr>vb_next := n\<rparr>) = used bh - {n}" using less by (auto simp: used_def)
  show "0 < u" using assms(2) by (simp add: used_iff word_less_nat_alt word_le_nat_alt)
qed

lemma delete_replace_eq:
  assumes inv: "heap_inv get bh s" and u: "u \<in> used bh" and n: "n = vb_next bh - 1"
  shows "delete_replace bh u s = (let b = bh\<lparr>vb_next := n\<rparr>; s = notify bh (item bh u) 0 s in
     if u = n then bindR (A_set b n Null) (\<lambda>bh. Inr (True, bh, s))
     else bindR (A_set b u (Item (item bh n))) (\<lambda>bh. bindR (A_set bh (vb_next bh) Null) (\<lambda>bh.
       bindR (vbh_update bh u s) (\<lambda>s. Inr (False, bh, s)))))"
proof -
  note f = delete_facts [OF assms]
  have wf: "vbh_wf bh" using inv by (simp add: heap_inv_def)
  obtain g where g: "vb_update bh = Some g" using inv by (auto simp: heap_inv_def callbacks_def)
  show ?thesis using u f(4,5) g A_item_used [OF wf u] A_item_used [OF wf f(1)]
    by (simp add: delete_replace_def used_iff notify_def n Let_def)
qed

lemma delete_tail:
  assumes inv: "heap_inv get bh s" and u: "u \<in> used bh" and n: "n = vb_next bh - 1" and "u = n"
  shows "\<exists>bh1 s1. delete_replace bh u s = Inr (True, bh1, s1) \<and> vb_next bh1 = n \<and>
    contents bh1 = contents bh - {item bh u} \<and> heap_inv get bh1 s1 \<and> vb_cmp bh1 = vb_cmp bh \<and> vb_cmp bh s1 = vb_cmp bh s"
proof -
  note f = delete_facts [OF inv u n]
  let ?b = "bh\<lparr>vb_next := n\<rparr>" and ?s = "notify bh (item bh u) 0 s"
  have wf: "vbh_wf bh" and cb: "callbacks get bh" and tr: "tracks get bh s" and swo: "swo (vb_cmp bh s)"
    and hp: "heap_order (parent_idx bh) (vb_cmp bh s) (item bh) (vb_next bh)"
    using inv by (simp_all add: heap_inv_def)
  have rows: "rows_ok ?b" "n < vb_length ?b" using wf used_length [OF wf f(1)] by (simp_all add: vbh_wf_def)
  obtain arr where arr: "A_set ?b n Null = Inr (?b\<lparr>vb_array := arr\<rparr>)" "rows_ok (?b\<lparr>vb_array := arr\<rparr>)"
    "\<And>m. A_get (?b\<lparr>vb_array := arr\<rparr>) m = (if m = n then Inr Null else A_get bh m)"
    using A_set_ok [OF rows, of Null] by auto
  define b1 where "b1 = ?b\<lparr>vb_array := arr\<rparr>"
  have A1: "A_get b1 m = (if m = n then Inr Null else A_get bh m)" for m using arr(3) by (simp add: b1_def)
  have nb: "vb_next b1 = n" "vb_cmp b1 = vb_cmp bh" "parent_idx b1 = parent_idx bh" "callbacks get b1"
    "used b1 = used bh - {n}" "vb_length b1 = vb_length bh"
    using cb f(3) by (simp_all add: b1_def)
  have it: "item b1 v = item bh v" and fl: "filled b1 v = filled bh v" if "v \<noteq> n" for v
    using that by (simp_all add: item_def filled_def A1)
  have "n \<le> vb_length bh" using rows(2) by simp
  then have "vbh_wf b1"
    using wf f(1) arr(2) fl A1 by (auto simp: vbh_wf_def nb used_iff) (auto simp: b1_def)
  moreover have "tracks get b1 ?s"
    using tr it tracks_inj [OF tr] u \<open>u = n\<close> by (auto simp: tracks_def nb notify_laws [OF cb] dest: inj_onD)
  moreover have "heap_order (parent_idx bh) (vb_cmp bh s) (item b1) n"
    unfolding heap_order_def
  proof (intro allI impI, elim conjE)
    fix v assume v: "1 < v" "v < n"
    have "parent_idx bh v < v" using pages.par_less [of bh v] v wf by (simp add: vbh_wf_def rows_ok_def)
    then have "parent_idx bh v \<noteq> n" "v \<noteq> n" "v < vb_next bh" using v f(2) [of v] by auto
    then show "\<not> vb_cmp bh s (item b1 v) (item b1 (parent_idx bh v))"
      using hp v(1) it by (simp add: heap_order_def)
  qed
  ultimately have "heap_inv get b1 ?s" using swo by (simp add: heap_inv_def nb notify_laws [OF cb])
  moreover have "contents b1 = contents bh - {item bh u}"
    using contents_remove [OF tr u refl] \<open>u = n\<close> it by (auto simp: contents_def nb)
  ultimately show ?thesis using delete_replace_eq [OF inv u n] \<open>u = n\<close> arr(1) nb(1)
    by (simp add: b1_def notify_laws [OF cb])
qed

lemma at_order_replaced:
  assumes "page_ok bh" and "swo lt" and hp: "heap_order (parent_idx bh) lt h k" and "n \<le> k" and "u < n"
    and same: "\<And>v. v < n \<Longrightarrow> v \<noteq> u \<Longrightarrow> h' v = h v"
  shows "at_order (parent_idx bh) lt h' n u"
  unfolding at_order_def bridged_def
proof (intro conjI allI impI; elim conjE)
  fix v assume v: "1 < v" "v < n" "v \<noteq> u" "parent_idx bh v \<noteq> u"
  have "parent_idx bh v < n" using pages.par_less [OF assms(1) v(1)] v by auto
  then show "\<not> lt (h' v) (h' (parent_idx bh v))" using hp v same assms(4) by (auto simp: heap_order_def)
next
  fix v assume u: "1 < u" and v: "1 < v" "v < n" "parent_idx bh v = u"
  have p: "parent_idx bh u < u" "u < v" using pages.par_less [OF assms(1)] u v by auto
  have "\<not> lt (h v) (h u)" "\<not> lt (h u) (h (parent_idx bh u))"
    using hp u v assms(4,5) by (auto simp: heap_order_def)
  then have "\<not> lt (h v) (h (parent_idx bh u))" by (rule swo_neg_trans [OF assms(2)])
  moreover have "h' v = h v" "h' (parent_idx bh u) = h (parent_idx bh u)" using same p v assms(5) by auto
  ultimately show "\<not> lt (h' v) (h' (parent_idx bh u))" by simp
qed

lemma delete_middle:
  assumes inv: "heap_inv get bh s" and u: "u \<in> used bh" and n: "n = vb_next bh - 1" and "u \<noteq> n"
  shows "\<exists>bh1 s1. delete_replace bh u s = Inr (False, bh1, s1) \<and> vb_next bh1 = n \<and>
    contents bh1 = contents bh - {item bh u} \<and> vb_cmp bh1 = vb_cmp bh \<and> vb_cmp bh s1 = vb_cmp bh s \<and>
    movable get bh1 s1 \<and> u \<in> used bh1 \<and>
    at_order (parent_idx bh1) (vb_cmp bh1 s1) (item bh1) (vb_next bh1) u"
proof -
  note f = delete_facts [OF inv u n]
  let ?b = "bh\<lparr>vb_next := n\<rparr>" and ?y = "item bh n" and ?s = "notify bh (item bh u) 0 s"
  let ?s1 = "notify bh ?y u ?s"
  have wf: "vbh_wf bh" and cb: "callbacks get bh" and tr: "tracks get bh s" and swo: "swo (vb_cmp bh s)"
    and hp: "heap_order (parent_idx bh) (vb_cmp bh s) (item bh) (vb_next bh)"
    using inv by (simp_all add: heap_inv_def)
  have rows: "rows_ok ?b" "u < vb_length ?b" "n < vb_length bh"
    using wf used_length [OF wf u] used_length [OF wf f(1)] by (simp_all add: vbh_wf_def)
  obtain a1 where a1: "A_set ?b u (Item ?y) = Inr (?b\<lparr>vb_array := a1\<rparr>)" "rows_ok (?b\<lparr>vb_array := a1\<rparr>)"
    "\<And>m. A_get (?b\<lparr>vb_array := a1\<rparr>) m = (if m = u then Inr (Item ?y) else A_get bh m)"
    using A_set_ok [OF rows(1,2), of "Item ?y"] by auto
  obtain a2 where a2: "A_set (?b\<lparr>vb_array := a1\<rparr>) n Null = Inr (?b\<lparr>vb_array := a2\<rparr>)" "rows_ok (?b\<lparr>vb_array := a2\<rparr>)"
    "\<And>m. A_get (?b\<lparr>vb_array := a2\<rparr>) m = (if m = n then Inr Null else A_get (?b\<lparr>vb_array := a1\<rparr>) m)"
    using A_set_ok [OF a1(2), of n Null] rows(3) by auto
  define b1 where "b1 = ?b\<lparr>vb_array := a2\<rparr>"
  have A1: "A_get b1 m = (if m = n then Inr Null else if m = u then Inr (Item ?y) else A_get bh m)" for m
    using a1(3) a2(3) by (simp add: b1_def)
  have nb: "vb_next b1 = n" "vb_cmp b1 = vb_cmp bh" "parent_idx b1 = parent_idx bh" "callbacks get b1"
    "used b1 = used bh - {n}" "vb_length b1 = vb_length bh" "notify b1 = notify bh"
    using cb f(3) by (simp_all add: b1_def notify_def fun_eq_iff)
  have it: "item b1 v = (if v = u then ?y else item bh v)" if "v \<noteq> n" for v
    using that by (simp add: item_def A1)
  have fl: "filled b1 v" if "v \<in> used b1" for v
    using that wf by (auto simp: filled_def A1 nb vbh_wf_def)
  have u1: "u \<in> used b1" "u < n" "1 \<le> n" "n \<noteq> 1"
    using u f(1) f(2) [of u] \<open>u \<noteq> n\<close> by (auto simp: nb used_iff)
  have wf1: "vbh_wf b1"
    using a2(2) fl u1 rows(3) by (simp add: vbh_wf_def nb) (simp add: b1_def)
  have ne: "item bh v \<noteq> item bh w" if "v \<in> used bh" "w \<in> used bh" "v \<noteq> w" for v w
    using tracks_inj [OF tr] that by (auto dest: inj_onD)
  have "tracks get b1 ?s1"
    using tr u f(1) ne by (auto simp: tracks_def nb it notify_laws [OF cb])
  then have "movable get b1 ?s1" using wf1 swo by (simp add: movable_def nb notify_laws [OF cb])
  moreover have "at_order (parent_idx b1) (vb_cmp b1 ?s1) (item b1) (vb_next b1) u"
    using at_order_replaced [of bh, OF _ swo hp, of n u "item b1"] wf f(1) u1 it
    by (auto simp: nb notify_laws [OF cb] vbh_wf_def rows_ok_def used_iff)
  moreover have "contents b1 = contents bh - {item bh u}"
    unfolding contents_remove [OF tr u refl] using u f(1) \<open>u \<noteq> n\<close> by (force simp: contents_def nb it)
  moreover have "vbh_update b1 u ?s = Inr ?s1"
    using vbh_update_eq [OF wf1 u1(1)] it \<open>u \<noteq> n\<close> by (simp add: nb)
  ultimately show ?thesis
    using delete_replace_eq [OF inv u n] \<open>u \<noteq> n\<close> a1(1) a2(1) u1(1) nb(1,2)
    by (auto simp: b1_def [symmetric] notify_laws [OF cb])
qed

lemma delete_heap:
  assumes inv: "heap_inv get bh s" and x: "x \<in> contents bh" and "vb_next bh < 0xfffe0000"
  shows "\<exists>bh' s'. VBH_delete bh (get s x) s = Some (Inr (bh', s')) \<and> heap_inv get bh' s' \<and>
    contents bh' = contents bh - {x} \<and> vb_next bh' = vb_next bh - 1 \<and> vb_cmp bh' = vb_cmp bh \<and>
    vb_cmp bh s' = vb_cmp bh s"
proof -
  obtain u where u: "u \<in> used bh" "x = item bh u" "get s x = u"
    using x inv by (auto simp: contents_def heap_inv_def tracks_def)
  define n where "n = vb_next bh - 1"
  show ?thesis
  proof (cases "u = n")
    case True
    then show ?thesis using delete_tail [OF inv u(1) n_def] u by (auto simp: VBH_delete_def n_def)
  next
    case False
    obtain b1 s1 where d: "delete_replace bh u s = Inr (False, b1, s1)" "vb_next b1 = n"
      "contents b1 = contents bh - {x}" "movable get b1 s1" "u \<in> used b1"
      "at_order (parent_idx b1) (vb_cmp b1 s1) (item b1) (vb_next b1) u" "vb_cmp b1 = vb_cmp bh" "vb_cmp bh s1 = vb_cmp bh s"
      using delete_middle [OF inv u(1) n_def False] u(2) by blast
    obtain b2 s2 v where t: "trickle b1 u s1 = Some (Inr (b2, s2, v))" "moved get b1 s1 b2 s2"
      "heap_order (parent_idx b1) (vb_cmp b1 s1) (item b2) (vb_next b1)"
      using trickle_heap [OF d(4-6)] by blast
    have inv2: "heap_inv get b2 s2" by (rule moved_heap_inv [OF d(4) t(2,3)])
    have "vb_next b2 = n" using moved_frame(3) [OF t(2)] d(2) by simp
    moreover have "n < 0xfffe0000"
      using assms(3) delete_facts(2) [OF inv u(1) n_def, of 0] delete_facts(1) [OF inv u(1) n_def]
      by (auto simp: used_iff)
    ultimately obtain b3 where "shrink b2 = Inr b3" "heap_inv get b3 s2" "contents b3 = contents b2" "vb_next b3 = n" "vb_cmp b3 = vb_cmp b2"
      using shrink_ok [OF inv2] by auto
    then show ?thesis using d t u moved_frame(4,9) [OF t(2)] moved_cmp [OF t(2)]
      by (auto simp: VBH_delete_def n_def)
  qed
qed

lemma reorder_heap:
  assumes inv: "heap_inv get bh s0" and x: "x \<in> contents bh" and tr: "tracks get bh s" and swo: "swo (vb_cmp bh s)"
    and key: "\<And>a b. a \<noteq> x \<Longrightarrow> b \<noteq> x \<Longrightarrow> vb_cmp bh s a b = vb_cmp bh s0 a b"
  shows "\<exists>bh' s'. VBH_reorder bh (get s x) s = Some (Inr (bh', s')) \<and> heap_inv get bh' s' \<and> contents bh' = contents bh"
proof -
  obtain u where u: "u \<in> used bh" "x = item bh u" "get s x = u"
    using x tr by (auto simp: contents_def tracks_def)
  have wf: "vbh_wf bh" and cb: "callbacks get bh" and swo0: "swo (vb_cmp bh s0)"
    and hp: "heap_order (parent_idx bh) (vb_cmp bh s0) (item bh) (vb_next bh)"
    using inv by (simp_all add: heap_inv_def)
  have mv: "movable get bh s" using wf cb tr swo by (simp add: movable_def)
  note pg = movable_page [OF mv]
  have ne: "item bh v \<noteq> x" if "v \<in> used bh" "v \<noteq> u" for v
    using tracks_inj [OF tr] that u by (auto dest: inj_onD)
  have at0: "at_order (parent_idx bh) (vb_cmp bh s0) (item bh) (vb_next bh) u"
    using at_order_replaced [OF pg swo0 hp order_refl, of u "item bh"] u by (simp add: used_iff)
  have par: "parent_idx bh v \<in> used bh \<and> parent_idx bh v \<noteq> v" if "1 < v" "v < vb_next bh" for v
    using pages.par_less [OF pg that(1)] that(2) by (auto simp: used_iff)
  have "at_order (parent_idx bh) (vb_cmp bh s) (item bh) (vb_next bh) u"
    unfolding at_order_def bridged_def
  proof (intro conjI allI impI; elim conjE)
    fix v assume v: "1 < v" "v < vb_next bh" "v \<noteq> u" "parent_idx bh v \<noteq> u"
    then show "\<not> vb_cmp bh s (item bh v) (item bh (parent_idx bh v))"
      using at0 key [OF ne ne, of v "parent_idx bh v"] less_imp_le [OF v(1)] par [OF v(1,2)] by (auto simp: at_order_def used_iff)
  next
    fix v assume u1: "1 < u" and v: "1 < v" "v < vb_next bh" "parent_idx bh v = u"
    then show "\<not> vb_cmp bh s (item bh v) (item bh (parent_idx bh u))"
      using at0 key [OF ne ne, of v "parent_idx bh u"] less_imp_le [OF v(1)] par [OF v(1,2)] par [OF u1] u(1)
      by (auto simp: at_order_def bridged_def used_iff)
  qed
  from trickle_heap [OF mv u(1) this] obtain b2 s2 v where t: "trickle bh u s = Some (Inr (b2, s2, v))"
    "moved get bh s b2 s2" "heap_order (parent_idx bh) (vb_cmp bh s) (item b2) (vb_next bh)" by blast
  have "1 < vb_next bh" using u(1) by (auto simp: used_iff)
  then show ?thesis
    using t u idx_asserts_ok [OF wf u(1), of "()"] moved_heap_inv [OF mv t(2,3)] moved_frame(9) [OF t(2)]
    by (auto simp: VBH_reorder_def)
qed

subsection \<open>Creation and the root\<close>

lemma page_shift_loop_eq: "u \<le> k \<Longrightarrow> k < 32 \<Longrightarrow> page_shift_loop (2 ^ k) u = Inr k"
proof (induction "k - u" arbitrary: u)
  case 0
  then show ?case by (subst page_shift_loop.simps) (simp add: push_bit_eq_mult)
next
  case (Suc d)
  have "(push_bit u 1 :: u32) \<noteq> 2 ^ k"
  proof
    assume "push_bit u 1 = (2 ^ k :: u32)"
    then have "unat (2 ^ u :: u32) = unat (2 ^ k :: u32)" by (simp add: push_bit_eq_mult)
    then show False using Suc.hyps(2) Suc.prems unat_pow_u32 [of u] unat_pow_u32 [of k] by simp
  qed
  then show ?case using Suc by (subst page_shift_loop.simps) simp
qed

lemma new_heap:
  assumes "2 \<le> k" and "k \<le> 19" and swo: "swo (cmp_f s)"
    and cb: "\<And>x u s y. get (f x u s) y = (if y = x then u else get s y)" "\<And>x u s. cmp_f (f x u s) = cmp_f s"
  shows "\<exists>bh. VBH_new (8 * 2 ^ k) cmp_f (Some f) = Inr bh \<and> heap_inv get bh s \<and> contents bh = {} \<and>
    vb_next bh = 1 \<and> vb_cmp bh = cmp_f"
proof -
  have pk: "unat (2 ^ k :: u32) = 2 ^ k" using unat_pow_u32 [of k] assms(2) by simp
  have k19: "(2 :: nat) ^ k \<le> 2 ^ 19" using assms(2) by (intro power_increasing) simp_all
  then have "unat (8 * 2 ^ k :: u32) = 8 * 2 ^ k" using pk by (simp add: unat_word_ariths)
  then have ps: "(8 * 2 ^ k :: u32) div 8 = 2 ^ k" using pk by (simp add: word_unat_eq_iff unat_div)
  have mk: "(2 ^ k :: u32) - 1 = mask k" by (simp add: mask_eq_exp_minus_1)
  have am: "(2 ^ k :: u32) AND mask k = 0" by (rule bit_word_eqI) (auto simp: bit_simps)
  have le: "(2 ^ k :: u32) \<le> 524288" using pk k19 by (simp add: word_le_nat_alt)
  define b0 where "b0 = \<lparr>vb_cmp = cmp_f, vb_update = Some f, vb_array = replicate 16 None, vb_rows = 16,
    vb_length = 0, vb_next = 1, vb_page_size = 2 ^ k, vb_page_mask = mask k, vb_page_shift = k\<rparr>"
  define b1 where "b1 = b0\<lparr>vb_array := (replicate 16 None)[0 := Some (\<lambda>_. Uninit)], vb_length := ROW_WIDTH\<rparr>"
  have add: "vbh_addrow b0 = Inr b1" by (simp add: vbh_addrow_def row_of_eq b0_def b1_def)
  have rows: "rows_ok b1"
    using assms(1,2) by (auto simp: rows_ok_def page_ok_def b1_def b0_def nth_list_update intro!: exI [of _ 1])
  obtain arr where arr: "A_set b1 1 Null = Inr (b1\<lparr>vb_array := arr\<rparr>)" "rows_ok (b1\<lparr>vb_array := arr\<rparr>)"
    "A_get (b1\<lparr>vb_array := arr\<rparr>) 1 = Inr Null"
    using A_set_ok [OF rows, of 1 Null] by (auto simp: b1_def b0_def)
  define b where "b = b1\<lparr>vb_array := arr\<rparr>"
  have nb: "vb_next b = 1" "vb_length b = ROW_WIDTH" "vb_cmp b = cmp_f" "vb_update b = Some f"
    by (simp_all add: b_def b1_def b0_def)
  have used: "used b = {}" by (auto simp: used_def nb)
  have "VBH_new (8 * 2 ^ k) cmp_f (Some f) = Inr b"
    using page_shift_loop_eq [of 1 k] assms(1,2) add arr(1)
    by (simp add: VBH_new_def Let_def ps mk am le b0_def [symmetric] b_def)
  moreover have "callbacks get b" using cb by (auto simp: callbacks_def nb)
  moreover have "vbh_wf b" using arr by (simp add: vbh_wf_def used nb) (simp add: b_def)
  moreover have "tracks get b s" by (simp add: tracks_def used)
  moreover have "heap_order (parent_idx b) (vb_cmp b s) (item b) (vb_next b)" by (auto simp: heap_order_def nb)
  ultimately show ?thesis using swo nb used by (auto simp: heap_inv_def contents_def)
qed

lemma root_contents:
  assumes inv: "heap_inv get bh s"
  shows "\<exists>c. VBH_root bh = Inr c \<and> c \<noteq> Uninit \<and> (c = Null \<longleftrightarrow> contents bh = {}) \<and>
    (\<forall>x. c = Item x \<longrightarrow> x \<in> contents bh \<and> (\<forall>y\<in>contents bh. \<not> vb_cmp bh s y x))"
proof (cases "vb_next bh = 1")
  case True
  then have "used bh = {}" by (auto simp: used_def)
  then show ?thesis using inv True by (simp add: heap_inv_def vbh_wf_def VBH_root_def contents_def)
next
  case False
  have wf: "vbh_wf bh" and swo: "swo (vb_cmp bh s)"
    and hp: "heap_order (parent_idx bh) (vb_cmp bh s) (item bh) (vb_next bh)" and pg: "page_ok bh"
    using inv by (simp_all add: heap_inv_def vbh_wf_def rows_ok_def)
  have u: "1 \<in> used bh" using wf False by (auto simp: used_iff vbh_wf_def order_less_le)
  have "\<not> vb_cmp bh s y (item bh 1)" if "y \<in> contents bh" for y
    using that pages.root_least [OF pg swo hp] by (auto simp: contents_def used_iff)
  then show ?thesis using A_item_used [OF wf u] u by (auto simp: VBH_root_def contents_def)
qed

end
