(* ===== verification/Vbh_Heap.thy ===== *)
theory Vbh_Heap
  imports Vbh_Ops
begin

text \<open>
  The properties of the binary heap \<open>lib/vbh.c\<close>: insertion, deletion and reordering end without a
  fault, keep \<open>heap_inv\<close> and have the expected items; the root is least; the children of an index
  are those whose parent it is; deletion without an update callback is undefined.
\<close>

subsection \<open>Properties\<close>

text \<open>
  The callbacks of the witnesses: items are numbers, the memory is the index of every number, and
  smaller numbers are closer to the root.
\<close>

definition nat_heap :: "(nat, nat \<Rightarrow> u32) vbh res" where
  "nat_heap = VBH_new 4096 (\<lambda>_ a b. a < b) (Some (\<lambda>x u s. s(x := u)))"

lemma swo_nat: "swo (\<lambda>a b. a < (b :: nat))"
  by (auto simp: swo_def)

lemma nat_heap_ok:
  "\<exists>bh. nat_heap = Inr bh \<and> heap_inv (\<lambda>s x. s x) bh (\<lambda>_. 0) \<and> contents bh = {} \<and> vb_next bh = 1 \<and>
    vb_cmp bh = (\<lambda>_ a b. a < b)"
  using new_heap [of 9 "\<lambda>_ a b. a < (b :: nat)" "\<lambda>_. 0" "\<lambda>s x. s x" "\<lambda>x u s. s(x := u)"] swo_nat
  by (auto simp: nat_heap_def)

text \<open>
  C29.  The page-aware index arithmetic describes a binary tree: on pages of four to 2^19 pointers,
  the indices that \<open>child\<close> gives for \<open>u\<close> are exactly those whose \<open>parent\<close> is \<open>u\<close>, and a parent
  has a smaller index, so that the assertions of the heap hold and its loops end.  Indices that do
  not fit into 32 bits are never confused with others.
\<close>

theorem parent_child_tree:
  assumes "page_ok bh" and "1 \<le> u" and "1 < v" and "v < UINT_MAX"
  shows "(parent bh v = Inr u \<longleftrightarrow> v = fst (child bh u) \<or> v = snd (child bh u)) \<and>
    (\<exists>p. parent bh v = Inr p \<and> 1 \<le> p \<and> p < v)"
proof -
  obtain a b where ch: "child bh u = (a, b)" by fastforce
  have "parent bh v = Inr (parent_idx bh v)" using assms(4) by (auto simp: parent_def)
  then show ?thesis
    using pages.kids_iff [OF assms(1,2) ch assms(3,4)] pages.par_less [OF assms(1,3)] ch by simp
qed

theorem parent_child_tree_witness:
  "\<exists>bh. nat_heap = Inr bh \<and> (parent bh 700 = Inr 350 \<longleftrightarrow> 700 = fst (child bh 350) \<or> 700 = snd (child bh 350)) \<and>
    (\<exists>p. parent bh 700 = Inr p \<and> 1 \<le> p \<and> p < 700)"
proof -
  obtain bh where bh: "nat_heap = Inr bh" "heap_inv (\<lambda>s x. s x) bh (\<lambda>_. 0)" using nat_heap_ok by blast
  have "page_ok bh" by (rule movable_page [OF heap_inv_movable [OF bh(2)]])
  from parent_child_tree [OF this, of 350 700] show ?thesis using bh(1) by (intro exI [of _ bh]) simp
qed

text \<open>
  C16.  Insertion of a new item ends without a fault and keeps the heap: the rows, the heap order,
  and the index that every item has been told by the update callback; the items are the old ones
  and the new one.  There is room for it unless the heap has 0xffff0000 - 1 items.
\<close>

theorem VBH_insert_heap:
  assumes "heap_inv get bh s" and "x \<notin> contents bh" and "vb_next bh < MAX_LENGTH"
  shows "\<exists>bh' s'. VBH_insert bh x s = Inr (bh', s') \<and> heap_inv get bh' s' \<and> contents bh' = insert x (contents bh)"
  using insert_heap [OF assms] by blast

theorem VBH_insert_heap_witness:
  "\<exists>bh bh' s'. nat_heap = Inr bh \<and> VBH_insert bh 7 (\<lambda>_. 0) = Inr (bh', s') \<and>
    heap_inv (\<lambda>s x. s x) bh' s' \<and> contents bh' = {7}"
proof -
  obtain bh where bh: "nat_heap = Inr bh" "heap_inv (\<lambda>s x. s x) bh (\<lambda>_. 0)" "contents bh = {}" "vb_next bh = 1"
    using nat_heap_ok by blast
  then show ?thesis using VBH_insert_heap [OF bh(2), of 7] by auto
qed

text \<open>
  C17.  Deletion by the index that an item has been told ends without a fault, also at the end of
  the loop of \<open>vbh_trickledown\<close>, keeps the heap, and removes exactly that item.
\<close>

theorem VBH_delete_heap:
  assumes "heap_inv get bh s" and "x \<in> contents bh" and "vb_next bh < 0xfffe0000"
  shows "\<exists>bh' s'. VBH_delete bh (get s x) s = Some (Inr (bh', s')) \<and> heap_inv get bh' s' \<and>
    contents bh' = contents bh - {x}"
  using delete_heap [OF assms] by blast

lemma nat_heap_three:
  "\<exists>bh s. heap_inv (\<lambda>s x. s x) bh s \<and> contents bh = {3, 5, 7 :: nat} \<and> vb_next bh = 4 \<and> vb_cmp bh = (\<lambda>_ a b. a < b)"
proof -
  obtain b0 where b0: "heap_inv (\<lambda>s x. s x) b0 (\<lambda>_. 0)" "contents b0 = ({} :: nat set)" "vb_next b0 = 1"
    "vb_cmp b0 = (\<lambda>_ a b. a < b)" using nat_heap_ok by blast
  obtain b1 s1 where b1: "heap_inv (\<lambda>s x. s x) b1 s1" "contents b1 = {7 :: nat}" "vb_next b1 = 2"
    "vb_cmp b1 = (\<lambda>_ a b. a < b)" using insert_heap [OF b0(1), of 7] b0(2-4) by auto
  obtain b2 s2 where b2: "heap_inv (\<lambda>s x. s x) b2 s2" "contents b2 = {3, 7 :: nat}" "vb_next b2 = 3"
    "vb_cmp b2 = (\<lambda>_ a b. a < b)" using insert_heap [OF b1(1), of 3] b1(2-4) by auto
  obtain b3 s3 where b3: "heap_inv (\<lambda>s x. s x) b3 s3" "contents b3 = {5, 3, 7 :: nat}" "vb_next b3 = 4"
    "vb_cmp b3 = (\<lambda>_ a b. a < b)" using insert_heap [OF b2(1), of 5] b2(2-4) by auto
  then show ?thesis by (intro exI [of _ b3] exI [of _ s3]) (simp add: insert_commute)
qed

theorem VBH_delete_heap_witness:
  "\<exists>bh s bh' s'. VBH_delete bh (s 5) s = Some (Inr (bh', s')) \<and> heap_inv (\<lambda>s x. s x) bh' s' \<and>
    contents bh' = {3, 7 :: nat}"
proof -
  obtain bh s where b: "heap_inv (\<lambda>s x. s x) bh s" "contents bh = {3, 5, 7 :: nat}" "vb_next bh = 4"
    using nat_heap_three by blast
  have "5 \<in> contents bh" "vb_next bh < 0xfffe0000" "contents bh - {5} = {3, 7}" using b by auto
  then show ?thesis using VBH_delete_heap [OF b(1), of 5] by metis
qed

text \<open>
  C18.  After the key of one item has changed and nothing else, reordering it by its index restores
  the heap with the same items.
\<close>

theorem VBH_reorder_heap:
  assumes "heap_inv get bh s0" and "x \<in> contents bh" and "tracks get bh s" and "swo (vb_cmp bh s)"
    and "\<And>a b. a \<noteq> x \<Longrightarrow> b \<noteq> x \<Longrightarrow> vb_cmp bh s a b = vb_cmp bh s0 a b"
  shows "\<exists>bh' s'. VBH_reorder bh (get s x) s = Some (Inr (bh', s')) \<and> heap_inv get bh' s' \<and>
    contents bh' = contents bh"
  by (rule reorder_heap [OF assms])

text \<open>In this witness the memory also has the key of every item.\<close>

theorem VBH_reorder_heap_witness:
  "\<exists>bh bh' s'. VBH_reorder bh 1 ((\<lambda>_. 1), (\<lambda>_. 2)(4 := 8)) = Some (Inr (bh', s')) \<and>
    heap_inv (\<lambda>(s :: (nat \<Rightarrow> u32) \<times> (nat \<Rightarrow> nat)) x. fst s x) bh' s' \<and> contents bh' = {4}"
proof -
  define cmp where "cmp = (\<lambda>(s :: (nat \<Rightarrow> u32) \<times> (nat \<Rightarrow> nat)) a b. snd s a < snd s b)"
  define upd where "upd = (\<lambda>x u (s :: (nat \<Rightarrow> u32) \<times> (nat \<Rightarrow> nat)). ((fst s)(x := u), snd s))"
  let ?s = "((\<lambda>_ :: nat. 1 :: u32), (\<lambda>_ :: nat. 2 :: nat))" and ?s' = "((\<lambda>_ :: nat. 1 :: u32), (\<lambda>_. 2 :: nat)(4 :: nat := 8))"
  have swo: "swo (cmp s)" for s by (auto simp: swo_def cmp_def)
  have "\<exists>bh. VBH_new (8 * 2 ^ 9) cmp (Some upd) = Inr bh \<and> heap_inv (\<lambda>s x. fst s x) bh ?s \<and> contents bh = {} \<and>
    vb_next bh = 1 \<and> vb_cmp bh = cmp"
    by (rule new_heap [OF _ _ swo]) (simp_all add: upd_def cmp_def)
  then obtain b0 where b0: "heap_inv (\<lambda>s x. fst s x) b0 ?s" "contents b0 = {}" "vb_next b0 = 1" "vb_cmp b0 = cmp"
    by blast
  obtain b1 s1 where b1: "heap_inv (\<lambda>s x. fst s x) b1 s1" "contents b1 = {4}" "vb_next b1 = 2" "vb_cmp b1 = cmp"
    "cmp s1 = cmp ?s" using insert_heap [OF b0(1), of 4] b0(2-4) by auto
  have us: "used b1 = {1}"
    using b1(3) by (auto simp: used_def word_less_nat_alt word_le_nat_alt word_unat_eq_iff)
  have it: "item b1 1 = 4" using b1(2) by (simp add: contents_def us)
  have key: "vb_cmp b1 ?s' a b = vb_cmp b1 s1 a b" if "a \<noteq> 4" "b \<noteq> 4" for a b
    using that unfolding b1(4,5) by (simp add: cmp_def)
  have tr: "tracks (\<lambda>s x. fst s x) b1 ?s'" by (simp add: tracks_def us)
  have x: "4 \<in> contents b1" and sw: "swo (vb_cmp b1 ?s')" by (simp_all only: b1(2,4) swo) simp
  show ?thesis
    by (rule exI [of _ b1]) (use VBH_reorder_heap [OF b1(1) x tr sw key] in \<open>simp add: b1(2)\<close>)
qed

text \<open>Taking the root and deleting it, as often as there are items.\<close>

fun drain :: "nat \<Rightarrow> ('a, 's) vbh \<Rightarrow> 's \<Rightarrow> 'a list option" where
  "drain 0 bh s = Some []"
| "drain (Suc n) bh s = (case VBH_root bh of
      Inr (Item x) \<Rightarrow> (case VBH_delete bh ROOT_IDX s of
          Some (Inr (bh', s')) \<Rightarrow> map_option (Cons x) (drain n bh' s')
        | _ \<Rightarrow> None)
    | _ \<Rightarrow> None)"

lemma drain_sorted:
  assumes "heap_inv get bh s" and "vb_next bh < 0xfffe0000" and "unat (vb_next bh) = Suc n"
  shows "\<exists>xs. drain n bh s = Some xs \<and> set xs = contents bh \<and> distinct xs \<and>
    sorted_wrt (\<lambda>a b. \<not> vb_cmp bh s b a) xs"
  using assms
proof (induction n arbitrary: bh s)
  case 0
  then have "used bh = {}" by (auto simp: used_def word_le_nat_alt word_less_nat_alt)
  then show ?case by (simp add: contents_def)
next
  case (Suc n)
  have wf: "vbh_wf bh" using Suc.prems(1) by (simp add: heap_inv_def)
  have u: "1 \<in> used bh" using Suc.prems(3) by (simp add: used_iff word_less_nat_alt)
  let ?x = "item bh 1"
  have root: "VBH_root bh = Inr (Item ?x)" using A_item_used [OF wf u] by (simp add: VBH_root_def)
  have x: "?x \<in> contents bh" "get s ?x = 1" using u Suc.prems(1) by (auto simp: contents_def heap_inv_def tracks_def)
  have least: "\<not> vb_cmp bh s y ?x" if "y \<in> contents bh" for y
    using root_contents [OF Suc.prems(1)] root that by auto
  obtain bh' s' where d: "VBH_delete bh 1 s = Some (Inr (bh', s'))" "heap_inv get bh' s'"
    "contents bh' = contents bh - {?x}" "vb_next bh' = vb_next bh - 1" "vb_cmp bh' = vb_cmp bh" "vb_cmp bh s' = vb_cmp bh s"
    using delete_heap [OF Suc.prems(1) x(1) Suc.prems(2)] x(2) by auto
  have n': "unat (vb_next bh') = Suc n" using Suc.prems(3) unat_sub_u32 [of 1 "vb_next bh"] d(4) by simp
  have "vb_next bh' < 0xfffe0000" using n' Suc.prems(2,3) by (simp add: word_less_nat_alt)
  from Suc.IH [OF d(2) this n'] obtain xs where "drain n bh' s' = Some xs" "set xs = contents bh - {?x}" "distinct xs"
    "sorted_wrt (\<lambda>a b. \<not> vb_cmp bh s b a) xs" using d(3,5,6) by auto
  then show ?case using root d(1) x(1) least by (auto intro!: exI [of _ "?x # xs"])
qed

text \<open>
  C7.  The heap is a priority queue: taking the root and deleting it until the heap is empty gives
  every item exactly once and in the order of the comparison function.
\<close>

theorem drain_priority_order:
  assumes "heap_inv get bh s" and "vb_next bh < 0xfffe0000"
  shows "\<exists>xs. drain (unat (vb_next bh) - 1) bh s = Some xs \<and> set xs = contents bh \<and> distinct xs \<and>
    sorted_wrt (\<lambda>a b. \<not> vb_cmp bh s b a) xs"
proof -
  have "1 \<le> vb_next bh" using assms(1) by (simp add: heap_inv_def vbh_wf_def)
  then have "unat (vb_next bh) = Suc (unat (vb_next bh) - 1)" by (simp add: word_le_nat_alt)
  from drain_sorted [OF assms this] show ?thesis .
qed

theorem drain_priority_order_witness:
  "\<exists>bh s. heap_inv (\<lambda>s x. s x) bh s \<and> contents bh = {3, 5, 7 :: nat} \<and>
    (\<exists>xs. drain 3 bh s = Some xs \<and> set xs = {3, 5, 7} \<and> distinct xs \<and> sorted_wrt (\<lambda>a b. \<not> b < a) xs)"
proof -
  obtain bh s where b: "heap_inv (\<lambda>s x. s x) bh s" "contents bh = {3, 5, 7 :: nat}" "vb_next bh = 4"
    "vb_cmp bh = (\<lambda>_ a b. a < b)" using nat_heap_three by blast
  show ?thesis
    by (rule exI [of _ bh], rule exI [of _ s]) (use b drain_priority_order [OF b(1)] in simp)
qed

text \<open>
  Deletion from a heap that was created without an update callback, which is documented to be
  optional, calls a NULL function pointer, whatever the index of the item is.
\<close>

theorem VBH_delete_needs_update:
  assumes "vbh_wf bh" and "vb_update bh = None" and "u \<in> used bh"
  shows "VBH_delete bh u s = Some (Inl Undefined)"
proof -
  have "1 < vb_next bh" "0 < u" using assms(3) by (auto simp: used_iff word_less_nat_alt word_le_nat_alt)
  then show ?thesis using A_item_used [OF assms(1,3)] assms(2,3)
    by (simp add: VBH_delete_def delete_replace_def used_iff)
qed

theorem VBH_delete_needs_update_witness:
  "\<exists>bh s. vb_update bh = None \<and> contents bh = {3, 5, 7 :: nat} \<and>
    VBH_delete bh 1 (s :: nat \<Rightarrow> u32) = Some (Inl Undefined)"
proof -
  obtain b s where b: "heap_inv (\<lambda>s x. s x) b s" "contents b = {3, 5, 7 :: nat}" "vb_next b = 4"
    using nat_heap_three by blast
  define bh where "bh = b\<lparr>vb_update := None\<rparr>"
  have get: "A_get bh = A_get b" and us: "used bh = used b" by (simp_all add: bh_def fun_eq_iff A_get_def used_def)
  then have it: "item bh = item b" "filled bh = filled b" by (simp_all add: fun_eq_iff item_def filled_def)
  have "vbh_wf bh"
    using b(1) get us it by (simp add: heap_inv_def vbh_wf_def) (simp add: bh_def rows_ok_def page_ok_def)
  moreover have "vb_update bh = None" "1 \<in> used bh" using b(3) us by (simp_all add: bh_def used_iff)
  ultimately have "VBH_delete bh 1 s = Some (Inl Undefined)" by (rule VBH_delete_needs_update)
  moreover have "contents bh = {3, 5, 7}" using b(2) by (simp add: contents_def it us)
  ultimately show ?thesis by (intro exI [of _ bh] exI [of _ s]) (simp add: bh_def)
qed

end
