(* ===== verification/Vct.thy ===== *)
theory Vct
  imports VTest_Prelude
begin

text \<open>
  Character classes and case-insensitive comparison, \<open>lib/vct.h\<close> and \<open>lib/vct.c\<close>.  The tables
  are those of the source; the classes that other parts use are characterised by ranges, and
  \<open>vct_casecmp\<close> is the comparison of the strings in lower case.
\<close>

subsection \<open>Tables\<close>

abbreviation (input) VCT_OWS :: u16 where "VCT_OWS \<equiv> 0x1"
abbreviation (input) VCT_CRLF :: u16 where "VCT_CRLF \<equiv> 0x2"
abbreviation (input) VCT_CTL :: u16 where "VCT_CTL \<equiv> 0x4"
abbreviation (input) VCT_ALPHA :: u16 where "VCT_ALPHA \<equiv> 0x8"
abbreviation (input) VCT_SEPARATOR :: u16 where "VCT_SEPARATOR \<equiv> 0x10"
abbreviation (input) VCT_DIGIT :: u16 where "VCT_DIGIT \<equiv> 0x20"
abbreviation (input) VCT_HEX :: u16 where "VCT_HEX \<equiv> 0x40"
abbreviation (input) VCT_XMLNAMESTART :: u16 where "VCT_XMLNAMESTART \<equiv> 0x80"
abbreviation (input) VCT_XMLNAME :: u16 where "VCT_XMLNAME \<equiv> 0x100"
abbreviation (input) VCT_TCHAR :: u16 where "VCT_TCHAR \<equiv> 0x200"
abbreviation (input) VCT_ID :: u16 where "VCT_ID \<equiv> 0x400"
abbreviation (input) VCT_BASE64 :: u16 where "VCT_BASE64 \<equiv> 0x800"
abbreviation (input) VCT_VT :: u16 where "VCT_VT \<equiv> 0x1000"
abbreviation (input) VCT_UPPER :: u16 where "VCT_UPPER \<equiv> 0x2000"
abbreviation (input) VCT_LOWER :: u16 where "VCT_LOWER \<equiv> 0x4000"
abbreviation (input) VCT_LWS :: u16 where "VCT_LWS \<equiv> VCT_CRLF OR VCT_OWS"
abbreviation (input) VCT_SPACE :: u16 where "VCT_SPACE \<equiv> VCT_LWS OR VCT_VT"
abbreviation (input) VCT_IDENT :: u16 where "VCT_IDENT \<equiv> VCT_ALPHA OR VCT_DIGIT OR VCT_ID"
abbreviation (input) VCT_UPALPHA :: u16 where "VCT_UPALPHA \<equiv> VCT_ALPHA OR VCT_UPPER OR VCT_BASE64"
abbreviation (input) VCT_LOALPHA :: u16 where "VCT_LOALPHA \<equiv> VCT_ALPHA OR VCT_LOWER OR VCT_BASE64"

text \<open>The tables; an index without an initialiser is 0.\<close>

definition vct_typtab :: "u16 list" where
  "vct_typtab = [
    VCT_CTL, VCT_CTL, VCT_CTL, VCT_CTL, VCT_CTL, VCT_CTL, VCT_CTL, VCT_CTL, VCT_CTL, VCT_CTL OR VCT_OWS,
    VCT_CTL OR VCT_CRLF, VCT_CTL OR VCT_VT, VCT_CTL, VCT_CTL OR VCT_CRLF, VCT_CTL, VCT_CTL, VCT_CTL, VCT_CTL,
    VCT_CTL, VCT_CTL, VCT_CTL, VCT_CTL, VCT_CTL, VCT_CTL, VCT_CTL, VCT_CTL, VCT_CTL, VCT_CTL, VCT_CTL, VCT_CTL,
    VCT_CTL, VCT_CTL, VCT_OWS, VCT_TCHAR, VCT_SEPARATOR, VCT_TCHAR, VCT_TCHAR, VCT_TCHAR, VCT_TCHAR, VCT_TCHAR,
    VCT_SEPARATOR, VCT_SEPARATOR, VCT_TCHAR, VCT_TCHAR OR VCT_BASE64, VCT_SEPARATOR,
    VCT_XMLNAME OR VCT_TCHAR OR VCT_ID, VCT_XMLNAME OR VCT_TCHAR, VCT_SEPARATOR OR VCT_BASE64,
    VCT_DIGIT OR VCT_HEX OR VCT_XMLNAME OR VCT_BASE64, VCT_DIGIT OR VCT_HEX OR VCT_XMLNAME OR VCT_BASE64,
    VCT_DIGIT OR VCT_HEX OR VCT_XMLNAME OR VCT_BASE64, VCT_DIGIT OR VCT_HEX OR VCT_XMLNAME OR VCT_BASE64,
    VCT_DIGIT OR VCT_HEX OR VCT_XMLNAME OR VCT_BASE64, VCT_DIGIT OR VCT_HEX OR VCT_XMLNAME OR VCT_BASE64,
    VCT_DIGIT OR VCT_HEX OR VCT_XMLNAME OR VCT_BASE64, VCT_DIGIT OR VCT_HEX OR VCT_XMLNAME OR VCT_BASE64,
    VCT_DIGIT OR VCT_HEX OR VCT_XMLNAME OR VCT_BASE64, VCT_DIGIT OR VCT_HEX OR VCT_XMLNAME OR VCT_BASE64,
    VCT_SEPARATOR OR VCT_XMLNAMESTART, VCT_SEPARATOR, VCT_SEPARATOR, VCT_SEPARATOR OR VCT_BASE64, VCT_SEPARATOR,
    VCT_SEPARATOR, VCT_SEPARATOR, VCT_UPALPHA OR VCT_HEX OR VCT_XMLNAMESTART,
    VCT_UPALPHA OR VCT_HEX OR VCT_XMLNAMESTART, VCT_UPALPHA OR VCT_HEX OR VCT_XMLNAMESTART,
    VCT_UPALPHA OR VCT_HEX OR VCT_XMLNAMESTART, VCT_UPALPHA OR VCT_HEX OR VCT_XMLNAMESTART,
    VCT_UPALPHA OR VCT_HEX OR VCT_XMLNAMESTART, VCT_UPALPHA OR VCT_XMLNAMESTART,
    VCT_UPALPHA OR VCT_XMLNAMESTART, VCT_UPALPHA OR VCT_XMLNAMESTART, VCT_UPALPHA OR VCT_XMLNAMESTART,
    VCT_UPALPHA OR VCT_XMLNAMESTART, VCT_UPALPHA OR VCT_XMLNAMESTART, VCT_UPALPHA OR VCT_XMLNAMESTART,
    VCT_UPALPHA OR VCT_XMLNAMESTART, VCT_UPALPHA OR VCT_XMLNAMESTART, VCT_UPALPHA OR VCT_XMLNAMESTART,
    VCT_UPALPHA OR VCT_XMLNAMESTART, VCT_UPALPHA OR VCT_XMLNAMESTART, VCT_UPALPHA OR VCT_XMLNAMESTART,
    VCT_UPALPHA OR VCT_XMLNAMESTART, VCT_UPALPHA OR VCT_XMLNAMESTART, VCT_UPALPHA OR VCT_XMLNAMESTART,
    VCT_UPALPHA OR VCT_XMLNAMESTART, VCT_UPALPHA OR VCT_XMLNAMESTART, VCT_UPALPHA OR VCT_XMLNAMESTART,
    VCT_UPALPHA OR VCT_XMLNAMESTART, VCT_SEPARATOR, VCT_SEPARATOR, VCT_SEPARATOR, VCT_TCHAR,
    VCT_XMLNAMESTART OR VCT_TCHAR OR VCT_ID, VCT_TCHAR, VCT_LOALPHA OR VCT_HEX OR VCT_XMLNAMESTART,
    VCT_LOALPHA OR VCT_HEX OR VCT_XMLNAMESTART, VCT_LOALPHA OR VCT_HEX OR VCT_XMLNAMESTART,
    VCT_LOALPHA OR VCT_HEX OR VCT_XMLNAMESTART, VCT_LOALPHA OR VCT_HEX OR VCT_XMLNAMESTART,
    VCT_LOALPHA OR VCT_HEX OR VCT_XMLNAMESTART, VCT_LOALPHA OR VCT_XMLNAMESTART,
    VCT_LOALPHA OR VCT_XMLNAMESTART, VCT_LOALPHA OR VCT_XMLNAMESTART, VCT_LOALPHA OR VCT_XMLNAMESTART,
    VCT_LOALPHA OR VCT_XMLNAMESTART, VCT_LOALPHA OR VCT_XMLNAMESTART, VCT_LOALPHA OR VCT_XMLNAMESTART,
    VCT_LOALPHA OR VCT_XMLNAMESTART, VCT_LOALPHA OR VCT_XMLNAMESTART, VCT_LOALPHA OR VCT_XMLNAMESTART,
    VCT_LOALPHA OR VCT_XMLNAMESTART, VCT_LOALPHA OR VCT_XMLNAMESTART, VCT_LOALPHA OR VCT_XMLNAMESTART,
    VCT_LOALPHA OR VCT_XMLNAMESTART, VCT_LOALPHA OR VCT_XMLNAMESTART, VCT_LOALPHA OR VCT_XMLNAMESTART,
    VCT_LOALPHA OR VCT_XMLNAMESTART, VCT_LOALPHA OR VCT_XMLNAMESTART, VCT_LOALPHA OR VCT_XMLNAMESTART,
    VCT_LOALPHA OR VCT_XMLNAMESTART, VCT_SEPARATOR, VCT_TCHAR, VCT_SEPARATOR, VCT_TCHAR, VCT_CTL, 0, 0, 0, 0, 0,
    0, 0, 0, 0, 0, 0, 0, 0, 0, 0, 0, 0, 0, 0, 0, 0, 0, 0, 0, 0, 0, 0, 0, 0, 0, 0, 0, 0, 0, 0, 0, 0, 0, 0, 0, 0,
    0, 0, 0, 0, 0, 0, 0, 0, 0, 0, 0, 0, 0, 0, VCT_XMLNAME, 0, 0, 0, 0, 0, 0, 0, 0, VCT_XMLNAMESTART,
    VCT_XMLNAMESTART, VCT_XMLNAMESTART, VCT_XMLNAMESTART, VCT_XMLNAMESTART, VCT_XMLNAMESTART, VCT_XMLNAMESTART,
    VCT_XMLNAMESTART, VCT_XMLNAMESTART, VCT_XMLNAMESTART, VCT_XMLNAMESTART, VCT_XMLNAMESTART, VCT_XMLNAMESTART,
    VCT_XMLNAMESTART, VCT_XMLNAMESTART, VCT_XMLNAMESTART, VCT_XMLNAMESTART, VCT_XMLNAMESTART, VCT_XMLNAMESTART,
    VCT_XMLNAMESTART, VCT_XMLNAMESTART, VCT_XMLNAMESTART, VCT_XMLNAMESTART, 0, VCT_XMLNAMESTART,
    VCT_XMLNAMESTART, VCT_XMLNAMESTART, VCT_XMLNAMESTART, VCT_XMLNAMESTART, VCT_XMLNAMESTART, VCT_XMLNAMESTART,
    VCT_XMLNAMESTART, VCT_XMLNAMESTART, VCT_XMLNAMESTART, VCT_XMLNAMESTART, VCT_XMLNAMESTART, VCT_XMLNAMESTART,
    VCT_XMLNAMESTART, VCT_XMLNAMESTART, VCT_XMLNAMESTART, VCT_XMLNAMESTART, VCT_XMLNAMESTART, VCT_XMLNAMESTART,
    VCT_XMLNAMESTART, VCT_XMLNAMESTART, VCT_XMLNAMESTART, VCT_XMLNAMESTART, VCT_XMLNAMESTART, VCT_XMLNAMESTART,
    VCT_XMLNAMESTART, VCT_XMLNAMESTART, VCT_XMLNAMESTART, VCT_XMLNAMESTART, VCT_XMLNAMESTART, VCT_XMLNAMESTART,
    0, VCT_XMLNAMESTART, VCT_XMLNAMESTART, VCT_XMLNAMESTART, VCT_XMLNAMESTART, VCT_XMLNAMESTART,
    VCT_XMLNAMESTART, VCT_XMLNAMESTART, VCT_XMLNAMESTART]"

definition vct_lowertab :: "byte list" where
  "vct_lowertab = [
    0x00, 0x01, 0x02, 0x03, 0x04, 0x05, 0x06, 0x07, 0x08, 0x09, 0x0a, 0x0b, 0x0c, 0x0d, 0x0e, 0x0f,
    0x10, 0x11, 0x12, 0x13, 0x14, 0x15, 0x16, 0x17, 0x18, 0x19, 0x1a, 0x1b, 0x1c, 0x1d, 0x1e, 0x1f,
    0x20, 0x21, 0x22, 0x23, 0x24, 0x25, 0x26, 0x27, 0x28, 0x29, 0x2a, 0x2b, 0x2c, 0x2d, 0x2e, 0x2f,
    0x30, 0x31, 0x32, 0x33, 0x34, 0x35, 0x36, 0x37, 0x38, 0x39, 0x3a, 0x3b, 0x3c, 0x3d, 0x3e, 0x3f,
    0x40, 0x61, 0x62, 0x63, 0x64, 0x65, 0x66, 0x67, 0x68, 0x69, 0x6a, 0x6b, 0x6c, 0x6d, 0x6e, 0x6f,
    0x70, 0x71, 0x72, 0x73, 0x74, 0x75, 0x76, 0x77, 0x78, 0x79, 0x7a, 0x5b, 0x5c, 0x5d, 0x5e, 0x5f,
    0x60, 0x61, 0x62, 0x63, 0x64, 0x65, 0x66, 0x67, 0x68, 0x69, 0x6a, 0x6b, 0x6c, 0x6d, 0x6e, 0x6f,
    0x70, 0x71, 0x72, 0x73, 0x74, 0x75, 0x76, 0x77, 0x78, 0x79, 0x7a, 0x7b, 0x7c, 0x7d, 0x7e, 0x7f,
    0x80, 0x81, 0x82, 0x83, 0x84, 0x85, 0x86, 0x87, 0x88, 0x89, 0x8a, 0x8b, 0x8c, 0x8d, 0x8e, 0x8f,
    0x90, 0x91, 0x92, 0x93, 0x94, 0x95, 0x96, 0x97, 0x98, 0x99, 0x9a, 0x9b, 0x9c, 0x9d, 0x9e, 0x9f,
    0xa0, 0xa1, 0xa2, 0xa3, 0xa4, 0xa5, 0xa6, 0xa7, 0xa8, 0xa9, 0xaa, 0xab, 0xac, 0xad, 0xae, 0xaf,
    0xb0, 0xb1, 0xb2, 0xb3, 0xb4, 0xb5, 0xb6, 0xb7, 0xb8, 0xb9, 0xba, 0xbb, 0xbc, 0xbd, 0xbe, 0xbf,
    0xc0, 0xc1, 0xc2, 0xc3, 0xc4, 0xc5, 0xc6, 0xc7, 0xc8, 0xc9, 0xca, 0xcb, 0xcc, 0xcd, 0xce, 0xcf,
    0xd0, 0xd1, 0xd2, 0xd3, 0xd4, 0xd5, 0xd6, 0xd7, 0xd8, 0xd9, 0xda, 0xdb, 0xdc, 0xdd, 0xde, 0xdf,
    0xe0, 0xe1, 0xe2, 0xe3, 0xe4, 0xe5, 0xe6, 0xe7, 0xe8, 0xe9, 0xea, 0xeb, 0xec, 0xed, 0xee, 0xef,
    0xf0, 0xf1, 0xf2, 0xf3, 0xf4, 0xf5, 0xf6, 0xf7, 0xf8, 0xf9, 0xfa, 0xfb, 0xfc, 0xfd, 0xfe, 0xff]"

definition vct_is :: "byte \<Rightarrow> u16 \<Rightarrow> bool" where
  "vct_is x y = (vct_typtab ! unat (x AND 0xff) AND y \<noteq> 0)"

definition vct_isows :: "byte \<Rightarrow> bool" where "vct_isows x = vct_is x VCT_OWS"
definition vct_issp :: "byte \<Rightarrow> bool" where "vct_issp x = vct_is x VCT_OWS"
definition vct_ishex :: "byte \<Rightarrow> bool" where "vct_ishex x = vct_is x VCT_HEX"
definition vct_islws :: "byte \<Rightarrow> bool" where "vct_islws x = vct_is x VCT_LWS"
definition vct_isctl :: "byte \<Rightarrow> bool" where "vct_isctl x = vct_is x VCT_CTL"
definition vct_isspace :: "byte \<Rightarrow> bool" where "vct_isspace x = vct_is x VCT_SPACE"
definition vct_isdigit :: "byte \<Rightarrow> bool" where "vct_isdigit x = vct_is x VCT_DIGIT"
definition vct_isalpha :: "byte \<Rightarrow> bool" where "vct_isalpha x = vct_is x VCT_ALPHA"
definition vct_islower :: "byte \<Rightarrow> bool" where "vct_islower x = vct_is x VCT_LOWER"
definition vct_isupper :: "byte \<Rightarrow> bool" where "vct_isupper x = vct_is x VCT_UPPER"
definition vct_isalnum :: "byte \<Rightarrow> bool" where "vct_isalnum x = vct_is x (VCT_ALPHA OR VCT_DIGIT)"
definition vct_isbase64 :: "byte \<Rightarrow> bool" where "vct_isbase64 x = vct_is x VCT_BASE64"
definition vct_issep :: "byte \<Rightarrow> bool" where "vct_issep x = vct_is x VCT_SEPARATOR"
definition vct_issepctl :: "byte \<Rightarrow> bool" where "vct_issepctl x = vct_is x (VCT_SEPARATOR OR VCT_CTL)"
definition vct_isident1 :: "byte \<Rightarrow> bool" where "vct_isident1 x = vct_isalpha x"
definition vct_isident :: "byte \<Rightarrow> bool" where "vct_isident x = vct_is x VCT_IDENT"
definition vct_isxmlnamestart :: "byte \<Rightarrow> bool" where "vct_isxmlnamestart x = vct_is x VCT_XMLNAMESTART"
definition vct_isxmlname :: "byte \<Rightarrow> bool" where
  "vct_isxmlname x = vct_is x (VCT_XMLNAMESTART OR VCT_XMLNAME)"
definition vct_istchar :: "byte \<Rightarrow> bool" where
  "vct_istchar x = vct_is x (VCT_ALPHA OR VCT_DIGIT OR VCT_TCHAR)"
definition vct_ishdrval :: "byte \<Rightarrow> bool" where "vct_ishdrval x = (x \<ge> 0x20 \<and> x \<noteq> 0x7f \<or> x = 0x09)"

subsection \<open>Operations\<close>

text \<open>\<open>p\<close> has the bytes from the pointer on, of which \<open>n\<close> are before \<open>end\<close>.\<close>

definition vct_iscrlf :: "byte list \<Rightarrow> int \<Rightarrow> int res" where
  "vct_iscrlf p n = guardR AssertFail (0 \<le> n) (
     if n = 0 then Inr 0
     else bindR (nthR p 0) (\<lambda>c.
       bindR (if c = 0x0d \<and> 1 < n then bindR (nthR p 1) (\<lambda>d. Inr (d = 0x0a)) else Inr False) (\<lambda>crlf.
       Inr (if crlf then 2 else if c = 0x0a then 1 else 0))))"

definition vct_skipcrlf :: "byte list \<Rightarrow> int \<Rightarrow> byte list res" where
  "vct_skipcrlf p n = bindR (vct_iscrlf p n) (\<lambda>k. Inr (drop (nat k) p))"

text \<open>The value when the loop of the comparisons has stopped at two bytes.\<close>

definition case_result :: "byte \<Rightarrow> byte \<Rightarrow> int" where
  "case_result a b = (if a = 0 \<and> b = 0 then 0
     else if a = 0 then - 1
     else if b = 0 then 1
     else uint (vct_lowertab ! unat a) - uint (vct_lowertab ! unat b))"

fun vct_casecmp :: "byte list \<Rightarrow> byte list \<Rightarrow> int res" where
  "vct_casecmp (a # aa) (b # bb) =
     (if a \<noteq> 0 \<and> vct_lowertab ! unat a = vct_lowertab ! unat b then vct_casecmp aa bb
      else Inr (case_result a b))"
| "vct_casecmp _ _ = Inl Undefined"

fun caselencmp_loop :: "byte list \<Rightarrow> byte list \<Rightarrow> nat \<Rightarrow> int res" where
  "caselencmp_loop aa bb 0 = Inr 0"
| "caselencmp_loop (a # aa) (b # bb) (Suc sz) =
     (if a \<noteq> 0 \<and> vct_lowertab ! unat a = vct_lowertab ! unat b then caselencmp_loop aa bb sz
      else Inr (case_result a b))"
| "caselencmp_loop _ _ (Suc _) = Inl Undefined"

definition vct_caselencmp :: "byte list \<Rightarrow> byte list \<Rightarrow> int \<Rightarrow> int res" where
  "vct_caselencmp a b sz = guardR AssertFail (0 \<le> sz) (caselencmp_loop a b (nat sz))"

text \<open>The index of the first byte that makes the name invalid; \<open>b\<close> has the bytes before \<open>e\<close>.\<close>

definition VCT_invalid_name :: "byte list \<Rightarrow> nat option res" where
  "VCT_invalid_name b = guardR AssertFail (b \<noteq> []) (
     Inr (if \<not> vct_isident1 (hd b) then Some 0
          else if list_all vct_isident b then None
          else Some (length (takeWhile vct_isident b))))"

subsection \<open>Classes\<close>

text \<open>A statement about all bytes is checked by evaluation.\<close>

lemma all_bytes:
  assumes "list_all (\<lambda>n. P (of_nat n)) [0..<256]"
  shows "P (c :: byte)"
proof -
  have "unat c \<in> set [0..<256]" using unat_byte_less [of c] by simp
  then have "P (of_nat (unat c))" using assms by (simp only: list_all_iff)
  then show ?thesis by simp
qed

lemma isdigit_iff: "vct_isdigit c \<longleftrightarrow> 0x30 \<le> c \<and> c \<le> 0x39"
  by (rule all_bytes) code_simp

lemma ishex_iff:
  "vct_ishex c \<longleftrightarrow> 0x30 \<le> c \<and> c \<le> 0x39 \<or> 0x41 \<le> c \<and> c \<le> 0x46 \<or> 0x61 \<le> c \<and> c \<le> 0x66"
  by (rule all_bytes) code_simp

lemma isows_iff: "vct_isows c \<longleftrightarrow> c = 0x20 \<or> c = 0x09"
  by (rule all_bytes) code_simp

definition lower :: "byte \<Rightarrow> byte" where
  "lower c = (if 0x41 \<le> c \<and> c \<le> 0x5a then c + 0x20 else c)"

lemma lowertab_eq: "vct_lowertab ! unat c = lower c"
  by (rule all_bytes) code_simp

lemma lower_0 [simp]: "lower c = 0 \<longleftrightarrow> c = 0"
  by (rule all_bytes [where P = "\<lambda>c. lower c = 0 \<longleftrightarrow> c = 0"]) code_simp

lemma lowertab_0 [simp]: "vct_lowertab ! 0 = 0"
  using lowertab_eq [of 0] by (simp add: lower_def)

subsection \<open>Comparison\<close>

definition byte_less :: "(byte \<times> byte) set" where
  "byte_less = {(a, b). a < b}"

lemma casecmp_lower:
  assumes "0 \<notin> set xs" and "0 \<notin> set ys"
  shows "okR (\<lambda>r. (r = 0 \<longleftrightarrow> map lower xs = map lower ys) \<and>
    (r < 0 \<longleftrightarrow> (map lower xs, map lower ys) \<in> lexord byte_less)) (vct_casecmp (xs @ 0 # zs) (ys @ 0 # ws))"
  using assms
proof (induction xs arbitrary: ys)
  case Nil
  then show ?case by (cases ys) (auto simp: case_result_def lowertab_eq)
next
  case (Cons x xs)
  show ?case
  proof (cases ys)
    case Nil
    then show ?thesis using Cons.prems by (auto simp: case_result_def lowertab_eq)
  next
    case (Cons y ys')
    then show ?thesis using Cons.IH [of ys'] Cons.prems
      by (auto simp: case_result_def lowertab_eq byte_less_def word_less_def word_uint_eq_iff)
  qed
qed

text \<open>
  C28.  \<open>vct_casecmp\<close> compares C strings as their lower-case versions are compared byte by byte: the
  result is 0 exactly when they are equal, negative exactly when the first is smaller, and the
  comparison never reads behind a terminating NUL.
\<close>

theorem vct_casecmp_lower:
  assumes "0 \<notin> set xs" and "0 \<notin> set ys"
  shows "\<exists>r. vct_casecmp (xs @ 0 # zs) (ys @ 0 # ws) = Inr r \<and> (r = 0 \<longleftrightarrow> map lower xs = map lower ys) \<and>
    (r < 0 \<longleftrightarrow> (map lower xs, map lower ys) \<in> lexord byte_less)"
  using casecmp_lower [OF assms] by (simp add: okR_def)

theorem vct_casecmp_lower_witness:
  "\<exists>r. vct_casecmp (cstr ''Content-Length'' @ [0]) (cstr ''content-length'' @ [0]) = Inr r \<and> r = 0"
proof -
  have "0 \<notin> set (cstr ''Content-Length'')" "0 \<notin> set (cstr ''content-length'')"
    "map lower (cstr ''Content-Length'') = map lower (cstr ''content-length'')" by code_simp+
  then show ?thesis using vct_casecmp_lower [of "cstr ''Content-Length''" "cstr ''content-length''" "[]" "[]"] by simp
qed

end
