(* ===== verification/Vnum.thy ===== *)
theory Vnum
  imports Vct
begin

text \<open>
  Integers of \<open>lib/vnum.c\<close>: \<open>vnum_uint\<close> reads an unsigned number in base 10 or 16 from the bytes
  between two pointers, \<open>SF_Parse_Integer\<close> a signed one with at most 15 digits.  The value is the
  one of the digits, and values that do not fit are reported; the functions on \<open>double\<close> are not
  modelled.
\<close>

subsection \<open>Unsigned numbers\<close>

abbreviation (input) SSIZE_MAX :: int where
  "SSIZE_MAX \<equiv> 0x7fffffffffffffff"

definition hex_table :: "nat list" where
  "hex_table = [
    0, 1, 2, 3, 4, 5, 6, 7, 8, 9,
    127, 127, 127, 127, 127, 127, 127, 10, 11, 12,
    13, 14, 15, 127, 127, 127, 127, 127, 127, 127,
    127, 127, 127, 127, 127, 127, 127, 127, 127, 127,
    127, 127, 127, 127, 127, 127, 127, 127, 127, 10,
    11, 12, 13, 14, 15]"

text \<open>\<open>vct_ishex(c) && hex_table[c - '0'] < base\<close>, with the digit.\<close>

definition hex_digit :: "byte \<Rightarrow> u32 \<Rightarrow> nat option res" where
  "hex_digit c base = (if vct_ishex c
     then guardR Undefined (0x30 \<le> c) (bindR (nthR hex_table (unat c - 0x30)) (\<lambda>n.
       Inr (if n < unat base then Some n else None)))
     else Inr None)"

text \<open>
  \<open>b\<close> has the bytes from the pointer on, \<open>n\<close> of them are before \<open>e\<close>; \<open>k\<close> bytes have been read.
  \<open>u\<close> is a \<open>ssize_t\<close>: a product or a sum beyond \<open>SSIZE_MAX\<close> is undefined.
\<close>

fun vnum_loop :: "byte list \<Rightarrow> nat \<Rightarrow> u32 \<Rightarrow> int \<Rightarrow> nat \<Rightarrow> (int \<times> nat) res" where
  "vnum_loop b 0 base u k = Inr (u, k)"
| "vnum_loop [] (Suc n) base u k = Inl Undefined"
| "vnum_loop (c # b) (Suc n) base u k = bindR (hex_digit c base) (\<lambda>d.
     case d of None \<Rightarrow> Inr (u, k)
     | Some d \<Rightarrow>
         if u > SSIZE_MAX div uint base then Inr (- 2, k)
         else guardR Undefined (u * uint base \<le> SSIZE_MAX) (let u = u * uint base in
           if u > SSIZE_MAX - int d then Inr (- 2, k)
           else guardR Undefined (u + int d \<le> SSIZE_MAX) (vnum_loop b n base (u + int d) (k + 1))))"

text \<open>The argument \<open>e\<close> is the number of bytes before it, or \<open>None\<close> for a null pointer.\<close>

definition vnum_uint :: "byte list \<Rightarrow> nat option \<Rightarrow> u32 \<Rightarrow> (int \<times> nat) res" where
  "vnum_uint b e base = bindR (case e of Some n \<Rightarrow> Inr n
       | None \<Rightarrow> guardR Undefined (0 \<in> set b) (Inr (length (takeWhile (\<lambda>c. c \<noteq> 0) b)))) (\<lambda>n.
     bindR (nthR b 0) (\<lambda>c. bindR (hex_digit c base) (\<lambda>d.
     if d = None then Inr (- 1, 0) else vnum_loop b n base 0 0)))"

definition VNUM_uint :: "byte list \<Rightarrow> nat option \<Rightarrow> (int \<times> nat) res" where
  "VNUM_uint b e = vnum_uint b e 10"

definition VNUM_hex :: "byte list \<Rightarrow> nat option \<Rightarrow> (int \<times> nat) res" where
  "VNUM_hex b e = vnum_uint b e 16"

subsection \<open>Structured field integers\<close>

datatype num_error = err_no_digits | err_fatnum

text \<open>The pointer \<open>*ipp\<close> is the list of the bytes from it on.\<close>

fun skip_ows :: "byte list \<Rightarrow> byte list res" where
  "skip_ows [] = Inl Undefined"
| "skip_ows (c # ip) = (if vct_isows c then skip_ows ip else Inr (c # ip))"

text \<open>The loop over the digits: value, number of digits, \<open>err_fatnum\<close>, and the pointer.\<close>

fun sf_digits :: "byte list \<Rightarrow> nat \<Rightarrow> nat \<Rightarrow> int \<Rightarrow> (int \<times> nat \<times> bool \<times> byte list) res" where
  "sf_digits [] maxdig ndig retval = Inl Undefined"
| "sf_digits (c # ip) maxdig ndig retval = (if vct_isdigit c
     then if ndig + 1 > maxdig then Inr (retval, ndig + 1, True, c # ip)
       else sf_digits ip maxdig (ndig + 1) (retval * 10 + (uint c - 0x30))
     else Inr (retval, ndig, False, c # ip))"

text \<open>Value, sign, error and the pointer after it.\<close>

definition sf_parse_int :: "byte list \<Rightarrow> nat \<Rightarrow> (int \<times> int \<times> num_error option \<times> byte list) res" where
  "sf_parse_int ip maxdig = bindR (skip_ows ip) (\<lambda>ip.
     let (sign, ip) = (if hd ip = 0x2d then (- 1, tl ip) else (1, ip)) in
     bindR (sf_digits ip maxdig 0 0) (\<lambda>(retval, ndig, fat, ip).
     if fat then Inr (retval, sign, Some err_fatnum, ip)
     else if ndig = 0 then Inr (retval, sign, Some err_no_digits, ip)
     else bindR (skip_ows ip) (\<lambda>ip. Inr (retval, sign, None, ip))))"

definition SF_Parse_Integer :: "byte list \<Rightarrow> (int \<times> num_error option \<times> byte list) res" where
  "SF_Parse_Integer ip = bindR (sf_parse_int ip 15) (\<lambda>(retval, sign, err, ip). Inr (retval * sign, err, ip))"

subsection \<open>Values\<close>

text \<open>The digits in a base, and the value of a sequence of digits.\<close>

definition hexval :: "byte \<Rightarrow> nat option" where
  "hexval c = (if 0x30 \<le> c \<and> c \<le> 0x39 then Some (unat c - 0x30)
     else if 0x41 \<le> c \<and> c \<le> 0x46 then Some (unat c - 0x37)
     else if 0x61 \<le> c \<and> c \<le> 0x66 then Some (unat c - 0x57) else None)"

definition dig :: "nat \<Rightarrow> byte \<Rightarrow> nat option" where
  "dig base c = (case hexval c of Some d \<Rightarrow> if d < base then Some d else None | None \<Rightarrow> None)"

fun num_val :: "nat \<Rightarrow> int \<Rightarrow> byte list \<Rightarrow> int" where
  "num_val base u [] = u"
| "num_val base u (c # b) = num_val base (u * int base + int (the (dig base c))) b"

definition digits :: "nat \<Rightarrow> byte list \<Rightarrow> byte list" where
  "digits base b = takeWhile (\<lambda>c. dig base c \<noteq> None) b"

lemma hex_table_eq: "if vct_ishex c
    then 0x30 \<le> c \<and> unat c - 0x30 < length hex_table \<and> hexval c = Some (hex_table ! (unat c - 0x30))
    else hexval c = None"
  by (rule all_bytes [where P = "\<lambda>c. if vct_ishex c
    then 0x30 \<le> c \<and> unat c - 0x30 < length hex_table \<and> hexval c = Some (hex_table ! (unat c - 0x30))
    else hexval c = None"]) code_simp

lemma hex_digit_eq: "hex_digit c base = Inr (dig (unat base) c)"
  using hex_table_eq [of c] by (auto simp: hex_digit_def dig_def split: if_splits)

lemma num_val_mono: "0 < base \<Longrightarrow> 0 \<le> u \<Longrightarrow> u \<le> num_val base u b"
proof (induction base u b rule: num_val.induct)
  case (2 base u c b)
  have "u * 1 \<le> u * int base" using 2(2,3) by (intro mult_left_mono) simp_all
  moreover have "0 \<le> u * int base + int (the (dig base c))" using 2(2,3) by simp
  ultimately show ?case using 2 by simp
qed simp

lemma div_succ_mult:
  assumes "0 < b"
  shows "m < (m div b + 1) * (b :: int)"
proof -
  have "m < m div b * b + b" using pos_mod_bound [OF assms, of m] div_mult_mod_eq [of m b] by linarith
  then show ?thesis by (simp add: distrib_right)
qed

text \<open>The first test keeps the product in range.\<close>

lemma le_of_div:
  assumes "0 < base" and "0 \<le> u"
  shows "\<not> u > SSIZE_MAX div int base \<Longrightarrow> u * int base \<le> SSIZE_MAX"
proof -
  assume "\<not> u > SSIZE_MAX div int base"
  then have "u * int base \<le> SSIZE_MAX div int base * int base" by (intro mult_right_mono) simp_all
  also have "\<dots> \<le> SSIZE_MAX" using pos_mod_sign [of "int base" SSIZE_MAX] assms(1)
      div_mult_mod_eq [of SSIZE_MAX "int base"] by linarith
  finally show ?thesis .
qed

text \<open>The tests before the multiplication and the addition fail exactly when the value is too large.\<close>

lemma overflow_tests:
  assumes "0 < base" and "0 \<le> u"
  shows "u > SSIZE_MAX div int base \<or> u * int base > SSIZE_MAX - int d \<longleftrightarrow> u * int base + int d > SSIZE_MAX"
proof -
  have "u * int base > SSIZE_MAX" if "u > SSIZE_MAX div int base"
  proof -
    have "SSIZE_MAX div int base + 1 \<le> u" using that by simp
    then have "(SSIZE_MAX div int base + 1) * int base \<le> u * int base" using assms(1) by (intro mult_right_mono) simp_all
    moreover have "SSIZE_MAX < (SSIZE_MAX div int base + 1) * int base"
      by (rule div_succ_mult) (use assms(1) in simp)
    ultimately show ?thesis by simp
  qed
  then show ?thesis by auto
qed

lemma vnum_loop_eq:
  assumes "base \<noteq> 0" and "n \<le> length b" and "0 \<le> u" and "u \<le> SSIZE_MAX"
  shows "\<exists>k'. vnum_loop b n base u k = Inr (let ds = digits (unat base) (take n b); v = num_val (unat base) u ds in
      if v \<le> SSIZE_MAX then (v, k + length ds) else (- 2, k'))"
  using assms
proof (induction b n base u k rule: vnum_loop.induct)
  case (3 c b n base u k)
  let ?base = "unat base"
  have pos: "0 < ?base" using 3(2) by (simp add: unat_gt_0)
  show ?case
  proof (cases "dig ?base c")
    case None
    then show ?thesis using 3 by (simp add: hex_digit_eq digits_def)
  next
    case (Some d)
    let ?u = "u * int ?base + int d"
    have ds: "digits ?base (c # take n b) = c # digits ?base (take n b)" using Some by (simp add: digits_def)
    have mono: "?u \<le> num_val ?base ?u (digits ?base (take n b))" using 3 pos num_val_mono [of ?base ?u] by simp
    note t = overflow_tests [OF pos 3(4), of d]
    show ?thesis
    proof (cases "?u > SSIZE_MAX")
      case True
      then have "vnum_loop (c # b) (Suc n) base u k = Inr (- 2, k)"
        using Some t le_of_div [OF pos 3(4)] by (auto simp: hex_digit_eq Let_def uint_nat simp del: of_nat_unat)
      then show ?thesis using Some mono True by (auto simp: ds Let_def)
    next
      case False
      then have t: "\<not> u > SSIZE_MAX div int ?base" "\<not> u * int ?base > SSIZE_MAX - int d"
        using t by blast+
      have u: "0 \<le> u * int ?base" using 3(4) by simp
      have step: "vnum_loop (c # b) (Suc n) base u k = vnum_loop b n base ?u (k + 1)"
        using Some t False u by (simp add: hex_digit_eq Let_def uint_nat del: of_nat_unat)
      have "\<exists>k'. vnum_loop b n base ?u (k + 1) = Inr (let ds = digits ?base (take n b); v = num_val ?base ?u ds in
          if v \<le> SSIZE_MAX then (v, k + 1 + length ds) else (- 2, k'))"
        using 3(1) [of "Some d" d "u * uint base"] Some t False u 3
        by (simp add: hex_digit_eq uint_nat del: of_nat_unat)
      then show ?thesis using Some t by (auto simp: step ds Let_def simp del: vnum_loop.simps split: if_splits)
    qed
  qed
qed (simp_all add: digits_def)

subsection \<open>Properties\<close>

text \<open>
  C27.  \<open>vnum_uint\<close> reads the digits before \<open>e\<close>, which is the end of the string where the argument
  is a null pointer.  Without a digit at \<open>b\<close> it returns -1; otherwise it returns the value of the
  digits and the position behind them, or -2 exactly when the value is larger than \<open>SSIZE_MAX\<close>.
  No intermediate product or sum overflows \<open>ssize_t\<close>.
\<close>

theorem vnum_uint_value:
  fixes base :: u32
  assumes "base \<noteq> 0" and "b \<noteq> []"
    and "case e of Some m \<Rightarrow> n = m \<and> m \<le> length b | None \<Rightarrow> 0 \<in> set b \<and> n = length (takeWhile (\<lambda>c. c \<noteq> 0) b)"
  shows "\<exists>k. vnum_uint b e base = Inr (if dig (unat base) (hd b) = None then (- 1, 0)
      else let ds = digits (unat base) (take n b); v = num_val (unat base) 0 ds in
        if v \<le> SSIZE_MAX then (v, length ds) else (- 2, k))"
proof -
  obtain c b' where b: "b = c # b'" using assms(2) by (cases b) auto
  then have c: "nthR b 0 = Inr c" by simp
  have n: "n \<le> length b" using assms(3) by (auto simp: length_takeWhile_le split: option.splits)
  have "vnum_uint b e base = bindR (hex_digit c base) (\<lambda>d. if d = None then Inr (- 1, 0) else vnum_loop b n base 0 0)"
    using assms(3) by (auto simp: vnum_uint_def c split: option.splits)
  then show ?thesis using vnum_loop_eq [OF assms(1) n, of 0 0]
    by (cases "dig (unat base) c") (auto simp: b hex_digit_eq Let_def)
qed

theorem vnum_uint_value_witness:
  "vnum_uint (cstr ''7fG'') (Some 3) 16 = Inr (127, 2) \<and> vnum_uint (cstr ''42'' @ [0]) None 10 = Inr (42, 2) \<and>
   (\<exists>k. vnum_uint (cstr ''9223372036854775808'') (Some 19) 10 = Inr (- 2, k))"
proof (intro conjI)
  have "digits 16 (take 3 (cstr ''7fG'')) = cstr ''7f''" "num_val 16 0 (cstr ''7f'') = 127" "dig 16 (hd (cstr ''7fG'')) \<noteq> None"
    "length (cstr ''7f'') = 2" "length (cstr ''7fG'') = 3" "cstr ''7fG'' \<noteq> []" by code_simp+
  then show "vnum_uint (cstr ''7fG'') (Some 3) 16 = Inr (127, 2)"
    using vnum_uint_value [of 16 "cstr ''7fG''" 3 "Some 3"] by (auto simp: Let_def)
  have "digits 10 (take 2 (cstr ''42'' @ [0])) = cstr ''42''" "num_val 10 0 (cstr ''42'') = 42" "dig 10 (hd (cstr ''42'' @ [0])) \<noteq> None"
    "length (takeWhile (\<lambda>c. c \<noteq> 0) (cstr ''42'' @ [0])) = 2" "length (cstr ''42'') = 2" by code_simp+
  then show "vnum_uint (cstr ''42'' @ [0]) None 10 = Inr (42, 2)"
    using vnum_uint_value [of 10 "cstr ''42'' @ [0]" 2 None] by (auto simp: Let_def)
  have "digits 10 (take 19 (cstr ''9223372036854775808'')) = cstr ''9223372036854775808''"
    "num_val 10 0 (cstr ''9223372036854775808'') = 9223372036854775808" "dig 10 (hd (cstr ''9223372036854775808'')) \<noteq> None"
    "length (cstr ''9223372036854775808'') = 19" "cstr ''9223372036854775808'' \<noteq> []" by code_simp+
  then show "\<exists>k. vnum_uint (cstr ''9223372036854775808'') (Some 19) 10 = Inr (- 2, k)"
    using vnum_uint_value [of 10 "cstr ''9223372036854775808''" 19 "Some 19"] by (auto simp: Let_def)
qed

end
