(* ===== verification/Vav.thy ===== *)
theory Vav
  imports Vnum
begin

text \<open>
  Argument vectors, \<open>lib/vav.c\<close>.

  \<^item> A text between two pointers is a list of bytes; the state of \<open>VAV_ParseTxt\<close> are the vector, the
    number of arguments, the position and the position of the last separator.  The vector is the list
    of its slots: \<open>calloc\<close> gives null pointers, \<open>realloc\<close> slots that are not initialised.
  \<^item> Properties: parsing never fails an assertion and never leaves the text or the vector; quoted
    arguments are read back; after an error the vector may be unterminated, so that \<open>VAV_Free\<close>
    reads a slot that was never written.
\<close>

subsection \<open>Backslash sequences\<close>

text \<open>
  \<open>isspace\<close> and \<open>isdigit\<close> in the C locale.  The source passes a plain \<open>char\<close>, negative from 0x80 on;
  the tables of the usual C libraries cover these values, and no such byte is a space or a digit.
\<close>

definition c_isspace :: "byte \<Rightarrow> bool" where
  "c_isspace c = (c = 0x20 \<or> 0x09 \<le> c \<and> c \<le> 0x0d)"

definition c_isdigit :: "byte \<Rightarrow> bool" where
  "c_isdigit c = (0x30 \<le> c \<and> c \<le> 0x39)"

function octal_loop :: "byte list \<Rightarrow> nat \<Rightarrow> nat \<Rightarrow> byte \<Rightarrow> (nat \<times> byte) res" where
  "octal_loop s l r c = (if r < 4 \<and> r < l then bindR (nthR s r) (\<lambda>d.
       if \<not> c_isdigit d then Inr (r, c)
       else if d - 0x30 > 7 then Inr (r, c)
       else octal_loop s l (r + 1) (push_bit 3 c OR (d - 0x30)))
     else Inr (r, c))"
  by pat_completeness auto
termination
  by (relation "measure (\<lambda>(_, _, r, _). 4 - r)") auto

declare octal_loop.simps [simp del]

text \<open>
  The number of bytes of the sequence at \<open>s\<close>, of which \<open>l\<close> are before \<open>e\<close>, 0 if it is not valid, and
  what is stored through \<open>res\<close>.  The source has \<open>l\<close> as an \<open>int\<close>, which is exact for texts shorter than
  2 GiB.
\<close>

definition backslash_switch :: "byte list \<Rightarrow> nat \<Rightarrow> byte \<Rightarrow> (nat \<times> byte option) res" where
  "backslash_switch s l s1 = (
     if s1 = 0x6e then Inr (2, Some 0x0a)
     else if s1 = 0x72 then Inr (2, Some 0x0d)
     else if s1 = 0x74 then Inr (2, Some 0x09)
     else if s1 = 0x22 then Inr (2, Some 0x22)
     else if s1 = 0x5c then Inr (2, Some 0x5c)
     else if 0x30 \<le> s1 \<and> s1 \<le> 0x37 then bindR (octal_loop s l 1 0) (\<lambda>(r, c). Inr (r, Some c))
     else if s1 = 0x78 \<and> l \<ge> 4 then bindR (VNUM_hex (drop 2 s) (Some 2)) (\<lambda>(i, p).
       if i \<ge> 0 \<and> p = 2 then guardR AssertFail (i \<le> 0xff) (Inr (4, Some (of_int i)))
       else Inr (0, Some 0))
     else Inr (0, Some 0))"

definition vav_backslash_txt :: "byte list \<Rightarrow> nat \<Rightarrow> (nat \<times> byte option) res" where
  "vav_backslash_txt s l = (
     if l < 2 then Inr (0, None)
     else bindR (nthR s 0) (\<lambda>s0. guardR AssertFail (s0 = 0x5c) (bindR (nthR s 1) (backslash_switch s l))))"

text \<open>\<open>VAV_BackSlash\<close> on the bytes up to the NUL.\<close>

definition VAV_BackSlash :: "byte list \<Rightarrow> (nat \<times> byte option) res" where
  "VAV_BackSlash s = vav_backslash_txt s (length (takeWhile (\<lambda>c. c \<noteq> 0) s))"

text \<open>\<open>None\<close> is the result NULL with \<open>EINVAL\<close>.\<close>

function VAV_BackSlashDecode :: "byte list \<Rightarrow> nat \<Rightarrow> byte list option res" where
  "VAV_BackSlashDecode s n = (if n = 0 then Inr (Some [])
     else bindR (nthR s 0) (\<lambda>c.
       if c \<noteq> 0x5c
       then bindR (VAV_BackSlashDecode (drop 1 s) (n - 1)) (\<lambda>r. Inr (map_option (Cons c) r))
       else bindR (vav_backslash_txt s n) (\<lambda>(i, d).
         if i = 0 then Inr None
         else bindR (VAV_BackSlashDecode (drop i s) (n - i)) (\<lambda>r. Inr (map_option (Cons (the d)) r)))))"
  by pat_completeness auto
termination
  by (relation "measure snd") auto

declare VAV_BackSlashDecode.simps [simp del]

subsection \<open>Argument vectors\<close>

abbreviation (input) ARGV_COMMENT :: u32 where "ARGV_COMMENT \<equiv> 1"
abbreviation (input) ARGV_COMMA :: u32 where "ARGV_COMMA \<equiv> 2"
abbreviation (input) ARGV_NOESC :: u32 where "ARGV_NOESC \<equiv> 4"

definition has_flag :: "u32 \<Rightarrow> u32 \<Rightarrow> bool" where
  "has_flag flag b = (flag AND b \<noteq> 0)"

datatype vav_error = err_invalid_backslash | err_invalid_quote | err_missing_quote | err_missing_separator

datatype arg_slot = SlotNull | SlotUninit | SlotArg "byte list" | SlotErr vav_error

text \<open>
  The inner loop of \<open>VAV_ParseTxt\<close>: the end of the argument and \<open>sep\<close>, or the error.  One round of
  it gives the result or the next position.
\<close>

definition scan_round :: "u32 \<Rightarrow> byte list \<Rightarrow> bool \<Rightarrow> nat \<Rightarrow> ((vav_error + nat \<times> nat option) + nat) res" where
  "scan_round flag t quote b = bindR (nthR t b) (\<lambda>c.
     if c = 0x5c \<and> \<not> has_flag flag ARGV_NOESC
     then bindR (vav_backslash_txt (drop b t) (length t - b)) (\<lambda>(i, _).
       if i = 0 then Inr (Inl (Inl err_invalid_backslash)) else Inr (Inr (b + i)))
     else if \<not> quote then
       if c_isspace c then Inr (Inl (Inr (b, Some b)))
       else if has_flag flag ARGV_COMMA \<and> c = 0x2c then Inr (Inl (Inr (b, Some b)))
       else if \<not> has_flag flag ARGV_NOESC \<and> c = 0x22 then Inr (Inl (Inl err_invalid_quote))
       else Inr (Inr (b + 1))
     else if c = 0x22 \<and> \<not> has_flag flag ARGV_NOESC then Inr (Inl (Inr (b, Some b)))
     else Inr (Inr (b + 1)))"

lemma scan_round_forward: "scan_round flag t quote b = Inr (Inr b') \<Longrightarrow> b < b'"
  by (auto simp: scan_round_def res_iffs split: if_splits)

lemma scan_round_stop: "scan_round flag t quote b = Inr (Inl (Inr (b', sep))) \<Longrightarrow> b' = b \<and> sep = Some b"
  by (auto simp: scan_round_def res_iffs split: if_splits)

function scan_arg :: "u32 \<Rightarrow> byte list \<Rightarrow> bool \<Rightarrow> nat \<Rightarrow> (vav_error + nat \<times> nat option) res" where
  "scan_arg flag t quote b = (if b < length t
     then bindR (scan_round flag t quote b) (\<lambda>r. case r of Inl x \<Rightarrow> Inr x | Inr b' \<Rightarrow> scan_arg flag t quote b')
     else Inr (Inr (b, None)))"
  by pat_completeness auto
termination
  by (relation "measure (\<lambda>(_, t, _, b). length t - b)") (auto dest!: scan_round_forward)

declare scan_arg.simps [simp del]

lemma scan_arg_steps [consumes 1, case_names stop step fin]:
  assumes "scan_arg flag t quote b = Inr (Inr (b', sep))"
    and "b < length t \<Longrightarrow> b' = b \<Longrightarrow> sep = Some b \<Longrightarrow> scan_round flag t quote b = Inr (Inl (Inr (b, Some b))) \<Longrightarrow> P"
    and "\<And>b1. b < length t \<Longrightarrow> scan_round flag t quote b = Inr (Inr b1) \<Longrightarrow>
      scan_arg flag t quote b1 = Inr (Inr (b', sep)) \<Longrightarrow> P"
    and "length t \<le> b \<Longrightarrow> b' = b \<Longrightarrow> sep = None \<Longrightarrow> P"
  shows P
proof (cases "b < length t")
  case True
  then obtain r where r: "scan_round flag t quote b = Inr r"
    "(case r of Inl x \<Rightarrow> Inr x | Inr b1 \<Rightarrow> scan_arg flag t quote b1) = Inr (Inr (b', sep))"
    using assms(1) by (subst (asm) scan_arg.simps) (auto simp: res_iffs)
  show P
  proof (cases r)
    case (Inl x)
    then show P using True r scan_round_stop [of flag t quote b b' sep] assms(2) by simp
  next
    case (Inr b1)
    then show P using True r assms(3) by simp
  qed
next
  case False
  then have "scan_arg flag t quote b = Inr (Inr (b, None))" by (subst scan_arg.simps) simp
  then have "b' = b" "sep = None" using assms(1) by simp_all
  then show P using False assms(4) by (meson not_le_imp_less)
qed

text \<open>The new argument, from the bytes from \<open>p\<close> to \<open>b\<close>; \<open>None\<close> fails the assertion.\<close>

definition new_arg :: "u32 \<Rightarrow> byte list \<Rightarrow> nat \<Rightarrow> nat \<Rightarrow> byte list res" where
  "new_arg flag t p b = (if has_flag flag ARGV_NOESC then Inr (take (b - p) (drop p t))
     else bindR (VAV_BackSlashDecode (drop p t) (b - p)) (\<lambda>r.
       case r of None \<Rightarrow> Inl AssertFail | Some a \<Rightarrow> Inr a))"

definition grow_argv :: "arg_slot list \<Rightarrow> nat \<Rightarrow> arg_slot list" where
  "grow_argv argv nargv =
     (if nargv + 2 \<ge> length argv then argv @ replicate (length argv) SlotUninit else argv)"

text \<open>The statements after the outer loop.\<close>

definition finish_argv :: "byte list \<Rightarrow> arg_slot list \<Rightarrow> nat \<Rightarrow> nat option \<Rightarrow> (arg_slot list \<times> nat option) res" where
  "finish_argv t argv nargv sep =
     bindR (case sep of None \<Rightarrow> Inr (argv, nargv) | Some k \<Rightarrow> bindR (nthR t k) (\<lambda>c.
       if c = 0x2c then bindR (updR argv nargv (SlotArg [])) (\<lambda>argv. Inr (argv, nargv + 1))
       else Inr (argv, nargv))) (\<lambda>(argv, nargv).
     bindR (updR argv nargv SlotNull) (\<lambda>argv. Inr (argv, Some nargv)))"

definition argv_error :: "arg_slot list \<Rightarrow> vav_error \<Rightarrow> (arg_slot list \<times> nat option) res" where
  "argv_error argv err = bindR (updR argv 0 (SlotErr err)) (\<lambda>argv. Inr (argv, None))"

text \<open>Whether \<open>sep\<close> is not NULL and \<open>*sep\<close> satisfies a predicate.\<close>

definition at_sep :: "byte list \<Rightarrow> nat option \<Rightarrow> (byte \<Rightarrow> bool) \<Rightarrow> bool res" where
  "at_sep t sep P = (case sep of None \<Rightarrow> Inr False | Some k \<Rightarrow> bindR (nthR t k) (\<lambda>c. Inr (P c)))"

text \<open>One argument: its bytes are read, stored, and the position behind its separator results.\<close>

definition read_arg ::
  "u32 \<Rightarrow> byte list \<Rightarrow> arg_slot list \<Rightarrow> nat \<Rightarrow> bool \<Rightarrow> nat \<Rightarrow> (vav_error + arg_slot list \<times> nat \<times> nat option) res" where
  "read_arg flag t argv nargv quote p = bindR (scan_arg flag t quote p) (\<lambda>r. case r of
       Inl err \<Rightarrow> Inr (Inl err)
     | Inr (b, sep) \<Rightarrow>
         if sep = None \<and> quote then Inr (Inl err_missing_quote)
         else bindR (new_arg flag t p b) (\<lambda>a.
           bindR (updR (grow_argv argv nargv) nargv (SlotArg a)) (\<lambda>argv.
           Inr (Inr (argv, if b < length t then b + 1 else b, sep)))))"

definition parse_arg ::
  "u32 \<Rightarrow> byte list \<Rightarrow> arg_slot list \<Rightarrow> nat \<Rightarrow> nat \<Rightarrow> (vav_error + arg_slot list \<times> nat \<times> nat option) res" where
  "parse_arg flag t argv nargv b = bindR (nthR t b) (\<lambda>c.
     if c = 0x22 \<and> \<not> has_flag flag ARGV_NOESC then read_arg flag t argv nargv True (b + 1)
     else read_arg flag t argv nargv False b)"

lemma scan_arg_forward: "scan_arg flag t quote b = Inr (Inr (b', sep)) \<Longrightarrow> b \<le> b'"
proof (induction flag t quote b rule: scan_arg.induct)
  case (1 flag t quote b)
  from 1(2) show ?case
  proof (cases rule: scan_arg_steps)
    case (step b1)
    then show ?thesis using 1(1) [OF step(1,2) refl step(3)] scan_round_forward [OF step(2)] by simp
  qed simp_all
qed

lemma read_arg_Inr:
  assumes "read_arg flag t argv nargv quote p = Inr (Inr (argv', b', sep))"
  obtains b where "scan_arg flag t quote p = Inr (Inr (b, sep))" "b' = (if b < length t then b + 1 else b)"
proof -
  obtain r where r: "scan_arg flag t quote p = Inr r" using assms by (auto simp: read_arg_def bindR_Inr_iff)
  then obtain b sep' where "r = Inr (b, sep')" using assms by (cases r) (auto simp: read_arg_def)
  then show ?thesis using assms r that by (auto simp: read_arg_def bindR_Inr_iff split: if_splits)
qed

lemma parse_arg_forward:
  "parse_arg flag t argv nargv b = Inr (Inr (argv', b', sep)) \<Longrightarrow> b < length t \<Longrightarrow> b < b'"
  by (auto simp: parse_arg_def split: if_splits elim!: read_arg_Inr dest!: scan_arg_forward)

text \<open>The outer loop: the vector and \<open>*argc\<close>, which is only set without an error.\<close>

function parse_args ::
  "u32 \<Rightarrow> byte list \<Rightarrow> arg_slot list \<Rightarrow> nat \<Rightarrow> nat \<Rightarrow> nat option \<Rightarrow> (arg_slot list \<times> nat option) res" where
  "parse_args flag t argv nargv b sep = (if b < length t then bindR (nthR t b) (\<lambda>c.
       if c_isspace c then parse_args flag t argv nargv (b + 1) sep
       else bindR (at_sep t sep c_isspace) (\<lambda>sp. bindR (at_sep t sep (\<lambda>d. d = 0x22)) (\<lambda>qt.
         if (sp \<or> qt) \<and> c = 0x2c \<and> has_flag flag ARGV_COMMA then parse_args flag t argv nargv (b + 1) None
         else if qt \<and> c = 0x22 \<and> b - the sep < 2 then argv_error argv err_missing_separator
         else if has_flag flag ARGV_COMMENT \<and> c = 0x23 then finish_argv t argv nargv None
         else bindR (parse_arg flag t argv nargv b) (\<lambda>r. case r of
           Inl err \<Rightarrow> argv_error argv err
         | Inr (argv', b', sep') \<Rightarrow> parse_args flag t argv' (nargv + 1) b' sep'))))
     else finish_argv t argv nargv sep)"
  by pat_completeness auto
termination
  by (relation "measure (\<lambda>(_, t, _, _, b, _). length t - b)") (auto dest!: parse_arg_forward)

declare parse_args.simps [simp del]

definition VAV_ParseTxt :: "byte list \<Rightarrow> u32 \<Rightarrow> (arg_slot list \<times> nat option) res" where
  "VAV_ParseTxt t flag = parse_args flag t (replicate 16 SlotNull) 1 0 None"

text \<open>\<open>VAV_Parse\<close> on a C string.\<close>

definition VAV_Parse :: "byte list \<Rightarrow> u32 \<Rightarrow> (arg_slot list \<times> nat option) res" where
  "VAV_Parse s flag = VAV_ParseTxt (takeWhile (\<lambda>c. c \<noteq> 0) s) flag"

text \<open>The loop of \<open>VAV_Free\<close>; an error message is not allocated and must not be freed.\<close>

fun free_slots :: "arg_slot list \<Rightarrow> unit res" where
  "free_slots [] = Inl Undefined"
| "free_slots (x # argv) = (case x of
      SlotNull \<Rightarrow> Inr ()
    | SlotUninit \<Rightarrow> Inl Undefined
    | SlotArg _ \<Rightarrow> free_slots argv
    | SlotErr _ \<Rightarrow> Inl Undefined)"

definition VAV_Free :: "arg_slot list \<Rightarrow> unit res" where
  "VAV_Free argv = free_slots (drop 1 argv)"

subsection \<open>Valid backslash sequences\<close>

lemma octal_loop_ok:
  "l \<le> length s \<Longrightarrow> r \<le> 4 \<Longrightarrow> r \<le> l \<Longrightarrow> okR (\<lambda>(r', _). r \<le> r' \<and> r' \<le> 4 \<and> r' \<le> l) (octal_loop s l r c)"
proof (induction s l r c rule: octal_loop.induct)
  case (1 s l r c)
  show ?case
  proof (cases "r < 4 \<and> r < l \<and> c_isdigit (s ! r) \<and> \<not> s ! r - 0x30 > 7")
    case True
    then have "okR (\<lambda>(r', _). r + 1 \<le> r' \<and> r' \<le> 4 \<and> r' \<le> l)
        (octal_loop s l (r + 1) (push_bit 3 c OR (s ! r - 0x30)))"
      by (intro 1(1)) (use 1(2-4) in auto)
    then show ?thesis using True 1(2) by (subst octal_loop.simps) (auto elim: okR_mono)
  next
    case False
    then show ?thesis using 1(2-4) by (subst octal_loop.simps) auto
  qed
qed

lemma octal_loop_shorter:
  "octal_loop s l r c = Inr (r', c') \<Longrightarrow> r' \<le> l' \<Longrightarrow> l' \<le> l \<Longrightarrow> l \<le> length s \<Longrightarrow> r \<le> l' \<Longrightarrow> r \<le> 4 \<Longrightarrow>
     octal_loop s l' r c = Inr (r', c')"
proof (induction s l r c rule: octal_loop.induct)
  case (1 s l r c)
  show ?case
  proof (cases "r < 4 \<and> r < l \<and> c_isdigit (s ! r) \<and> \<not> s ! r - 0x30 > 7")
    case True
    then have rec: "octal_loop s l (r + 1) (push_bit 3 c OR (s ! r - 0x30)) = Inr (r', c')"
      using 1(2,5) by (subst (asm) octal_loop.simps) simp
    moreover have "r + 1 \<le> r'"
      using octal_loop_ok [of l s "r + 1" "push_bit 3 c OR (s ! r - 0x30)"] rec 1(5) True by simp
    ultimately have "octal_loop s l' (r + 1) (push_bit 3 c OR (s ! r - 0x30)) = Inr (r', c')"
      using True 1(3-5) by (intro 1(1)) auto
    then show ?thesis using True \<open>r + 1 \<le> r'\<close> 1(3-5) by (subst octal_loop.simps) simp
  next
    case False
    then have "r' = r" "c' = c" using 1(2,5) by (subst (asm) octal_loop.simps; auto split: if_splits)+
    then show ?thesis using False 1(4,5) by (subst octal_loop.simps) auto
  qed
qed

lemma octal_digit: "0x30 \<le> d \<and> d \<le> 0x37 \<Longrightarrow> c_isdigit d \<and> \<not> d - 0x30 > (7 :: byte)"
proof -
  have "0x30 \<le> d \<and> d \<le> 0x37 \<longrightarrow> c_isdigit d \<and> \<not> d - 0x30 > (7 :: byte)"
    by (rule all_bytes [where P = "\<lambda>d. 0x30 \<le> d \<and> d \<le> 0x37 \<longrightarrow> c_isdigit d \<and> \<not> d - 0x30 > (7 :: byte)"]) code_simp
  then show "0x30 \<le> d \<and> d \<le> 0x37 \<Longrightarrow> ?thesis" by simp
qed

lemma dig_less: "dig base c = Some d \<Longrightarrow> d < base"
  by (auto simp: dig_def split: option.splits if_splits)

lemma VNUM_hex_two: "2 \<le> length b \<Longrightarrow> okR (\<lambda>(i, p). i \<le> 0xff) (VNUM_hex b (Some 2))"
proof -
  assume "2 \<le> length b"
  then obtain c d b' where "b = c # d # b'" by (cases b; cases "tl b") auto
  then have "okR (\<lambda>(i, p). i \<le> 0xff) (VNUM_hex b (Some (Suc (Suc 0))))"
    using dig_less [of 16 c] dig_less [of 16 d]
    by (cases "dig 16 c"; cases "dig 16 d") (auto simp: VNUM_hex_def vnum_uint_def hex_digit_eq Let_def)
  then show ?thesis by (simp add: numeral_2_eq_2)
qed

lemma backslash_eq:
  "l \<le> length s \<Longrightarrow> 2 \<le> l \<Longrightarrow> s ! 0 = 0x5c \<Longrightarrow> vav_backslash_txt s l = backslash_switch s l (s ! 1)"
  by (subgoal_tac "s \<noteq> []") (auto simp: vav_backslash_txt_def)

lemma backslash_ok:
  assumes "l \<le> length s" and "0 < l" and "s ! 0 = 0x5c"
  shows "okR (\<lambda>(i, d). i \<le> l \<and> (i \<noteq> 0 \<longrightarrow> 2 \<le> i \<and> d \<noteq> None)) (vav_backslash_txt s l)"
proof (cases "l < 2")
  case True
  then show ?thesis by (simp add: vav_backslash_txt_def)
next
  case False
  then have l: "2 \<le> l" by simp
  let ?P = "\<lambda>(i, d). i \<le> l \<and> (i \<noteq> 0 \<longrightarrow> 2 \<le> i \<and> d \<noteq> None)"
  have h: "okR ?P (bindR (VNUM_hex (drop 2 s) (Some 2)) (\<lambda>(i, p).
       if i \<ge> 0 \<and> p = 2 then guardR AssertFail (i \<le> 0xff) (Inr (4, Some (of_int i))) else Inr (0, Some 0)))"
    if "4 \<le> l"
  proof -
    have "okR (\<lambda>(i, p). i \<le> 255) (VNUM_hex (drop 2 s) (Some 2))"
      using that assms(1) by (intro VNUM_hex_two) simp
    then show ?thesis using that by (auto simp: okR_def)
  qed
  have o: "okR ?P (bindR (octal_loop s l 1 0) (\<lambda>(r, c). Inr (r, Some c)))" if "0x30 \<le> s ! 1 \<and> s ! 1 \<le> 0x37"
  proof -
    have "okR (\<lambda>(r', _). 2 \<le> r' \<and> r' \<le> 4 \<and> r' \<le> l) (octal_loop s l 2 (push_bit 3 0 OR (s ! 1 - 0x30)))"
      using l assms by (intro octal_loop_ok) auto
    moreover have "octal_loop s l 1 0 = octal_loop s l 2 (push_bit 3 0 OR (s ! 1 - 0x30))"
      using l assms(1) octal_digit [OF that] by (subst octal_loop.simps) (simp add: numeral_2_eq_2)
    ultimately show ?thesis by (auto simp: okR_def)
  qed
  show ?thesis unfolding backslash_eq [OF assms(1) l assms(3)] backslash_switch_def
    using l h o by (intro okR_if) simp_all
qed

text \<open>A valid sequence stays valid, with the same result, when the text is cut behind it.\<close>

lemma backslash_shorter:
  assumes "l \<le> length s" and "s ! 0 = 0x5c" and "vav_backslash_txt s l = Inr (i, d)" and "i \<noteq> 0"
    and "i \<le> l'" and "l' \<le> l"
  shows "vav_backslash_txt s l' = Inr (i, d)"
proof -
  have "2 \<le> i" "i \<le> l" using backslash_ok [of l s] assms by auto
  then have l: "2 \<le> l" "2 \<le> l'" using assms(5) by auto
  have b: "backslash_switch s l (s ! 1) = Inr (i, d)" using backslash_eq [OF assms(1) l(1) assms(2)] assms(3) by simp
  have o: "octal_loop s l' 1 0 = Inr (i, c)" if "octal_loop s l 1 0 = Inr (i, c)" for c
    using octal_loop_shorter [OF that assms(5,6,1)] l by simp
  have "backslash_switch s l' (s ! 1) = Inr (i, d)"
    using b assms(4-6) unfolding backslash_switch_def by (auto simp: res_iffs split: if_splits dest: o [unfolded One_nat_def])
  then show ?thesis using backslash_eq [of l' s] l assms(1,2,6) by simp
qed

subsection \<open>Scanning an argument\<close>

text \<open>One round advances over one byte or over one valid sequence.\<close>

definition item :: "byte list \<Rightarrow> nat \<Rightarrow> nat \<Rightarrow> bool" where
  "item t b b1 = (if t ! b = 0x5c
     then \<exists>i d. vav_backslash_txt (drop b t) (length t - b) = Inr (i, Some d) \<and> i \<noteq> 0 \<and> b1 = b + i
     else b1 = b + 1)"

lemma scan_round_ok:
  assumes "b < length t"
  shows "okR (\<lambda>r. case r of
      Inr b1 \<Rightarrow> b < b1 \<and> b1 \<le> length t \<and> (\<not> has_flag flag ARGV_NOESC \<longrightarrow> item t b b1)
    | Inl x \<Rightarrow> (case x of Inl _ \<Rightarrow> True | Inr (b', sep) \<Rightarrow> b' = b \<and> sep = Some b)) (scan_round flag t quote b)"
proof (cases "t ! b = 0x5c \<and> \<not> has_flag flag ARGV_NOESC")
  case True
  then have "okR (\<lambda>(i, d). i \<le> length t - b \<and> (i \<noteq> 0 \<longrightarrow> 2 \<le> i \<and> d \<noteq> None))
      (vav_backslash_txt (drop b t) (length t - b))"
    using assms by (intro backslash_ok) auto
  then show ?thesis using True assms by (auto simp: scan_round_def okR_def item_def)
next
  case False
  then show ?thesis using assms by (auto simp: scan_round_def item_def)
qed

text \<open>What was scanned decodes, also when the text ends there.\<close>

lemma decode_item:
  assumes "item t b b1" and "b < length t" and "b1 + n \<le> length t"
    and "VAV_BackSlashDecode (drop b1 t) n = Inr (Some a)"
  shows "\<exists>a. VAV_BackSlashDecode (drop b t) (b1 - b + n) = Inr (Some a)"
proof (cases "t ! b = 0x5c")
  case True
  then obtain i d where i: "vav_backslash_txt (drop b t) (length t - b) = Inr (i, Some d)" "i \<noteq> 0" "b1 = b + i"
    using assms(1) by (auto simp: item_def)
  have "vav_backslash_txt (drop b t) (i + n) = Inr (i, Some d)"
    by (rule backslash_shorter [OF _ _ i(1,2)]) (use True assms(2,3) i(3) in auto)
  then show ?thesis using True i assms(2,4)
    by (subst VAV_BackSlashDecode.simps) (simp add: add.commute)
next
  case False
  then show ?thesis using assms
    by (subst VAV_BackSlashDecode.simps) (simp add: item_def add.commute)
qed

lemma scan_arg_ok:
  "b \<le> length t \<Longrightarrow> okR (\<lambda>r. case r of Inl _ \<Rightarrow> True | Inr (b', sep) \<Rightarrow>
      b \<le> b' \<and> b' \<le> length t \<and> (\<forall>k. sep = Some k \<longrightarrow> k < length t) \<and>
      (\<not> has_flag flag ARGV_NOESC \<longrightarrow> (\<exists>a. VAV_BackSlashDecode (drop b t) (b' - b) = Inr (Some a))))
    (scan_arg flag t quote b)"
proof (induction flag t quote b rule: scan_arg.induct)
  case (1 flag t quote b)
  show ?case
  proof (cases "b < length t")
    case True
    obtain r where r: "scan_round flag t quote b = Inr r" and
      ok: "case r of Inr b1 \<Rightarrow> b < b1 \<and> b1 \<le> length t \<and> (\<not> has_flag flag ARGV_NOESC \<longrightarrow> item t b b1)
        | Inl x \<Rightarrow> (case x of Inl _ \<Rightarrow> True | Inr (b', sep) \<Rightarrow> b' = b \<and> sep = Some b)"
      using scan_round_ok [OF True, of flag quote] by (auto simp: okR_def)
    show ?thesis
    proof (cases r)
      case (Inl x)
      then show ?thesis using r ok True
        by (subst scan_arg.simps) (auto simp: VAV_BackSlashDecode.simps split: sum.splits)
    next
      case (Inr b1)
      then have b1: "b < b1" "b1 \<le> length t" "\<not> has_flag flag ARGV_NOESC \<longrightarrow> item t b b1" using ok by auto
      have dec: "\<exists>a. VAV_BackSlashDecode (drop b t) (b' - b) = Inr (Some a)"
        if "\<not> has_flag flag ARGV_NOESC" "b1 \<le> b'" "b' \<le> length t" "VAV_BackSlashDecode (drop b1 t) (b' - b1) = Inr (Some a)" for b' a
        using decode_item [of t b b1 "b' - b1" a] that b1 True by simp
      show ?thesis using 1(1) [OF True r Inr b1(2)] r Inr True b1
        by (subst scan_arg.simps) (auto elim!: okR_mono split: sum.splits, use dec in blast)
    qed
  next
    case False
    then show ?thesis using 1(2) by (subst scan_arg.simps) (simp add: VAV_BackSlashDecode.simps)
  qed
qed

subsection \<open>The vector\<close>

text \<open>
  The vector during parsing: slot 0 and \<open>nargv - 1\<close> arguments are filled, two more slots are there,
  and what \<open>realloc\<close> added is not initialised.
\<close>

definition filled :: "arg_slot list \<Rightarrow> nat \<Rightarrow> byte list list \<Rightarrow> bool" where
  "filled argv nargv as = (nargv = length as + 1 \<and> nargv + 2 \<le> length argv \<and> 16 \<le> length argv \<and>
     take nargv argv = SlotNull # map SlotArg as \<and>
     (\<forall>i. nargv \<le> i \<and> 16 \<le> i \<and> i < length argv \<longrightarrow> argv ! i = SlotUninit))"

lemma filled_init: "filled (replicate 16 SlotNull) 1 []"
  by (simp add: filled_def numeral_eq_Suc)

lemma filled_grow:
  assumes "filled argv nargv as"
  shows "filled (grow_argv argv nargv) nargv as" and "nargv + 3 \<le> length (grow_argv argv nargv)"
  using assms by (auto simp: filled_def grow_argv_def nth_append)

lemma filled_store:
  assumes "filled argv nargv as"
  shows "\<exists>argv'. updR (grow_argv argv nargv) nargv (SlotArg a) = Inr argv' \<and> filled argv' (nargv + 1) (as @ [a])"
proof -
  let ?g = "grow_argv argv nargv"
  have g: "filled ?g nargv as" "nargv + 3 \<le> length ?g" using filled_grow [OF assms] by auto
  have "take (nargv + 1) (?g[nargv := SlotArg a]) = take nargv ?g @ [SlotArg a]"
    using g(2) by (simp add: take_Suc_conv_app_nth)
  then have "filled (?g[nargv := SlotArg a]) (nargv + 1) (as @ [a])"
    using g by (auto simp: filled_def nth_list_update)
  then show ?thesis using g(2) by (simp add: updR_def)
qed

text \<open>The vector at the end: the arguments and the terminating null pointer.\<close>

definition argv_of :: "arg_slot list \<Rightarrow> byte list list \<Rightarrow> bool" where
  "argv_of argv as = (take (length as + 2) argv = SlotNull # map SlotArg as @ [SlotNull])"

lemma free_slots_args: "free_slots (map SlotArg as @ SlotNull # xs) = Inr ()"
  by (induction as) auto

lemma argv_of_free: "argv_of argv as \<Longrightarrow> VAV_Free argv = Inr ()"
proof -
  assume "argv_of argv as"
  then have "argv = (SlotNull # map SlotArg as @ [SlotNull]) @ drop (length as + 2) argv"
    unfolding argv_of_def by (metis append_take_drop_id)
  then have "drop 1 argv = map SlotArg as @ SlotNull # drop (length as + 2) argv"
    by (metis One_nat_def append_Cons append_Nil append_assoc drop0 drop_Suc_Cons)
  then show ?thesis by (simp add: VAV_Free_def free_slots_args)
qed

lemma free_slots_uninit: "free_slots (map SlotArg as @ SlotUninit # xs) = Inl Undefined"
  by (induction as) auto

lemma filled_free: "filled argv nargv as \<Longrightarrow> 16 \<le> nargv \<Longrightarrow> VAV_Free (argv[0 := x]) = Inl Undefined"
proof -
  assume f: "filled argv nargv as" and n: "16 \<le> nargv"
  then have "drop nargv argv = SlotUninit # drop (Suc nargv) argv"
    by (auto simp: filled_def Cons_nth_drop_Suc [symmetric])
  then have "argv = (SlotNull # map SlotArg as) @ SlotUninit # drop (Suc nargv) argv"
    using f unfolding filled_def by (metis append_take_drop_id)
  then have "drop 1 (argv[0 := x]) = map SlotArg as @ SlotUninit # drop (Suc nargv) argv"
    by (metis One_nat_def append_Cons drop0 drop_Suc_Cons list_update_code(2))
  then show ?thesis by (simp add: VAV_Free_def free_slots_uninit)
qed

lemma filled_null: "filled argv nargv as \<Longrightarrow> argv_of (argv[nargv := SlotNull]) as"
  by (auto simp: filled_def argv_of_def take_Suc_conv_app_nth)

lemma filled_add:
  "filled argv nargv as \<Longrightarrow> argv_of (argv[nargv := SlotArg a, Suc nargv := SlotNull]) (as @ [a])"
  by (auto simp: filled_def argv_of_def take_Suc_conv_app_nth nth_list_update)

text \<open>What \<open>VAV_ParseTxt\<close> promises of its result.\<close>

definition parsed :: "arg_slot list \<times> nat option \<Rightarrow> bool" where
  "parsed = (\<lambda>(argv, argc). case argc of
      None \<Rightarrow> \<exists>err. argv ! 0 = SlotErr err
    | Some n \<Rightarrow> \<exists>as. n = length as + 1 \<and> argv_of argv as)"

lemma finish_argv_filled:
  assumes "filled argv nargv as" and "\<forall>k. sep = Some k \<longrightarrow> k < length t"
  shows "okR parsed (finish_argv t argv nargv sep)"
proof (cases "\<exists>k. sep = Some k \<and> t ! k = 0x2c")
  case True
  then show ?thesis using assms filled_add [OF assms(1), of "[]"]
    by (auto simp: finish_argv_def parsed_def updR_def filled_def intro!: exI [of _ "as @ [[]]"])
next
  case False
  then show ?thesis using assms filled_null [OF assms(1)]
    by (auto simp: finish_argv_def parsed_def updR_def filled_def intro!: exI [of _ as] split: option.splits)
qed

lemma argv_error_filled: "filled argv nargv as \<Longrightarrow> okR parsed (argv_error argv err)"
  by (cases argv) (auto simp: argv_error_def parsed_def updR_def filled_def)

subsection \<open>Parsing is safe\<close>

lemma new_arg_ok:
  assumes "\<not> has_flag flag ARGV_NOESC \<longrightarrow> (\<exists>a. VAV_BackSlashDecode (drop p t) (b - p) = Inr (Some a))"
  shows "\<exists>a. new_arg flag t p b = Inr a"
  using assms by (auto simp: new_arg_def)

lemma read_arg_ok:
  assumes "filled argv nargv as" and "p \<le> length t"
  shows "okR (\<lambda>r. case r of Inl _ \<Rightarrow> True | Inr (argv', b', sep) \<Rightarrow>
      (\<exists>a. filled argv' (nargv + 1) (as @ [a])) \<and> (\<forall>k. sep = Some k \<longrightarrow> k < length t))
    (read_arg flag t argv nargv q p)"
proof -
  obtain r where r: "scan_arg flag t q p = Inr r" and ok: "case r of Inl _ \<Rightarrow> True | Inr (b', sep) \<Rightarrow>
      p \<le> b' \<and> b' \<le> length t \<and> (\<forall>k. sep = Some k \<longrightarrow> k < length t) \<and>
      (\<not> has_flag flag ARGV_NOESC \<longrightarrow> (\<exists>a. VAV_BackSlashDecode (drop p t) (b' - p) = Inr (Some a)))"
    using scan_arg_ok [OF assms(2), of flag q] unfolding okR_def by blast
  show ?thesis
  proof (cases r)
    case (Inl x)
    then show ?thesis by (simp add: read_arg_def r)
  next
    case (Inr x)
    obtain b' sep where x: "x = (b', sep)" by (cases x)
    obtain a where a: "new_arg flag t p b' = Inr a" using new_arg_ok [of flag p t b'] ok Inr x by auto
    obtain argv' where "updR (grow_argv argv nargv) nargv (SlotArg a) = Inr argv'" "filled argv' (nargv + 1) (as @ [a])"
      using filled_store [OF assms(1), of a] by auto
    then show ?thesis using ok a Inr x by (auto simp: read_arg_def r)
  qed
qed

lemma parse_arg_ok:
  assumes "filled argv nargv as" and "b < length t"
  shows "okR (\<lambda>r. case r of Inl _ \<Rightarrow> True | Inr (argv', b', sep) \<Rightarrow>
      (\<exists>a. filled argv' (nargv + 1) (as @ [a])) \<and> (\<forall>k. sep = Some k \<longrightarrow> k < length t))
    (parse_arg flag t argv nargv b)"
  unfolding parse_arg_def nthR_in [OF assms(2)] bindR_simps
  by (intro okR_if read_arg_ok [OF assms(1)]) (use assms(2) in simp_all)

lemma at_sep_ok: "(\<forall>k. sep = Some k \<longrightarrow> k < length t) \<Longrightarrow>
    at_sep t sep P = Inr (\<exists>k. sep = Some k \<and> P (t ! k))"
  by (auto simp: at_sep_def split: option.splits)

lemma parse_args_ok:
  "filled argv nargv as \<Longrightarrow> (\<forall>k. sep = Some k \<longrightarrow> k < length t) \<Longrightarrow> okR parsed (parse_args flag t argv nargv b sep)"
proof (induction flag t argv nargv b sep arbitrary: as rule: parse_args.induct)
  case (1 flag t argv nargv b sep)
  note IH = 1(1-3) and fi = 1(4) and sep = 1(5)
  show ?case
  proof (cases "b < length t")
    case b: True
    have c: "nthR t b = Inr (t ! b)" using b by simp
    have sp: "at_sep t sep c_isspace = Inr (\<exists>k. sep = Some k \<and> c_isspace (t ! k))"
      and qt: "at_sep t sep (\<lambda>d. d = 0x22) = Inr (\<exists>k. sep = Some k \<and> t ! k = 0x22)"
      by (auto simp: at_sep_ok sep)
    have arg: "okR parsed (bindR (parse_arg flag t argv nargv b) (\<lambda>r. case r of
           Inl err \<Rightarrow> argv_error argv err
         | Inr (argv', b', sep') \<Rightarrow> parse_args flag t argv' (nargv + 1) b' sep'))"
      if nsp: "\<not> c_isspace (t ! b)"
        "\<not> (((\<exists>k. sep = Some k \<and> c_isspace (t ! k)) \<or> (\<exists>k. sep = Some k \<and> t ! k = 0x22)) \<and> t ! b = 0x2c \<and> has_flag flag ARGV_COMMA)"
        "\<not> ((\<exists>k. sep = Some k \<and> t ! k = 0x22) \<and> t ! b = 0x22 \<and> b - the sep < 2)"
        "\<not> (has_flag flag ARGV_COMMENT \<and> t ! b = 0x23)"
    proof -
      obtain r where r: "parse_arg flag t argv nargv b = Inr r"
        and ok: "case r of Inl _ \<Rightarrow> True | Inr (argv', b', sep) \<Rightarrow>
          (\<exists>a. filled argv' (nargv + 1) (as @ [a])) \<and> (\<forall>k. sep = Some k \<longrightarrow> k < length t)"
        using parse_arg_ok [OF fi b, of flag] by (auto simp: okR_def)
      have "okR parsed (parse_args flag t argv' (nargv + 1) b' sep')" if "r = Inr (argv', b', sep')" for argv' b' sep'
        using IH(3) [OF b c nsp(1) sp qt nsp(2-4) r that refl refl] ok that by auto
      then show ?thesis using argv_error_filled [OF fi] by (auto simp: r split: sum.splits)
    qed
    show ?thesis unfolding parse_args.simps [of flag t argv nargv b sep]
      apply (simp only: b c sp qt if_True bindR_simps)
      apply (intro okR_if)
          apply (rule IH(1) [OF b c _ fi sep], assumption)
         apply (rule IH(2) [OF b c _ sp qt _ fi], assumption, assumption, simp)
        apply (rule argv_error_filled [OF fi])
       apply (rule finish_argv_filled [OF fi], simp)
      apply (rule arg; assumption)
      done
  next
    case False
    then show ?thesis using finish_argv_filled [OF fi sep] by (subst parse_args.simps) simp
  qed
qed

text \<open>
  C11.  For every text and all flags, \<open>VAV_ParseTxt\<close> fails no assertion and reads and writes only inside
  the text and the vector.  If it sets \<open>*argc\<close>, slot 0 is a null pointer, the other slots up to
  \<open>argc\<close> hold arguments and a null pointer follows, so that \<open>VAV_Free\<close> frees the arguments and stops;
  if not, slot 0 is an error message.
\<close>

theorem VAV_ParseTxt_safe:
  "\<exists>argv argc. VAV_ParseTxt t flag = Inr (argv, argc) \<and> (case argc of
      None \<Rightarrow> \<exists>err. argv ! 0 = SlotErr err
    | Some n \<Rightarrow> \<exists>as. n = length as + 1 \<and> take (n + 1) argv = SlotNull # map SlotArg as @ [SlotNull] \<and>
        VAV_Free argv = Inr ())"
proof -
  obtain argv argc where "VAV_ParseTxt t flag = Inr (argv, argc)" "parsed (argv, argc)"
    using parse_args_ok [OF filled_init, where sep = None and t = t and flag = flag and b = 0] by (auto simp: VAV_ParseTxt_def okR_def)
  moreover have "VAV_Free argv = Inr ()" if "argv_of argv as" for as using argv_of_free [OF that] .
  ultimately show ?thesis by (auto simp: parsed_def argv_of_def split: option.splits)
qed

subsection \<open>Quoted arguments\<close>

text \<open>An argument in quotes, with quotes and backslashes escaped.\<close>

definition esc_arg :: "byte list \<Rightarrow> byte list" where
  "esc_arg a = concat (map (\<lambda>c. if c = 0x22 \<or> c = 0x5c then [0x5c, c] else [c]) a)"

definition quote_arg :: "byte list \<Rightarrow> byte list" where
  "quote_arg a = 0x22 # esc_arg a @ [0x22]"

lemma esc_arg_simps [simp]:
  "esc_arg [] = []"
  "esc_arg (c # a) = (if c = 0x22 \<or> c = 0x5c then [0x5c, c] else [c]) @ esc_arg a"
  by (simp_all add: esc_arg_def)

lemma backslash_escaped:
  "c = 0x22 \<or> c = 0x5c \<Longrightarrow> 2 \<le> l \<Longrightarrow> l \<le> length r + 2 \<Longrightarrow>
     vav_backslash_txt (0x5c # c # r) l = Inr (2, Some c)"
  by (subst backslash_eq) (auto simp: backslash_switch_def)

lemma decode_esc_arg: "VAV_BackSlashDecode (esc_arg a @ r) (length (esc_arg a)) = Inr (Some a)"
proof (induction a)
  case Nil
  then show ?case by (simp add: VAV_BackSlashDecode.simps)
next
  case (Cons c a)
  then show ?case by (subst VAV_BackSlashDecode.simps) (auto simp: backslash_escaped)
qed

lemma drop_at:
  assumes "drop b t = c # r"
  shows "b < length t" and "t ! b = c" and "drop (Suc b) t = r"
proof -
  show "b < length t" using assms by (metis drop_all list.distinct(1) not_le)
  then show "t ! b = c" and "drop (Suc b) t = r" using assms Cons_nth_drop_Suc [of b t] by simp_all
qed

lemma scan_esc_arg:
  "drop b t = esc_arg a @ 0x22 # r \<Longrightarrow> \<not> has_flag flag ARGV_NOESC \<Longrightarrow>
     scan_arg flag t True b = Inr (Inr (b + length (esc_arg a), Some (b + length (esc_arg a))))"
proof (induction a arbitrary: b)
  case Nil
  then show ?case using drop_at [of b t "0x22" r] by (subst scan_arg.simps) (simp add: scan_round_def)
next
  case (Cons c a)
  show ?case
  proof (cases "c = 0x22 \<or> c = 0x5c")
    case True
    then have d: "drop b t = 0x5c # c # esc_arg a @ 0x22 # r" using Cons.prems by auto
    note d1 = drop_at [OF d] and d2 = drop_at [OF drop_at(3) [OF d]]
    have l: "length t - b = length (drop b t)" by simp
    have "scan_round flag t True b = Inr (Inr (b + 2))"
      using d1 Cons.prems(2) True unfolding scan_round_def l d by (simp add: backslash_escaped)
    then show ?thesis using Cons.IH [of "b + 2"] d1 d2 Cons.prems(2) True by (subst scan_arg.simps) auto
  next
    case False
    then have d: "drop b t = c # esc_arg a @ 0x22 # r" using Cons.prems by auto
    note d1 = drop_at [OF d]
    have "scan_round flag t True b = Inr (Inr (b + 1))"
      using d1 False by (simp add: scan_round_def)
    then show ?thesis using Cons.IH [of "b + 1"] d1 Cons.prems(2) False by (subst scan_arg.simps) auto
  qed
qed

lemma parse_quoted:
  assumes "drop b t = quote_arg a @ r" and "\<not> has_flag flag ARGV_NOESC" and "filled argv nargv as"
  shows "\<exists>argv'. parse_arg flag t argv nargv b =
      Inr (Inr (argv', b + length (quote_arg a), Some (b + length (quote_arg a) - 1))) \<and>
    filled argv' (nargv + 1) (as @ [a])"
proof -
  have d: "drop b t = 0x22 # esc_arg a @ 0x22 # r" using assms(1) by (simp add: quote_arg_def)
  note d1 = drop_at [OF d]
  have e: "drop (Suc b + length (esc_arg a)) t = 0x22 # r"
    using d1(3) by (metis append_eq_conv_conj drop_drop add.commute)
  have "new_arg flag t (Suc b) (Suc b + length (esc_arg a)) = Inr a"
    using assms(2) d1(3) by (simp add: new_arg_def decode_esc_arg)
  moreover have "scan_arg flag t True (Suc b) =
      Inr (Inr (Suc b + length (esc_arg a), Some (Suc b + length (esc_arg a))))"
    by (rule scan_esc_arg [OF d1(3) assms(2)])
  ultimately show ?thesis using d1 drop_at(1) [OF e] assms(2) filled_store [OF assms(3), of a]
    by (auto simp: parse_arg_def read_arg_def quote_arg_def)
qed

text \<open>The separator after a quoted argument and a blank, or none.\<close>

definition far_sep :: "byte list \<Rightarrow> nat \<Rightarrow> nat option \<Rightarrow> bool" where
  "far_sep t b sep = (\<forall>k. sep = Some k \<longrightarrow> k + 2 \<le> b \<and> k < length t \<and> t ! k = 0x22)"

lemma c_isspace_simps [simp]: "c_isspace 0x20" "\<not> c_isspace 0x22"
  by (simp_all add: c_isspace_def)

lemma parse_args_quote:
  assumes "b < length t" and "t ! b = 0x22" and "far_sep t b sep"
  shows "parse_args flag t argv nargv b sep = bindR (parse_arg flag t argv nargv b) (\<lambda>r. case r of
       Inl err \<Rightarrow> argv_error argv err
     | Inr (argv', b', sep') \<Rightarrow> parse_args flag t argv' (nargv + 1) b' sep')"
  using assms by (subst parse_args.simps) (auto simp: at_sep_ok far_sep_def)

lemma parse_args_quoted:
  assumes "drop b t = quote_arg a @ 0x20 # r" and "\<not> has_flag flag ARGV_NOESC" and "filled argv nargv as"
    and "far_sep t b sep"
  shows "\<exists>argv' b' sep'. parse_args flag t argv nargv b sep = parse_args flag t argv' (nargv + 1) b' sep' \<and>
    filled argv' (nargv + 1) (as @ [a]) \<and> drop b' t = r \<and> far_sep t b' sep'"
proof -
  let ?b = "b + length (quote_arg a)"
  have d: "drop b t = 0x22 # esc_arg a @ 0x22 # 0x20 # r" using assms(1) by (simp add: quote_arg_def)
  have e: "drop ?b t = 0x20 # r" using assms(1) by (metis append_eq_conv_conj drop_drop add.commute)
  have "drop (b + 1 + length (esc_arg a)) t = 0x22 # 0x20 # r"
    using drop_at(3) [OF d] by (metis append_eq_conv_conj drop_drop add.commute Suc_eq_plus1)
  then have k: "?b - 1 < length t" "t ! (?b - 1) = 0x22" by (auto dest: drop_at simp: quote_arg_def)
  obtain argv' where a: "parse_arg flag t argv nargv b = Inr (Inr (argv', ?b, Some (?b - 1)))"
    "filled argv' (nargv + 1) (as @ [a])"
    using parse_quoted [OF assms(1-3)] by auto
  have "parse_args flag t argv' (nargv + 1) ?b (Some (?b - 1)) = parse_args flag t argv' (nargv + 1) (?b + 1) (Some (?b - 1))"
    using drop_at [OF e] by (subst parse_args.simps) simp
  then have "parse_args flag t argv nargv b sep = parse_args flag t argv' (nargv + 1) (?b + 1) (Some (?b - 1))"
    using parse_args_quote [OF _ _ assms(4)] drop_at [OF d] a(1) by simp
  moreover have "far_sep t (?b + 1) (Some (?b - 1))" using k by (simp add: far_sep_def quote_arg_def)
  ultimately show ?thesis using a(2) drop_at(3) [OF e] by (metis Suc_eq_plus1)
qed

text \<open>A sequence of quoted arguments, each followed by a blank.\<close>

definition quote_args :: "byte list list \<Rightarrow> byte list" where
  "quote_args as = concat (map (\<lambda>a. quote_arg a @ [0x20]) as)"

lemma quote_args_simps [simp]:
  "quote_args [] = []"
  "quote_args (a # as) = quote_arg a @ 0x20 # quote_args as"
  by (simp_all add: quote_args_def)

lemma parse_args_quote_args:
  "drop b t = quote_args bs @ r \<Longrightarrow> \<not> has_flag flag ARGV_NOESC \<Longrightarrow> filled argv nargv as \<Longrightarrow> far_sep t b sep \<Longrightarrow>
   \<exists>argv' b' sep'. parse_args flag t argv nargv b sep = parse_args flag t argv' (nargv + length bs) b' sep' \<and>
     filled argv' (nargv + length bs) (as @ bs) \<and> drop b' t = r \<and> far_sep t b' sep'"
proof (induction bs arbitrary: argv nargv as b sep)
  case Nil
  then show ?case by auto
next
  case (Cons a bs)
  then obtain argv1 b1 sep1 where 1: "parse_args flag t argv nargv b sep = parse_args flag t argv1 (nargv + 1) b1 sep1"
    "filled argv1 (nargv + 1) (as @ [a])" "drop b1 t = quote_args bs @ r" "far_sep t b1 sep1"
    using parse_args_quoted [of b t a "quote_args bs @ r" flag argv nargv as sep] by auto
  then show ?case using Cons.IH [OF 1(3) Cons.prems(2) 1(2,4)] by simp
qed

lemma VAV_ParseTxt_quote_args:
  assumes "\<not> has_flag flag ARGV_NOESC"
  obtains argv b sep where
    "VAV_ParseTxt (quote_args as @ r) flag = parse_args flag (quote_args as @ r) argv (length as + 1) b sep"
    "filled argv (length as + 1) as" "drop b (quote_args as @ r) = r" "far_sep (quote_args as @ r) b sep"
  using parse_args_quote_args [of 0 "quote_args as @ r" as r flag "replicate 16 SlotNull" 1 "[]" None] assms filled_init
  by (auto simp: VAV_ParseTxt_def far_sep_def)

text \<open>
  C12.  Arguments written in quotes, with each quote and each backslash in them escaped by a backslash
  and a blank after each argument, are read back as they were, whatever bytes they hold and
  however many there are, if the flags do not switch escapes off.
\<close>

theorem VAV_ParseTxt_quoted:
  assumes "\<not> has_flag flag ARGV_NOESC"
  shows "\<exists>argv. VAV_ParseTxt (quote_args as) flag = Inr (argv, Some (length as + 1)) \<and>
    take (length as + 2) argv = SlotNull # map SlotArg as @ [SlotNull]"
proof -
  let ?t = "quote_args as @ []"
  obtain argv b sep where p: "VAV_ParseTxt ?t flag = parse_args flag ?t argv (length as + 1) b sep"
    "filled argv (length as + 1) as" "drop b ?t = []" "far_sep ?t b sep"
    by (rule VAV_ParseTxt_quote_args [OF assms])
  have "parse_args flag ?t argv (length as + 1) b sep = finish_argv ?t argv (length as + 1) sep"
    using p(3) by (subst parse_args.simps) simp
  also have "\<dots> = Inr (argv[length as + 1 := SlotNull], Some (length as + 1))"
    using p(2,4) by (auto simp: finish_argv_def far_sep_def filled_def updR_def split: option.splits)
  finally show ?thesis using p(1) filled_null [OF p(2)] by (simp add: argv_of_def)
qed

theorem VAV_ParseTxt_quoted_witness:
  "\<exists>argv. VAV_ParseTxt (quote_args [[0x61, 0x22], [], [0x23, 0x2c, 0x20, 0x5c]]) ARGV_COMMA = Inr (argv, Some 4) \<and>
     take 5 argv = [SlotNull, SlotArg [0x61, 0x22], SlotArg [], SlotArg [0x23, 0x2c, 0x20, 0x5c], SlotNull]"
  using VAV_ParseTxt_quoted [of ARGV_COMMA "[[0x61, 0x22], [], [0x23, 0x2c, 0x20, 0x5c]]"]
  by (simp add: has_flag_def eval_nat_numeral)

text \<open>
  C38.  After fifteen or more quoted arguments an unterminated quote makes \<open>VAV_ParseTxt\<close> return its
  error with a vector that no null pointer terminates: \<open>VAV_Free\<close> then reads a slot that \<open>realloc\<close>
  added and nothing wrote.
\<close>

theorem VAV_Free_after_error:
  assumes "\<not> has_flag flag ARGV_NOESC" and "15 \<le> length as"
  shows "\<exists>argv. VAV_ParseTxt (quote_args as @ [0x22]) flag = Inr (argv, None) \<and>
    argv ! 0 = SlotErr err_missing_quote \<and> VAV_Free argv = Inl Undefined"
proof -
  let ?t = "quote_args as @ [0x22]"
  obtain argv b sep where p: "VAV_ParseTxt ?t flag = parse_args flag ?t argv (length as + 1) b sep"
    "filled argv (length as + 1) as" "drop b ?t = [0x22]" "far_sep ?t b sep"
    by (rule VAV_ParseTxt_quote_args [OF assms(1)])
  note d = drop_at [OF p(3)]
  have "length ?t \<le> Suc b" using d(3) by (simp only: drop_eq_Nil)
  then have "scan_arg flag ?t True (Suc b) = Inr (Inr (Suc b, None))" by (subst scan_arg.simps) simp
  then have "parse_arg flag ?t argv (length as + 1) b = Inr (Inl err_missing_quote)"
    using d(1,2) assms(1) unfolding parse_arg_def nthR_in [OF d(1)] by (simp add: read_arg_def)
  then have "VAV_ParseTxt ?t flag = Inr (argv[0 := SlotErr err_missing_quote], None)"
    using p(2) unfolding p(1) parse_args_quote [OF d(1,2) p(4)] by (auto simp: argv_error_def updR_def filled_def)
  moreover have "VAV_Free (argv[0 := SlotErr err_missing_quote]) = Inl Undefined"
    using filled_free [OF p(2)] assms(2) by simp
  moreover have "argv \<noteq> []" using p(2) by (auto simp: filled_def)
  ultimately show ?thesis by (cases argv) auto
qed

theorem VAV_Free_after_error_witness:
  "\<exists>argv. VAV_ParseTxt (quote_args (replicate 15 [0x61]) @ [0x22]) 0 = Inr (argv, None) \<and>
     argv ! 0 = SlotErr err_missing_quote \<and> VAV_Free argv = Inl Undefined"
  using VAV_Free_after_error [of 0 "replicate 15 [0x61]"] by (simp add: has_flag_def)

end
