(* ===== verification/Macro.thy ===== *)
theory Macro
  imports Vav
begin

text \<open>
  The macro facility of the test language, in \<open>src/vtc.c\<close>, and the macro functions of
  \<open>src/vtc_main.c\<close>.

  \<^item> A C string is the list of its bytes without the terminating NUL; \<open>macro_list\<close> is a list of
    \<open>macro\<close>.  The text that a format and its arguments give is an argument of the definitions.  The
    locks protect the list against other threads and have no counterpart.
  \<^item> \<open>ign_unknown_macro\<close>, the current date as \<open>VTIM_format\<close> writes it and the functions that an
    extension registers are the fields of \<open>macro_env\<close>.
  \<^item> Properties: the list refines a finite map (locale \<open>binding_table\<close>); expansion replaces each
    reference by its value; a reference without its closing brace doubles the text before it;
    defining a value for a macro that is a function makes its next use fail an assertion.
\<close>

subsection \<open>The macro list\<close>

type_synonym cstring = "byte list"

text \<open>\<open>macro_f\<close>: the functions of \<open>vtc_main.c\<close> and those of extensions.\<close>

datatype macro_f = macro_func_date | macro_func_string | macro_func_ext nat

datatype macro_error =
    err_takes_no_arguments
  | err_repeat_arguments
  | err_repetitions
  | err_missing_action
  | err_unknown_action
  | err_number num_error
  | err_ext nat

record macro =
  m_name :: cstring
  m_val :: "cstring option"
  m_func :: "macro_f option"

text \<open>The loop that looks for a name; the first macro with it is updated or removed.\<close>

primrec find_macro :: "cstring \<Rightarrow> macro list \<Rightarrow> macro option" where
  "find_macro name [] = None"
| "find_macro name (m # ms) = (if m_name m = name then Some m else find_macro name ms)"

primrec update_macro :: "cstring \<Rightarrow> (macro \<Rightarrow> macro) \<Rightarrow> macro list \<Rightarrow> macro list" where
  "update_macro name f [] = []"
| "update_macro name f (m # ms) = (if m_name m = name then f m # ms else m # update_macro name f ms)"

primrec remove_macro :: "cstring \<Rightarrow> macro list \<Rightarrow> macro list" where
  "remove_macro name [] = []"
| "remove_macro name (m # ms) = (if m_name m = name then ms else m # remove_macro name ms)"

definition new_macro :: "cstring \<Rightarrow> macro" where
  "new_macro name = \<lparr> m_name = name, m_val = None, m_func = None \<rparr>"

definition ensure_macro :: "cstring \<Rightarrow> macro list \<Rightarrow> macro list" where
  "ensure_macro name ms = (case find_macro name ms of None \<Rightarrow> ms @ [new_macro name] | Some _ \<Rightarrow> ms)"

text \<open>\<open>fmt\<close> is the formatted text, \<open>None\<close> for a null format; it must fit into \<open>buf\<close>.\<close>

definition macro_def_int :: "macro list \<Rightarrow> cstring \<Rightarrow> macro_f option \<Rightarrow> cstring option \<Rightarrow> macro list res" where
  "macro_def_int ms name func fmt = (
     let ms = ensure_macro name ms in
     case func of
       Some f \<Rightarrow> guardR AssertFail (fmt = None)
         (Inr (update_macro name (\<lambda>m. m\<lparr> m_func := Some f \<rparr>) ms))
     | None \<Rightarrow> (case fmt of
         None \<Rightarrow> Inl AssertFail
       | Some txt \<Rightarrow> guardR AssertFail (length txt < 2048)
           (Inr (update_macro name (\<lambda>m. m\<lparr> m_val := Some txt \<rparr>) ms))))"

definition extmacro_def :: "macro list \<Rightarrow> cstring \<Rightarrow> macro_f option \<Rightarrow> cstring option \<Rightarrow> macro list res" where
  "extmacro_def ms name func fmt = macro_def_int ms name func fmt"

text \<open>The name with the instance before it, in \<open>buf1\<close>.\<close>

definition instance_name :: "cstring option \<Rightarrow> cstring \<Rightarrow> cstring res" where
  "instance_name inst name = (case inst of
       None \<Rightarrow> Inr name
     | Some i \<Rightarrow> guardR AssertFail (length (i @ 0x5f # name) < 256) (Inr (i @ 0x5f # name)))"

definition macro_def :: "macro list \<Rightarrow> cstring option \<Rightarrow> cstring \<Rightarrow> cstring \<Rightarrow> macro list res" where
  "macro_def ms inst name txt = bindR (instance_name inst name) (\<lambda>name. macro_def_int ms name None (Some txt))"

definition macro_undef :: "macro list \<Rightarrow> cstring option \<Rightarrow> cstring \<Rightarrow> macro list res" where
  "macro_undef ms inst name = bindR (instance_name inst name) (\<lambda>name. Inr (remove_macro name ms))"

definition macro_isdef :: "macro list \<Rightarrow> cstring option \<Rightarrow> cstring \<Rightarrow> bool res" where
  "macro_isdef ms inst name = bindR (instance_name inst name) (\<lambda>name. Inr (find_macro name ms \<noteq> None))"

text \<open>\<open>strchr\<close> for a byte that is not NUL.\<close>

primrec strchr :: "byte \<Rightarrow> cstring \<Rightarrow> nat option" where
  "strchr c [] = None"
| "strchr c (d # t) = (if d = c then Some 0 else map_option Suc (strchr c t))"

text \<open>The argument of the option \<open>-D\<close>: \<open>None\<close> is the result 0.\<close>

definition parse_D_opt :: "macro list \<Rightarrow> cstring \<Rightarrow> macro list option res" where
  "parse_D_opt ms arg = (case strchr 0x3d arg of
       None \<Rightarrow> Inr None
     | Some i \<Rightarrow> bindR (extmacro_def ms (take i arg) None (Some (drop (i + 1) arg))) (\<lambda>ms. Inr (Some ms)))"

subsection \<open>Macro functions\<close>

record macro_env =
  ign_unknown_macro :: bool
  now_text :: cstring
  ext_func :: "nat \<Rightarrow> nat \<Rightarrow> arg_slot list \<Rightarrow> cstring option \<times> macro_error option"

text \<open>An argument as a C string.\<close>

definition arg_str :: "arg_slot list \<Rightarrow> nat \<Rightarrow> cstring res" where
  "arg_str argv i = bindR (nthR argv i) (\<lambda>x. case x of
       SlotArg a \<Rightarrow> Inr (takeWhile (\<lambda>c. c \<noteq> 0) a)
     | _ \<Rightarrow> Inl Undefined)"

text \<open>The assignment of an \<open>int64_t\<close> to an \<open>int\<close>.\<close>

definition to_int :: "int \<Rightarrow> int" where
  "to_int i = sint (word_of_int i :: 32 word)"

definition string_repeat :: "nat \<Rightarrow> arg_slot list \<Rightarrow> (cstring option \<times> macro_error option) res" where
  "string_repeat argc argv = (
     if argc \<noteq> 4 then Inr (None, Some err_repeat_arguments)
     else bindR (arg_str argv 2) (\<lambda>p.
       bindR (SF_Parse_Integer (p @ [0])) (\<lambda>(v, err, p).
       case err of Some e \<Rightarrow> Inr (None, Some (err_number e))
       | None \<Rightarrow>
         let i = to_int v in
         bindR (nthR p 0) (\<lambda>c.
         if c \<noteq> 0 \<or> i < 0 then Inr (None, Some err_repetitions)
         else bindR (arg_str argv 3) (\<lambda>s. Inr (Some (concat (replicate (nat i) s)), None))))))"

definition func_string :: "nat \<Rightarrow> arg_slot list \<Rightarrow> (cstring option \<times> macro_error option) res" where
  "func_string argc argv = guardR AssertFail (argc \<ge> 2) (
     if argc = 2 then Inr (None, Some err_missing_action)
     else bindR (arg_str argv 2) (\<lambda>action.
       if action = cstr ''repeat'' then string_repeat (argc - 1) (drop 1 argv)
       else Inr (None, Some err_unknown_action)))"

definition func_date :: "cstring \<Rightarrow> nat \<Rightarrow> (cstring option \<times> macro_error option) res" where
  "func_date now argc = guardR AssertFail (argc \<ge> 2) (
     if argc > 2 then Inr (None, Some err_takes_no_arguments) else Inr (Some now, None))"

definition call_macro :: "macro_env \<Rightarrow> macro_f \<Rightarrow> nat \<Rightarrow> arg_slot list \<Rightarrow> (cstring option \<times> macro_error option) res" where
  "call_macro env f argc argv = (case f of
       macro_func_date \<Rightarrow> func_date (now_text env) argc
     | macro_func_string \<Rightarrow> func_string argc argv
     | macro_func_ext n \<Rightarrow> Inr (ext_func env n argc argv))"

subsection \<open>Expansion\<close>

text \<open>What the macro found gives: \<open>retval\<close> and \<open>err\<close>.\<close>

definition macro_value :: "macro_env \<Rightarrow> macro option \<Rightarrow> nat \<Rightarrow> arg_slot list \<Rightarrow> (cstring option \<times> macro_error option) res" where
  "macro_value env m argc argv = (case m of
       None \<Rightarrow> Inr (None, None)
     | Some m \<Rightarrow> (case m_func m of
         Some f \<Rightarrow> guardR AssertFail (m_val m = None) (bindR (call_macro env f argc argv) (\<lambda>(retval, err).
           guardR AssertFail (err = None \<longrightarrow> retval \<noteq> None) (Inr (retval, err))))
       | None \<Rightarrow> (case m_val m of
           None \<Rightarrow> Inl AssertFail
         | Some v \<Rightarrow> if argc = 2 then Inr (Some v, None) else Inr (None, Some err_takes_no_arguments))))"

text \<open>What is appended to the string buffer for the text from \<open>b\<close> to \<open>e\<close>.\<close>

definition macro_cat :: "macro_env \<Rightarrow> macro list \<Rightarrow> cstring \<Rightarrow> cstring res" where
  "macro_cat env ms t = bindR (VAV_ParseTxt t ARGV_COMMA) (\<lambda>(argv, argc).
     bindR (nthR argv 0) (\<lambda>err0. guardR Fatal (err0 = SlotNull) (
     case argc of None \<Rightarrow> Inl Undefined
     | Some argc \<Rightarrow> guardR AssertFail (argc \<ge> 2) (
       bindR (arg_str argv 1) (\<lambda>name.
       bindR (macro_value env (find_macro name ms) argc argv) (\<lambda>(retval, err).
       bindR (VAV_Free argv) (\<lambda>_.
       guardR Fatal (err = None) (case retval of
         None \<Rightarrow> guardR Fatal (ign_unknown_macro env) (Inr ([0x24, 0x7b] @ takeWhile (\<lambda>c. c \<noteq> 0) t @ [0x7d]))
       | Some v \<Rightarrow> Inr v))))))))"

text \<open>\<open>strstr\<close> for the two bytes that open a reference.\<close>

fun strstr_ref :: "cstring \<Rightarrow> nat option" where
  "strstr_ref (c # d # t) = (if c = 0x24 \<and> d = 0x7b then Some 0 else map_option Suc (strstr_ref (d # t)))"
| "strstr_ref t = None"

function macro_expand :: "macro_env \<Rightarrow> macro list \<Rightarrow> cstring \<Rightarrow> cstring res" where
  "macro_expand env ms t = (if t = [] then Inr []
     else case strstr_ref t of
       None \<Rightarrow> Inr t
     | Some i \<Rightarrow> (let p = drop i t in case strchr 0x7d p of
         None \<Rightarrow> Inr (take i t @ t)
       | Some j \<Rightarrow> guardR AssertFail (take 2 p = [0x24, 0x7b] \<and> p ! j = 0x7d) (
           bindR (macro_cat env ms (take (j - 2) (drop 2 p))) (\<lambda>v.
           bindR (macro_expand env ms (drop (j + 1) p)) (\<lambda>r. Inr (take i t @ v @ r))))))"
  by pat_completeness auto
termination
  by (relation "measure (\<lambda>(_, _, t). length t)") auto

declare macro_expand.simps [simp del]

subsection \<open>The list as a finite map\<close>

text \<open>
  What the users of the macro list rely on: a table in which an entry is created when it is first
  updated, with the functions \<open>keeps n\<close> on entries that are applied to the entry of \<open>n\<close>.
\<close>

locale binding_table =
  fixes inv :: "'s \<Rightarrow> bool"
    and get :: "'s \<Rightarrow> 'n \<Rightarrow> 'v option"
    and fresh :: "'n \<Rightarrow> 'v"
    and keeps :: "'n \<Rightarrow> ('v \<Rightarrow> 'v) \<Rightarrow> bool"
    and upd :: "'n \<Rightarrow> ('v \<Rightarrow> 'v) \<Rightarrow> 's \<Rightarrow> 's"
    and del :: "'n \<Rightarrow> 's \<Rightarrow> 's"
  assumes inv_upd: "inv s \<Longrightarrow> keeps n g \<Longrightarrow> inv (upd n g s)"
    and get_upd: "inv s \<Longrightarrow> keeps n g \<Longrightarrow>
      get (upd n g s) = (get s)(n \<mapsto> g (case get s n of None \<Rightarrow> fresh n | Some v \<Rightarrow> v))"
    and inv_del: "inv s \<Longrightarrow> inv (del n s)"
    and get_del: "inv s \<Longrightarrow> get (del n s) = (get s)(n := None)"
begin

definition table_op :: "('n \<times> ('v \<Rightarrow> 'v)) + 'n \<Rightarrow> 's \<Rightarrow> 's" where
  "table_op x = (case x of Inl (n, g) \<Rightarrow> upd n g | Inr n \<Rightarrow> del n)"

definition map_op :: "('n \<times> ('v \<Rightarrow> 'v)) + 'n \<Rightarrow> ('n \<Rightarrow> 'v option) \<Rightarrow> 'n \<Rightarrow> 'v option" where
  "map_op x m = (case x of
      Inl (n, g) \<Rightarrow> m(n \<mapsto> g (case m n of None \<Rightarrow> fresh n | Some v \<Rightarrow> v))
    | Inr n \<Rightarrow> m(n := None))"

lemma table_op_refines:
  "inv s \<Longrightarrow> (\<And>n g. x = Inl (n, g) \<Longrightarrow> keeps n g) \<Longrightarrow> inv (table_op x s) \<and> get (table_op x s) = map_op x (get s)"
  by (auto simp: table_op_def map_op_def inv_upd get_upd inv_del get_del split: sum.splits)

lemma table_ops_refine:
  "inv s \<Longrightarrow> (\<And>n g. Inl (n, g) \<in> set xs \<Longrightarrow> keeps n g) \<Longrightarrow>
     inv (fold table_op xs s) \<and> get (fold table_op xs s) = fold map_op xs (get s)"
proof (induction xs arbitrary: s)
  case (Cons x xs)
  then have "inv (table_op x s) \<and> get (table_op x s) = map_op x (get s)"
    by (intro table_op_refines) auto
  then show ?case using Cons.IH [of "table_op x s"] Cons.prems by auto
qed simp

lemma del_after_upd: "inv s \<Longrightarrow> keeps n g \<Longrightarrow> get s n = None \<Longrightarrow> get (del n (upd n g s)) = get s"
  by (simp add: inv_upd get_upd get_del fun_upd_idem)

end

definition named :: "macro list \<Rightarrow> bool" where
  "named ms = distinct (map m_name ms)"

definition keeps_name :: "cstring \<Rightarrow> (macro \<Rightarrow> macro) \<Rightarrow> bool" where
  "keeps_name n g = (\<forall>m. m_name m = n \<longrightarrow> m_name (g m) = n)"

definition put_macro :: "cstring \<Rightarrow> (macro \<Rightarrow> macro) \<Rightarrow> macro list \<Rightarrow> macro list" where
  "put_macro n g ms = update_macro n g (ensure_macro n ms)"

lemma find_macro_None: "find_macro n ms = None \<longleftrightarrow> n \<notin> m_name ` set ms"
  by (induction ms) auto

lemma find_macro_append: "find_macro n (ms @ ms') = (case find_macro n ms of None \<Rightarrow> find_macro n ms' | Some m \<Rightarrow> Some m)"
  by (induction ms) auto

lemma names_update: "keeps_name n g \<Longrightarrow> map m_name (update_macro n g ms) = map m_name ms"
  by (induction ms) (auto simp: keeps_name_def)

lemma find_update:
  "keeps_name n g \<Longrightarrow> find_macro k (update_macro n g ms) = (if k = n then map_option g (find_macro n ms) else find_macro k ms)"
  by (induction ms) (auto simp: keeps_name_def)

lemma set_remove: "m_name ` set (remove_macro n ms) \<subseteq> m_name ` set ms"
  by (induction ms) auto

lemma find_remove: "named ms \<Longrightarrow> find_macro k (remove_macro n ms) = (if k = n then None else find_macro k ms)"
  by (induction ms) (auto simp: named_def find_macro_None)

lemma named_remove: "named ms \<Longrightarrow> named (remove_macro n ms)"
  using set_remove by (induction ms) (auto simp: named_def)

lemma find_ensure:
  "find_macro k (ensure_macro n ms) = (if k = n then Some (case find_macro n ms of None \<Rightarrow> new_macro n | Some m \<Rightarrow> m) else find_macro k ms)"
  by (auto simp: ensure_macro_def find_macro_append new_macro_def split: option.splits)

interpretation mt: binding_table named "\<lambda>ms n. find_macro n ms" new_macro keeps_name put_macro remove_macro
proof
  show "named (put_macro n g ms)" if "named ms" "keeps_name n g" for ms n g
    using that by (auto simp: named_def put_macro_def names_update ensure_macro_def find_macro_None new_macro_def split: option.splits)
  show "(\<lambda>k. find_macro k (put_macro n g ms)) =
      (\<lambda>k. find_macro k ms)(n \<mapsto> g (case find_macro n ms of None \<Rightarrow> new_macro n | Some v \<Rightarrow> v))"
    if "named ms" "keeps_name n g" for ms n g
    using that by (auto simp: put_macro_def find_update find_ensure)
  show "named (remove_macro n ms)" if "named ms" for ms n by (rule named_remove [OF that])
  show "(\<lambda>k. find_macro k (remove_macro n ms)) = (\<lambda>k. find_macro k ms)(n := None)" if "named ms" for ms n
    using find_remove [OF that] by auto
qed

text \<open>A call of one of the operations that change the list, and its effect on a finite map.\<close>

datatype macro_op =
    OpDef "cstring option" cstring cstring
  | OpFunc cstring macro_f
  | OpUndef "cstring option" cstring

definition run_op :: "macro_op \<Rightarrow> macro list \<Rightarrow> macro list res" where
  "run_op x ms = (case x of
      OpDef inst n txt \<Rightarrow> macro_def ms inst n txt
    | OpFunc n f \<Rightarrow> extmacro_def ms n (Some f) None
    | OpUndef inst n \<Rightarrow> macro_undef ms inst n)"

definition full_name :: "cstring option \<Rightarrow> cstring \<Rightarrow> cstring" where
  "full_name inst n = (case inst of None \<Rightarrow> n | Some i \<Rightarrow> i @ [0x5f] @ n)"

definition fits :: "cstring option \<Rightarrow> cstring \<Rightarrow> bool" where
  "fits inst n = (inst \<noteq> None \<longrightarrow> length (full_name inst n) < 256)"

fun op_fits :: "macro_op \<Rightarrow> bool" where
  "op_fits (OpDef inst n txt) = (fits inst n \<and> length txt < 2048)"
| "op_fits (OpFunc n f) = True"
| "op_fits (OpUndef inst n) = fits inst n"

definition entry :: "(cstring \<Rightarrow> macro option) \<Rightarrow> cstring \<Rightarrow> macro" where
  "entry m n = (case m n of None \<Rightarrow> new_macro n | Some x \<Rightarrow> x)"

fun spec_op :: "macro_op \<Rightarrow> (cstring \<Rightarrow> macro option) \<Rightarrow> cstring \<Rightarrow> macro option" where
  "spec_op (OpDef inst n txt) m = m(full_name inst n \<mapsto> (entry m (full_name inst n))\<lparr> m_val := Some txt \<rparr>)"
| "spec_op (OpFunc n f) m = m(n \<mapsto> (entry m n)\<lparr> m_func := Some f \<rparr>)"
| "spec_op (OpUndef inst n) m = m(full_name inst n := None)"

lemma instance_name_fits: "fits inst n \<Longrightarrow> instance_name inst n = Inr (full_name inst n)"
  by (auto simp: instance_name_def fits_def full_name_def split: option.splits)

lemma keeps_name_update [simp]: "keeps_name n (\<lambda>m. m\<lparr> m_val := v \<rparr>)" "keeps_name n (\<lambda>m. m\<lparr> m_func := f \<rparr>)"
  by (simp_all add: keeps_name_def)

text \<open>An operation as one of the table.\<close>

fun table_form :: "macro_op \<Rightarrow> (cstring \<times> (macro \<Rightarrow> macro)) + cstring" where
  "table_form (OpDef inst n txt) = Inl (full_name inst n, \<lambda>m. m\<lparr> m_val := Some txt \<rparr>)"
| "table_form (OpFunc n f) = Inl (n, \<lambda>m. m\<lparr> m_func := Some f \<rparr>)"
| "table_form (OpUndef inst n) = Inr (full_name inst n)"

lemma run_op_table: "op_fits x \<Longrightarrow> run_op x ms = Inr (mt.table_op (table_form x) ms)"
  by (cases x) (simp_all add: run_op_def macro_def_def macro_undef_def extmacro_def_def instance_name_fits
    macro_def_int_def mt.table_op_def put_macro_def Let_def)

lemma spec_op_map: "spec_op x = mt.map_op (table_form x)"
  by (cases x) (auto simp: mt.map_op_def entry_def fun_eq_iff)

lemma run_ops_table:
  "(\<forall>x\<in>set xs. op_fits x) \<Longrightarrow> foldR run_op xs ms = Inr (fold mt.table_op (map table_form xs) ms)"
  by (induction xs arbitrary: ms) (auto simp: run_op_table)

lemma spec_ops_map: "fold spec_op xs m = fold mt.map_op (map table_form xs) m"
  by (induction xs arbitrary: m) (auto simp: spec_op_map)

lemma table_form_keeps: "table_form x = Inl (n, g) \<Longrightarrow> keeps_name n g"
  by (cases x) auto

text \<open>
  C14.  Any sequence of definitions of values and of functions and of removals, from the empty list and
  with names and values that fit into their buffers, ends without a fault; the macro list then has
  no name twice and finds for each name what the same sequence makes of a finite map, in
  which a definition sets the value or the function of the entry and leaves the other as it was,
  and \<open>macro_isdef\<close> says whether the name is in that map.
\<close>

theorem macro_ops_refine:
  assumes "\<forall>x\<in>set xs. op_fits x" and "fits inst k"
  shows "\<exists>ms. foldR run_op xs [] = Inr ms \<and> distinct (map m_name ms) \<and>
    (\<forall>n. find_macro n ms = fold spec_op xs (\<lambda>_. None) n) \<and>
    macro_isdef ms inst k = Inr (fold spec_op xs (\<lambda>_. None) (full_name inst k) \<noteq> None)"
proof -
  let ?ms = "fold mt.table_op (map table_form xs) []"
  have "named ?ms \<and> (\<lambda>n. find_macro n ?ms) = fold mt.map_op (map table_form xs) (\<lambda>n. find_macro n [])"
    by (rule mt.table_ops_refine) (auto simp: named_def dest: table_form_keeps [OF sym])
  then show ?thesis using run_ops_table [OF assms(1)] assms(2)
    by (auto simp: named_def spec_ops_map macro_isdef_def instance_name_fits fun_eq_iff)
qed

theorem macro_ops_refine_witness:
  "\<exists>ms. foldR run_op [OpFunc [0x64] macro_func_date, OpDef (Some [0x73]) [0x61] [0x31], OpUndef None [0x64]] [] = Inr ms \<and>
     distinct (map m_name ms) \<and> find_macro [0x64] ms = None \<and>
     macro_isdef ms None [0x73, 0x5f, 0x61] = Inr True"
  using macro_ops_refine [of "[OpFunc [0x64] macro_func_date, OpDef (Some [0x73]) [0x61] [0x31], OpUndef None [0x64]]"
    None "[0x73, 0x5f, 0x61]"]
  by (auto simp: fits_def full_name_def)

subsection \<open>References\<close>

text \<open>A name that parses as one argument.\<close>

definition plain :: "byte \<Rightarrow> bool" where
  "plain c = (\<not> c_isspace c \<and> c \<notin> {0, 0x22, 0x2c, 0x5c, 0x7d})"

lemma decode_plain: "0x5c \<notin> set s \<Longrightarrow> VAV_BackSlashDecode s (length s) = Inr (Some s)"
proof (induction s)
  case Nil
  then show ?case by (simp add: VAV_BackSlashDecode.simps)
next
  case (Cons c s)
  then show ?case by (subst VAV_BackSlashDecode.simps) auto
qed

lemma scan_plain:
  "\<forall>c\<in>set t. plain c \<Longrightarrow> b \<le> length t \<Longrightarrow> scan_arg flag t False b = Inr (Inr (length t, None))"
proof (induction "length t - b" arbitrary: b)
  case 0
  then show ?case by (subst scan_arg.simps) simp
next
  case (Suc n)
  then have b: "b < length t" by simp
  then have "plain (t ! b)" using Suc.prems(1) nth_mem by blast
  then have "scan_round flag t False b = Inr (Inr (b + 1))" using b by (auto simp: scan_round_def plain_def)
  then show ?case using b Suc.hyps(1) [of "b + 1"] Suc.hyps(2) Suc.prems(1) by (subst scan_arg.simps) simp
qed

lemma ParseTxt_plain:
  assumes "\<forall>c\<in>set t. plain c" and "t \<noteq> []"
  shows "\<exists>argv. VAV_ParseTxt t ARGV_COMMA = Inr (argv, Some 2) \<and> argv_of argv [t]"
proof -
  have t0: "plain (t ! 0)" "0 < length t" using assms by auto
  then have c: "\<not> c_isspace (t ! 0)" "t ! 0 \<noteq> 0x22" "t ! 0 \<noteq> 0x2c" by (auto simp: plain_def)
  have fl: "\<not> has_flag ARGV_COMMA ARGV_NOESC" "\<not> has_flag ARGV_COMMA ARGV_COMMENT" by (simp_all add: has_flag_def)
  have "0x5c \<notin> set t" using assms(1) by (auto simp: plain_def)
  then have "new_arg ARGV_COMMA t 0 (length t) = Inr t" using decode_plain [of t] fl(1) by (simp add: new_arg_def)
  moreover obtain argv where a: "updR (grow_argv (replicate 16 SlotNull) 1) 1 (SlotArg t) = Inr argv" "filled argv 2 [t]"
    using filled_store [OF filled_init, of t] by (metis append_Nil one_add_one)
  ultimately have "read_arg ARGV_COMMA t (replicate 16 SlotNull) 1 False 0 = Inr (Inr (argv, length t, None))"
    using scan_plain [OF assms(1), of 0 ARGV_COMMA] by (simp add: read_arg_def)
  then have "parse_arg ARGV_COMMA t (replicate 16 SlotNull) 1 0 = Inr (Inr (argv, length t, None))"
    using t0(2) c by (simp add: parse_arg_def)
  then have "VAV_ParseTxt t ARGV_COMMA = parse_args ARGV_COMMA t argv 2 (length t) None"
    unfolding VAV_ParseTxt_def using t0(2) c fl by (subst parse_args.simps) (simp add: at_sep_def numeral_2_eq_2)
  also have "\<dots> = Inr (argv[2 := SlotNull], Some 2)"
    using a(2) by (subst parse_args.simps) (simp add: finish_argv_def updR_def filled_def)
  finally show ?thesis using filled_null [OF a(2)] by blast
qed

lemma macro_cat_plain:
  assumes "\<forall>c\<in>set n. plain c" and "n \<noteq> []"
  shows "\<exists>argv. macro_cat env ms n = bindR (macro_value env (find_macro n ms) 2 argv) (\<lambda>(retval, err).
    guardR Fatal (err = None) (case retval of
         None \<Rightarrow> guardR Fatal (ign_unknown_macro env) (Inr ([0x24, 0x7b] @ n @ [0x7d]))
       | Some v \<Rightarrow> Inr v))"
proof -
  obtain argv where a: "VAV_ParseTxt n ARGV_COMMA = Inr (argv, Some 2)" "argv_of argv [n]"
    using ParseTxt_plain [OF assms] by auto
  then obtain r where "argv = SlotNull # SlotArg n # SlotNull # r"
    by (cases argv; cases "tl argv"; cases "tl (tl argv)") (auto simp: argv_of_def)
  then have s: "nthR argv 0 = Inr SlotNull" "nthR argv (Suc 0) = Inr (SlotArg n)" by simp_all
  have n: "takeWhile (\<lambda>c. c \<noteq> 0) n = n" using assms(1) by (auto simp: plain_def)
  show ?thesis unfolding macro_cat_def arg_str_def n
    by (rule exI [of _ argv]) (simp add: a s n argv_of_free [OF a(2)] bindR_assoc)
qed

lemma macro_value_plain:
  "m_func m = None \<Longrightarrow> m_val m = Some v \<Longrightarrow> macro_value env (Some m) 2 argv = Inr (Some v, None)"
  by (simp add: macro_value_def)

lemma strchr_append: "c \<notin> set l \<Longrightarrow> strchr c (l @ c # r) = Some (length l)"
  by (induction l) auto

lemma strchr_None: "strchr c t = None \<longleftrightarrow> c \<notin> set t"
  by (induction t) auto

lemma strstr_ref_append: "0x24 \<notin> set l \<Longrightarrow> strstr_ref (l @ 0x24 # 0x7b # r) = Some (length l)"
proof (induction l)
  case (Cons c l)
  then show ?case by (cases l) auto
qed simp

lemma strstr_ref_None: "0x24 \<notin> set t \<Longrightarrow> strstr_ref t = None"
  by (induction t rule: strstr_ref.induct) auto

lemma macro_expand_plain: "0x24 \<notin> set t \<Longrightarrow> macro_expand env ms t = Inr t"
  by (subst macro_expand.simps) (simp add: strstr_ref_None)

text \<open>A reference in braces.\<close>

definition ref_text :: "cstring \<Rightarrow> cstring" where
  "ref_text n = [0x24, 0x7b] @ n @ [0x7d]"

lemma macro_expand_ref:
  assumes "0x24 \<notin> set l" and "0x7d \<notin> set n"
  shows "macro_expand env ms (l @ ref_text n @ r) = bindR (macro_cat env ms n) (\<lambda>v.
    bindR (macro_expand env ms r) (\<lambda>x. Inr (l @ v @ x)))"
proof -
  let ?t = "l @ 0x24 # 0x7b # n @ 0x7d # r"
  have "strstr_ref ?t = Some (length l)" by (rule strstr_ref_append [OF assms(1)])
  moreover have "strchr 0x7d (0x24 # 0x7b # n @ 0x7d # r) = Some (length n + 2)"
    using strchr_append [of "0x7d" "0x24 # 0x7b # n" r] assms(2) by simp
  ultimately show ?thesis unfolding ref_text_def by (subst macro_expand.simps) (simp add: nth_append)
qed

text \<open>A text with references: each with the text before it, and the text after the last.\<close>

definition ref_texts :: "(cstring \<times> cstring) list \<Rightarrow> cstring \<Rightarrow> cstring" where
  "ref_texts ps fin = concat (map (\<lambda>(l, n). l @ ref_text n) ps) @ fin"

definition value_of :: "macro list \<Rightarrow> cstring \<Rightarrow> cstring option" where
  "value_of ms n = (case find_macro n ms of Some m \<Rightarrow> if m_func m = None then m_val m else None | None \<Rightarrow> None)"

definition ref_ok :: "macro list \<Rightarrow> cstring \<times> cstring \<Rightarrow> bool" where
  "ref_ok ms = (\<lambda>(l, n). 0x24 \<notin> set l \<and> n \<noteq> [] \<and> list_all plain n \<and> value_of ms n \<noteq> None)"

lemma macro_cat_value:
  assumes "n \<noteq> []" and "list_all plain n" and "value_of ms n = Some v"
  shows "macro_cat env ms n = Inr v"
proof -
  obtain m where m: "find_macro n ms = Some m" "m_func m = None" "m_val m = Some v"
    using assms(3) by (auto simp: value_of_def split: option.splits if_splits)
  then show ?thesis using macro_cat_plain [of n env ms] assms(1,2) macro_value_plain [OF m(2,3)]
    by (auto simp: list_all_iff)
qed

text \<open>
  C15.  In a text that holds references to macros with values, between pieces without a dollar
  sign, expansion replaces every reference by the value of its macro and leaves the rest as it
  is; values are not expanded again.
\<close>

theorem macro_expand_refs:
  assumes "\<forall>p\<in>set ps. ref_ok ms p" and "0x24 \<notin> set fin"
  shows "macro_expand env ms (ref_texts ps fin) =
    Inr (concat (map (\<lambda>(l, n). l @ the (value_of ms n)) ps) @ fin)"
  using assms(1)
proof (induction ps)
  case Nil
  then show ?case using assms(2) by (simp add: ref_texts_def macro_expand_plain)
next
  case (Cons p ps)
  obtain l n where p: "p = (l, n)" by (cases p)
  then obtain v where v: "0x24 \<notin> set l" "n \<noteq> []" "list_all plain n" "value_of ms n = Some v"
    using Cons.prems by (auto simp: ref_ok_def)
  then have "0x7d \<notin> set n" by (auto simp: list_all_iff plain_def)
  then show ?case using Cons macro_expand_ref [OF v(1), of n env ms "ref_texts ps fin"] macro_cat_value [OF v(2-4), of env]
    by (simp add: p v(4) ref_texts_def)
qed

theorem macro_expand_refs_witness:
  "macro_expand \<lparr> ign_unknown_macro = False, now_text = [], ext_func = (\<lambda>_ _ _. (None, None)) \<rparr>
     [\<lparr> m_name = cstr ''a'', m_val = Some (cstr ''1${a}''), m_func = None \<rparr>]
     (ref_texts [(cstr ''x='', cstr ''a''), ([], cstr ''a'')] (cstr ''.'')) = Inr (cstr ''x=1${a}1${a}.'')"
proof -
  let ?ms = "[\<lparr> m_name = cstr ''a'', m_val = Some (cstr ''1${a}''), m_func = None \<rparr>]"
  have "\<forall>p\<in>set [(cstr ''x='', cstr ''a''), ([], cstr ''a'')]. ref_ok ?ms p" "0x24 \<notin> set (cstr ''.'')" by code_simp+
  note macro_expand_refs [OF this]
  moreover have "the (value_of ?ms (cstr ''a'')) = cstr ''1${a}''" by (simp add: value_of_def)
  ultimately show ?thesis by (simp add: cstr_def)
qed

text \<open>
  When the closing brace of a reference is missing, the text before the reference comes out
  twice.
\<close>

theorem macro_expand_unclosed:
  assumes "0x24 \<notin> set l" and "0x7d \<notin> set r"
  shows "macro_expand env ms (l @ [0x24, 0x7b] @ r) = Inr (l @ l @ [0x24, 0x7b] @ r)"
  using strstr_ref_append [OF assms(1), of r] assms(2)
  by (subst macro_expand.simps) (auto simp: strchr_None [THEN iffD2])

theorem macro_expand_unclosed_witness:
  "macro_expand \<lparr> ign_unknown_macro = False, now_text = [], ext_func = (\<lambda>_ _ _. (None, None)) \<rparr> []
     ([0x61] @ [0x24, 0x7b] @ [0x62]) = Inr ([0x61] @ [0x61] @ [0x24, 0x7b] @ [0x62])"
  by (rule macro_expand_unclosed) simp_all

text \<open>
  C39.  A macro that was registered as a function and is then given a value keeps its function;
  the next reference to it fails the assertion that a function has no value.
\<close>

theorem macro_func_redefined:
  assumes "n \<noteq> []" and "list_all plain n" and "extmacro_def ms n (Some f) None = Inr ms1"
    and "macro_def ms1 None n v = Inr ms2"
  shows "macro_expand env ms2 (ref_text n) = Inl AssertFail"
proof -
  have "ms1 = put_macro n (\<lambda>m. m\<lparr> m_func := Some f \<rparr>) ms"
    using assms(3) by (simp add: extmacro_def_def macro_def_int_def put_macro_def Let_def)
  moreover have "ms2 = put_macro n (\<lambda>m. m\<lparr> m_val := Some v \<rparr>) ms1"
    using assms(4) by (auto simp: macro_def_def instance_name_def macro_def_int_def put_macro_def Let_def res_iffs)
  ultimately obtain m where "find_macro n ms2 = Some m" "m_func m = Some f" "m_val m = Some v"
    by (auto simp: put_macro_def find_update find_ensure split: option.splits)
  then have "macro_value env (find_macro n ms2) 2 argv = Inl AssertFail" for argv
    by (simp add: macro_value_def)
  then have "macro_cat env ms2 n = Inl AssertFail"
    using macro_cat_plain [of n env ms2] assms(1,2) by (auto simp: list_all_iff)
  moreover have "0x7d \<notin> set n" using assms(2) by (auto simp: list_all_iff plain_def)
  ultimately show ?thesis using macro_expand_ref [of "[]" n env ms2 "[]"] by simp
qed

theorem macro_func_redefined_witness:
  "macro_expand \<lparr> ign_unknown_macro = False, now_text = [], ext_func = (\<lambda>_ _ _. (None, None)) \<rparr>
     [\<lparr> m_name = cstr ''date'', m_val = Some [0x78], m_func = Some macro_func_date \<rparr>] (ref_text (cstr ''date'')) = Inl AssertFail"
proof (rule macro_func_redefined [where ms = "[]" and f = macro_func_date and v = "[0x78]"])
  show "cstr ''date'' \<noteq> []" "list_all plain (cstr ''date'')" by code_simp+
  show "extmacro_def [] (cstr ''date'') (Some macro_func_date) None =
      Inr [\<lparr> m_name = cstr ''date'', m_val = None, m_func = Some macro_func_date \<rparr>]" by code_simp
  show "macro_def [\<lparr> m_name = cstr ''date'', m_val = None, m_func = Some macro_func_date \<rparr>] None (cstr ''date'') [0x78] =
      Inr [\<lparr> m_name = cstr ''date'', m_val = Some [0x78], m_func = Some macro_func_date \<rparr>]" by code_simp
qed

text \<open>The number of repetitions is cut to an \<open>int\<close> before it is tested.\<close>

lemma repeat_truncates:
  "func_string 5 [SlotNull, SlotArg (cstr ''string''), SlotArg (cstr ''repeat''), SlotArg (cstr ''4294967297''),
     SlotArg (cstr ''x''), SlotNull] = Inr (Some (cstr ''x''), None)"
  by code_simp

end
