(* ===== verification/Vtc.thy ===== *)
theory Vtc
  imports Macro
begin

text \<open>
  The interpreter of the test language, \<open>parse_string\<close> of \<open>src/vtc.c\<close>, with the list of commands.

  \<^item> The copy of the specification is a buffer of bytes with the terminating NUL at its end, and a
    pointer into it an index.  Quoted tokens are decoded in place, and each token is terminated in
    place by a NUL.
  \<^item> What the interpreter and the commands share is the record \<open>interp\<close>: macros, commands, the
    flags \<open>vtc_error\<close> and \<open>vtc_stop\<close> and the world outside.  The functions that commands point to
    and the loading of extensions are fields of \<open>vtc_env\<close>.  Other threads are not modelled:
    between two commands nothing changes.
  \<^item> \<open>parse_string\<close> calls itself for \<open>loop\<close>, on text that expansion may have made longer, and the
    loop over a quoted token may not end, so both are partial functions.
  \<^item> Properties: a script of quoted, braced and plain tokens runs its commands in order with exactly
    these tokens, macros expanded; a specification that ends in a backslash inside of quotes is
    never left.
\<close>

subsection \<open>Results that may not come\<close>

definition bindO :: "'a res option \<Rightarrow> ('a \<Rightarrow> 'b res option) \<Rightarrow> 'b res option" where
  "bindO m f = Option.bind m (\<lambda>r. case r of Inl e \<Rightarrow> Some (Inl e) | Inr x \<Rightarrow> f x)"

lemma bindO_simps [simp]:
  "bindO (Some (Inr x)) f = f x"
  "bindO (Some (Inl e)) f = Some (Inl e)"
  "bindO None f = None"
  by (simp_all add: bindO_def)

lemma bindO_mono [partial_function_mono]:
  assumes "mono_option B" and "\<And>y. mono_option (\<lambda>f. C y f)"
  shows "mono_option (\<lambda>f. bindO (B f) (\<lambda>y. C y f))"
  unfolding bindO_def
  by (rule bind_mono [OF assms(1)]) (auto split: sum.split simp: monotone_def intro!: option.leq_refl monotoneD [OF assms(2)])

subsection \<open>Commands\<close>

abbreviation (input) CMDS_F_NONE :: u32 where "CMDS_F_NONE \<equiv> 0"
abbreviation (input) CMDS_F_GLOBAL :: u32 where "CMDS_F_GLOBAL \<equiv> 1"
abbreviation (input) CMDS_F_SHUT :: u32 where "CMDS_F_SHUT \<equiv> 2"

text \<open>A function pointer is a number.\<close>

record cmds =
  c_name :: cstring
  c_cmd :: nat
  c_flags :: u32

record 'w interp =
  i_macros :: "macro list"
  i_menv :: macro_env
  icmd_list :: "cmds list"
  vtc_error :: bool
  vtc_stop :: bool
  i_world :: 'w

record 'w vtc_env =
  run_cmd :: "nat \<Rightarrow> cstring list \<Rightarrow> 'w interp \<Rightarrow> 'w interp res"
  autoload :: "cstring \<Rightarrow> 'w interp \<Rightarrow> 'w interp option"
  local_cmds :: "cmds list option"

definition add_cmd :: "cstring \<Rightarrow> nat \<Rightarrow> u32 \<Rightarrow> 'w interp \<Rightarrow> 'w interp" where
  "add_cmd name cmd flags st =
     st\<lparr> icmd_list := \<lparr> c_name = name, c_cmd = cmd, c_flags = flags \<rparr> # icmd_list st \<rparr>"

definition lookup_cmd :: "cstring \<Rightarrow> cmds list \<Rightarrow> cmds option" where
  "lookup_cmd name cs = List.find (\<lambda>c. c_name c = name) cs"

text \<open>\<open>buf\<close> has \<open>BUFSIZ\<close> bytes, 8192 with the C library of GNU.\<close>

definition find_cmd :: "'w vtc_env \<Rightarrow> cstring \<Rightarrow> 'w interp \<Rightarrow> (cmds option \<times> 'w interp) res" where
  "find_cmd env name st = (case lookup_cmd name (icmd_list st) of
       Some cp \<Rightarrow> Inr (Some cp, st)
     | None \<Rightarrow>
         let buf = cstr ''libvtest_ext_'' @ name @ cstr ''.so'' in
         guardR AssertFail (length buf < 8192) (case autoload env buf st of
           None \<Rightarrow> Inr (None, st)
         | Some st \<Rightarrow> Inr (lookup_cmd name (icmd_list st), st)))"

text \<open>The search for the command of a line, and its call.\<close>

definition do_command :: "'w vtc_env \<Rightarrow> cstring list \<Rightarrow> 'w interp \<Rightarrow> 'w interp res" where
  "do_command env args st = bindR (nthR args 0) (\<lambda>name.
     case (case local_cmds env of None \<Rightarrow> None | Some cs \<Rightarrow> lookup_cmd name cs) of
       Some cp \<Rightarrow> run_cmd env (c_cmd cp) args st
     | None \<Rightarrow> bindR (find_cmd env name st) (\<lambda>(cp, st).
         case cp of
           None \<Rightarrow> Inl Fatal
         | Some cp \<Rightarrow>
             if local_cmds env \<noteq> None \<and> c_flags cp AND CMDS_F_GLOBAL = 0 then Inl Fatal
             else run_cmd env (c_cmd cp) args st))"

subsection \<open>Tokens\<close>

abbreviation (input) MAX_TOKENS :: nat where "MAX_TOKENS \<equiv> 200"

text \<open>
  The loop over a quoted token: the buffer, the index of the closing quote or NUL, and the end of
  the decoded text.  An invalid sequence has length 0, and \<open>p\<close> stays where it is.
\<close>

partial_function (option) quote_loop :: "byte list \<Rightarrow> nat \<Rightarrow> nat \<Rightarrow> (byte list \<times> nat \<times> nat) res option" where
  "quote_loop buf p q = bindO (Some (nthR buf p)) (\<lambda>c.
     if c = 0 then Some (Inr (buf, p, q))
     else if \<not> p < length buf - 1 then Some (Inl AssertFail)
     else if c = 0x22 then Some (Inr (buf, p, q))
     else if c = 0x5c then bindO (Some (VAV_BackSlash (drop p buf))) (\<lambda>(r, d).
       bindO (Some (case d of None \<Rightarrow> Inr buf | Some x \<Rightarrow> updR buf q x)) (\<lambda>buf.
       quote_loop buf (p + r) (q + 1)))
     else if c = 0x0a then Some (Inl Fatal)
     else bindO (Some (updR buf q c)) (\<lambda>buf. quote_loop buf (p + 1) (q + 1)))"

function brace_loop :: "byte list \<Rightarrow> nat \<Rightarrow> int \<Rightarrow> nat res" where
  "brace_loop buf p nest_brace = (if p < length buf - 1 then
       if buf ! p = 0x7b then brace_loop buf (p + 1) (nest_brace + 1)
       else if buf ! p = 0x7d then
         if nest_brace - 1 = 0 then Inr p else brace_loop buf (p + 1) (nest_brace - 1)
       else brace_loop buf (p + 1) nest_brace
     else Inr p)"
  by pat_completeness auto
termination
  by (relation "measure (\<lambda>(buf, p, _). length buf - p)") auto

function word_loop :: "byte list \<Rightarrow> nat \<Rightarrow> nat" where
  "word_loop buf p = (if p < length buf - 1 \<and> \<not> c_isspace (buf ! p) then word_loop buf (p + 1) else p)"
  by pat_completeness auto
termination
  by (relation "measure (\<lambda>(buf, p). length buf - p)") auto

declare brace_loop.simps [simp del] word_loop.simps [simp del]

text \<open>The tokens of a line, each as \<open>token_s\<close> and \<open>token_e\<close>, and the position after them.\<close>

partial_function (option) collect_tokens ::
  "byte list \<Rightarrow> nat \<Rightarrow> (nat \<times> nat) list \<Rightarrow> (byte list \<times> nat \<times> (nat \<times> nat) list) res option" where
  "collect_tokens buf p toks = (if p < length buf - 1 then
       if \<not> length toks < MAX_TOKENS then Some (Inl AssertFail)
       else if buf ! p = 0x0a then Some (Inr (buf, p, toks))
       else if c_isspace (buf ! p) then collect_tokens buf (p + 1) toks
       else if buf ! p = 0x5c \<and> buf ! (p + 1) = 0x0a then collect_tokens buf (p + 2) toks
       else if buf ! p = 0x22 then bindO (quote_loop buf (p + 1) (p + 1)) (\<lambda>(buf, p', q).
         collect_tokens buf (p' + 1) (toks @ [(p + 1, q)]))
       else if buf ! p = 0x7b then bindO (Some (brace_loop buf p 0)) (\<lambda>p'.
         if buf ! p' = 0x7d then collect_tokens buf (p' + 1) (toks @ [(p + 1, p')])
         else Some (Inl AssertFail))
       else collect_tokens buf (word_loop buf p) (toks @ [(p, word_loop buf p)])
     else Some (Inr (buf, p, toks)))"

datatype token = TokBuf nat | TokText cstring

text \<open>The C string at a position of the buffer.\<close>

definition buf_str :: "byte list \<Rightarrow> nat \<Rightarrow> cstring" where
  "buf_str buf s = takeWhile (\<lambda>c. c \<noteq> 0) (drop s buf)"

fun token_loop :: "macro_env \<Rightarrow> macro list \<Rightarrow> byte list \<Rightarrow> (nat \<times> nat) list \<Rightarrow> (byte list \<times> token list) res" where
  "token_loop env ms buf [] = Inr (buf, [])"
| "token_loop env ms buf ((s, q) # toks) = bindR (updR buf q 0) (\<lambda>buf.
     bindR (if strstr_ref (buf_str buf s) \<noteq> None
            then bindR (macro_expand env ms (buf_str buf s)) (\<lambda>t. Inr (TokText t))
            else Inr (TokBuf s)) (\<lambda>tok.
     bindR (token_loop env ms buf toks) (\<lambda>(buf, toks). Inr (buf, tok # toks))))"

definition token_str :: "byte list \<Rightarrow> token \<Rightarrow> cstring" where
  "token_str buf tok = (case tok of TokBuf s \<Rightarrow> buf_str buf s | TokText t \<Rightarrow> t)"

text \<open>The statements after the tokens are collected, up to the arguments of the command.\<close>

definition finish_line ::
  "macro_env \<Rightarrow> macro list \<Rightarrow> byte list \<Rightarrow> nat \<Rightarrow> (nat \<times> nat) list \<Rightarrow> (byte list \<times> cstring list) res" where
  "finish_line env ms buf p toks = guardR AssertFail (p \<le> length buf - 1 \<and> length toks < MAX_TOKENS) (
     bindR (token_loop env ms buf toks) (\<lambda>(buf, toks). Inr (buf, map (token_str buf) toks)))"

subsection \<open>The interpreter\<close>

text \<open>\<open>strtoul\<close> with base 0.\<close>

definition strtoul :: "cstring \<Rightarrow> nat" where
  "strtoul s = (
     let s = dropWhile c_isspace s;
         neg = (s \<noteq> [] \<and> hd s = 0x2d);
         s = (if s \<noteq> [] \<and> (hd s = 0x2d \<or> hd s = 0x2b) then tl s else s);
         hex = (length s \<ge> 3 \<and> s ! 0 = 0x30 \<and> (s ! 1 = 0x78 \<or> s ! 1 = 0x58) \<and> dig 16 (s ! 2) \<noteq> None);
         base = (if hex then 16 else if s \<noteq> [] \<and> hd s = 0x30 then 8 else 10);
         v = num_val base 0 (digits base (if hex then drop 2 s else s))
     in if v \<ge> 2 ^ 64 then 2 ^ 64 - 1 else if neg then nat ((- v) mod 2 ^ 64) else nat v)"

text \<open>The count and the text of a \<open>loop\<close> line; the count is an \<open>unsigned\<close>.\<close>

definition loop_args :: "cstring list \<Rightarrow> (nat \<times> cstring option) res" where
  "loop_args args = (if length args < 2 then Inl Undefined
     else Inr (strtoul (args ! 1) mod 2 ^ 32, if length args < 3 then None else Some (args ! 2)))"

function comment_loop :: "byte list \<Rightarrow> nat \<Rightarrow> nat" where
  "comment_loop buf p = (if p < length buf \<and> buf ! p \<noteq> 0 \<and> buf ! p \<noteq> 0x0a then comment_loop buf (p + 1) else p)"
  by pat_completeness auto
termination
  by (relation "measure (\<lambda>(buf, p). length buf - p)") auto

declare comment_loop.simps [simp del]

text \<open>
  The loop of \<open>parse_string\<close> over its buffer, and the loop of a \<open>loop\<close> line, which calls
  \<open>parse_string\<close> on the text.
\<close>

datatype activity = Lines "byte list" nat | Loops nat nat "cstring option"

partial_function (option) vtc_run :: "'w vtc_env \<Rightarrow> activity \<Rightarrow> 'w interp \<Rightarrow> 'w interp res option" where
  "vtc_run env act st = (case act of
     Lines buf p \<Rightarrow>
       if p < length buf - 1 then
         if vtc_error st \<or> vtc_stop st then Some (Inr st)
         else if c_isspace (buf ! p) then vtc_run env (Lines buf (p + 1)) st
         else if buf ! p = 0x23 then bindO (Some (nthR buf (comment_loop buf p))) (\<lambda>c.
           if c = 0 then Some (Inr st) else vtc_run env (Lines buf (comment_loop buf p + 1)) st)
         else bindO (collect_tokens buf p []) (\<lambda>(buf, p, toks).
           bindO (Some (finish_line (i_menv st) (i_macros st) buf p toks)) (\<lambda>(buf, args).
           if args = [] then Some (Inl Undefined)
           else if hd args = cstr ''loop'' then bindO (Some (loop_args args)) (\<lambda>(n, text).
             bindO (vtc_run env (Loops 0 n text) st) (\<lambda>st. vtc_run env (Lines buf (p + 1)) st))
           else bindO (Some (do_command env args st)) (\<lambda>st. vtc_run env (Lines buf (p + 1)) st)))
       else Some (Inr st)
   | Loops m n text \<Rightarrow>
       if m < n \<and> \<not> vtc_error st \<and> \<not> vtc_stop st then (case text of
         None \<Rightarrow> Some (Inl AssertFail)
       | Some t \<Rightarrow> bindO (vtc_run env (Lines (t @ [0]) 0) st) (\<lambda>st. vtc_run env (Loops (m + 1) n text) st))
       else Some (Inr st))"

definition parse_string :: "'w vtc_env \<Rightarrow> cstring \<Rightarrow> 'w interp \<Rightarrow> 'w interp res option" where
  "parse_string env spec st = vtc_run env (Lines (spec @ [0]) 0) st"

declare quote_loop.simps [code] collect_tokens.simps [code] vtc_run.simps [code]

subsection \<open>Scripts\<close>

text \<open>The three ways to write a token, and the bytes it stands for.\<close>

datatype tok = Quoted cstring | Braced cstring | Word cstring

fun tok_val :: "tok \<Rightarrow> cstring" where
  "tok_val (Quoted t) = t"
| "tok_val (Braced t) = t"
| "tok_val (Word t) = t"

definition esc_tok :: "cstring \<Rightarrow> cstring" where
  "esc_tok t = concat (map (\<lambda>c. if c = 0x22 \<or> c = 0x5c then [0x5c, c] else if c = 0x0a then [0x5c, 0x6e] else [c]) t)"

fun tok_text :: "tok \<Rightarrow> cstring" where
  "tok_text (Quoted t) = 0x22 # esc_tok t @ [0x22]"
| "tok_text (Braced t) = 0x7b # t @ [0x7d]"
| "tok_text (Word t) = t"

text \<open>Braces are balanced, \<open>n\<close> of them being open.\<close>

fun balanced :: "nat \<Rightarrow> cstring \<Rightarrow> bool" where
  "balanced n [] = (n = 0)"
| "balanced n (c # t) = (if c = 0x7b then balanced (n + 1) t
     else if c = 0x7d then 0 < n \<and> balanced (n - 1) t else balanced n t)"

fun tok_ok :: "tok \<Rightarrow> bool" where
  "tok_ok (Quoted t) = (0 \<notin> set t)"
| "tok_ok (Braced t) = (0 \<notin> set t \<and> balanced 0 t)"
| "tok_ok (Word t) = (t \<noteq> [] \<and> 0 \<notin> set t \<and> list_all (\<lambda>c. \<not> c_isspace c) t \<and> hd t \<notin> {0x22, 0x7b, 0x23})"

definition toks_text :: "tok list \<Rightarrow> cstring" where
  "toks_text ts = concat (map (\<lambda>t. tok_text t @ [0x20]) ts)"

lemma toks_text_simps [simp]: "toks_text [] = []" "toks_text (t # ts) = tok_text t @ 0x20 # toks_text ts"
  by (simp_all add: toks_text_def)

lemma esc_tok_simps [simp]:
  "esc_tok [] = []"
  "esc_tok (c # t) = (if c = 0x22 \<or> c = 0x5c then [0x5c, c] else if c = 0x0a then [0x5c, 0x6e] else [c]) @ esc_tok t"
  by (simp_all add: esc_tok_def)

subsection \<open>Single tokens\<close>

lemma BackSlash_esc: "c = 0x22 \<or> c = 0x5c \<Longrightarrow> VAV_BackSlash (0x5c # c # s) = Inr (2, Some c)"
  unfolding VAV_BackSlash_def by (intro backslash_escaped) (auto simp: length_takeWhile_le)

lemma BackSlash_newline: "VAV_BackSlash (0x5c # 0x6e # s) = Inr (2, Some 0x0a)"
proof -
  have "Suc (Suc (length (takeWhile (\<lambda>c. c \<noteq> 0) s))) \<le> length (0x5c # 0x6e # s)" by (simp add: length_takeWhile_le)
  then show ?thesis unfolding VAV_BackSlash_def by (subst backslash_eq) (auto simp: backslash_switch_def)
qed

lemma drop_less:
  assumes "drop p xs = a @ y # ys" shows "p + length a < length xs"
  using assms by (metis add_leE append_is_Nil_conv drop_drop drop_all drop_eq_Nil length_append length_drop list.distinct(1) not_le append_eq_conv_conj add.commute)

lemma quote_step:
  assumes "quote_loop buf p q = quote_loop (buf[q := c]) (p + k) (q + 1)" and "q \<le> p" and "p < length buf"
    and "\<exists>buf'. quote_loop (buf[q := c]) (p + k) (q + 1) = quote_loop buf' (p + k + m) (q + 1 + length t) \<and>
      length buf' = length buf \<and> take (q + 1) buf' = take (q + 1) (buf[q := c]) \<and>
      drop (q + 1) (take (q + 1 + length t) buf') = t \<and> drop (p + k + m) buf' = X"
  shows "\<exists>buf'. quote_loop buf p q = quote_loop buf' (p + (k + m)) (q + length (c # t)) \<and>
      length buf' = length buf \<and> take q buf' = take q buf \<and>
      drop q (take (q + length (c # t)) buf') = c # t \<and> drop (p + (k + m)) buf' = X"
proof -
  obtain buf' where b: "quote_loop (buf[q := c]) (p + k) (q + 1) = quote_loop buf' (p + k + m) (q + 1 + length t)"
    "length buf' = length buf" "take (q + 1) buf' = take (q + 1) (buf[q := c])"
    "drop (q + 1) (take (q + 1 + length t) buf') = t" "drop (p + k + m) buf' = X"
    using assms(4) by auto
  have "q < length buf'" using assms(2,3) b(2) by simp
  moreover have "buf' ! q = c"
    using arg_cong [OF b(3), of "\<lambda>l. l ! q"] assms(2,3) by simp
  ultimately have "drop q (take (q + 1 + length t) buf') = c # drop (q + 1) (take (q + 1 + length t) buf')"
    by (subst Cons_nth_drop_Suc [symmetric]) auto
  moreover have "take q buf' = take q buf"
    using arg_cong [OF b(3), of "take q"] by simp
  ultimately show ?thesis using assms(1) b by (auto simp: add.assoc)
qed

text \<open>An escaped text is decoded in place, up to what follows it.\<close>

lemma quote_loop_esc:
  "drop p buf = esc_tok t @ X \<Longrightarrow> X \<noteq> [] \<Longrightarrow> q \<le> p \<Longrightarrow> 0 \<notin> set t \<Longrightarrow>
   \<exists>buf'. quote_loop buf p q = quote_loop buf' (p + length (esc_tok t)) (q + length t) \<and>
     length buf' = length buf \<and> take q buf' = take q buf \<and>
     drop q (take (q + length t) buf') = t \<and> drop (p + length (esc_tok t)) buf' = X"
proof (induction t arbitrary: buf p q)
  case Nil
  then show ?case by (intro exI [of _ buf]) simp
next
  case (Cons c t)
  define pre where "pre = (if c = 0x22 \<or> c = 0x5c then [0x5c, c] else if c = 0x0a then [0x5c, 0x6e] else [c])"
  have d: "drop p buf = pre @ esc_tok t @ X" using Cons.prems(1) by (simp add: pre_def)
  have c: "c \<noteq> 0" "0 \<notin> set t" using Cons.prems(4) by auto
  have pre: "pre \<noteq> []" by (simp add: pre_def)
  obtain x X' where X: "X = x # X'" using Cons.prems(2) by (cases X) auto
  have p: "p + length pre + length (esc_tok t) < length buf"
    using drop_less [of p buf "pre @ esc_tok t" x X'] d X by simp
  have "q < p + length pre" using Cons.prems(3) pre by (cases pre) auto
  then have "drop (p + length pre) (buf[q := c]) = drop (length pre) (drop p buf)"
    by (simp only: drop_update_cancel drop_drop add.commute)
  then have rest: "drop (p + length pre) (buf[q := c]) = esc_tok t @ X" by (simp add: d)
  have at: "p < length buf" "buf ! p = hd pre" using drop_at [of p buf "hd pre" "tl pre @ esc_tok t @ X"] d pre by auto
  have q: "q < length buf" using at(1) Cons.prems(3) by simp
  have step: "quote_loop buf p q = quote_loop (buf[q := c]) (p + length pre) (q + 1)"
    using p at q c d BackSlash_esc [of c "esc_tok t @ X"] BackSlash_newline [of "esc_tok t @ X"]
    by (subst quote_loop.simps) (auto simp: pre_def updR_def split: if_splits)
  have e: "length (esc_tok (c # t)) = length pre + length (esc_tok t)" by (simp add: pre_def)
  have "q + 1 \<le> p + length pre" using \<open>q < p + length pre\<close> by simp
  note ih = Cons.IH [OF rest Cons.prems(2) this c(2), unfolded length_list_update]
  show ?case unfolding e by (rule quote_step [OF step Cons.prems(3) at(1) ih])
qed

lemma brace_loop_balanced:
  "drop p buf = t @ 0x7d # X \<Longrightarrow> X \<noteq> [] \<Longrightarrow> balanced n t \<Longrightarrow> brace_loop buf p (int n + 1) = Inr (p + length t)"
proof (induction t arbitrary: p n)
  case Nil
  obtain x X' where "X = x # X'" using Nil.prems(2) by (cases X) auto
  then have "p + 1 < length buf" using drop_less [of p buf "[0x7d]" x X'] Nil.prems(1) by simp
  then show ?case using Nil drop_at [of p buf "0x7d" X] by (subst brace_loop.simps) simp
next
  case (Cons c t)
  obtain x X' where "X = x # X'" using Cons.prems(2) by (cases X) auto
  then have p: "p < length buf - 1" using drop_less [of p buf "c # t @ [0x7d]" x X'] Cons.prems(1) by simp
  have d: "buf ! p = c" "drop (p + 1) buf = t @ 0x7d # X" using drop_at [of p buf c "t @ 0x7d # X"] Cons.prems(1) by auto
  note IH = Cons.IH [OF d(2) Cons.prems(2)]
  consider "c = 0x7b" | "c = 0x7d" | "c \<noteq> 0x7b" "c \<noteq> 0x7d" by blast
  then show ?case
  proof cases
    case 1
    then show ?thesis using IH [of "n + 1"] Cons.prems(3) p d(1) by (subst brace_loop.simps) (simp add: add.commute)
  next
    case 2
    then have "0 < n" "balanced (n - 1) t" using Cons.prems(3) by auto
    then show ?thesis using IH [of "n - 1"] p d(1) 2 by (subst brace_loop.simps) (simp add: of_nat_diff)
  next
    case 3
    then show ?thesis using IH [of n] Cons.prems(3) p d(1) by (subst brace_loop.simps) simp
  qed
qed

lemma word_loop_word:
  "drop p buf = w @ c # X \<Longrightarrow> X \<noteq> [] \<Longrightarrow> list_all (\<lambda>c. \<not> c_isspace c) w \<Longrightarrow> c_isspace c \<Longrightarrow>
     word_loop buf p = p + length w"
proof (induction w arbitrary: p)
  case Nil
  then show ?case using drop_at [of p buf c X] by (subst word_loop.simps) simp
next
  case (Cons a w)
  have "p < length buf - 1" using drop_less [of p buf "a # w" c X] Cons.prems(1) by simp
  then show ?case using Cons drop_at [of p buf a "w @ c # X"] by (subst word_loop.simps) simp
qed

subsection \<open>Lines\<close>

lemma collect_space:
  assumes "drop p buf = 0x20 # X" and "X \<noteq> []" and "length toks < 200"
  shows "collect_tokens buf p toks = collect_tokens buf (p + 1) toks"
proof -
  obtain x X' where "X = x # X'" using assms(2) by (cases X) auto
  then have "p < length buf - 1" using drop_less [of p buf "[0x20]" x X'] assms(1) by simp
  then show ?thesis using drop_at [OF assms(1)] assms(3) by (subst collect_tokens.simps) simp
qed

text \<open>
  One token and the blank after it: collecting goes on behind them, with the value of the token in the
  buffer, and nothing before the token has changed.
\<close>

definition collected :: "byte list \<Rightarrow> nat \<Rightarrow> (nat \<times> nat) list \<Rightarrow> cstring \<Rightarrow> byte list \<Rightarrow> bool" where
  "collected buf p toks v X = (\<exists>buf' s q p'.
     collect_tokens buf p toks = collect_tokens buf' p' (toks @ [(s, q)]) \<and>
     length buf' = length buf \<and> take p buf' = take p buf \<and> p \<le> s \<and> s \<le> q \<and> q < p' \<and>
     drop s (take q buf') = v \<and> drop p' buf' = X)"

lemma drop_less_last: "drop p buf = a @ X \<Longrightarrow> X \<noteq> [] \<Longrightarrow> a \<noteq> [] \<Longrightarrow> p < length buf - 1 \<and> p + length a < length buf"
  using drop_less [of p buf a "hd X" "tl X"] by (cases a) auto

lemma collect_quoted:
  assumes d: "drop p buf = 0x22 # esc_tok v @ 0x22 # 0x20 # X" and X: "X \<noteq> []" and t: "0 \<notin> set v" and n: "length toks + 1 < 200"
  shows "collected buf p toks v X"
proof -
  have len: "p < length buf - 1 \<and> p + length (0x22 # esc_tok v @ [0x22, 0x20]) < length buf"
    using d X by (intro drop_less_last [of p buf _ X]) auto
  have nx: "length (toks @ [k]) < 200" for k :: "nat \<times> nat" using n by simp
  have p: "buf ! p = 0x22" "drop (p + 1) buf = esc_tok v @ 0x22 # 0x20 # X"
    using drop_at [of p buf "0x22"] d by auto
  obtain buf' where b: "quote_loop buf (p + 1) (p + 1) = quote_loop buf' (p + 1 + length (esc_tok v)) (p + 1 + length v)"
    "length buf' = length buf" "take (p + 1) buf' = take (p + 1) buf"
    "drop (p + 1) (take (p + 1 + length v) buf') = v" "drop (p + 1 + length (esc_tok v)) buf' = 0x22 # 0x20 # X"
    using quote_loop_esc [OF p(2), of "p + 1"] t by auto
  let ?e = "p + 1 + length (esc_tok v)"
  note e = drop_at [OF b(5)] and e2 = drop_at(3) [OF b(5)]
  have "quote_loop buf' ?e (p + 1 + length v) = Some (Inr (buf', ?e, p + 1 + length v))"
    using e(1,2) len b(2) by (subst quote_loop.simps) auto
  then have "collect_tokens buf p toks = collect_tokens buf' (?e + 1) (toks @ [(p + 1, p + 1 + length v)])"
    using b(1) p(1) len n by (subst collect_tokens.simps) (simp add: c_isspace_def)
  also have "\<dots> = collect_tokens buf' (?e + 1 + 1) (toks @ [(p + 1, p + 1 + length v)])"
    using e2 X nx by (intro collect_space) auto
  moreover have "length v \<le> length (esc_tok v)" by (induction v) auto
  moreover have "take p buf' = take p buf" using arg_cong [OF b(3), of "take p"] by simp
  moreover have "drop (?e + 1 + 1) buf' = X" using drop_at(3) [of "?e + 1"] e2 by simp
  ultimately show ?thesis using b(2,4) unfolding collected_def
    by (intro exI [of _ buf'] exI [of _ "p + 1"] exI [of _ "p + 1 + length v"] exI [of _ "?e + 1 + 1"]) simp
qed

lemma collect_braced:
  assumes d: "drop p buf = 0x7b # v @ 0x7d # 0x20 # X" and X: "X \<noteq> []" and t: "balanced 0 v" and n: "length toks + 1 < 200"
  shows "collected buf p toks v X"
proof -
  have len: "p < length buf - 1 \<and> p + length (0x7b # v @ [0x7d, 0x20]) < length buf"
    using d X by (intro drop_less_last [of p buf _ X]) auto
  have nx: "length (toks @ [k]) < 200" for k :: "nat \<times> nat" using n by simp
  have p: "buf ! p = 0x7b" "drop (p + 1) buf = v @ 0x7d # 0x20 # X"
    using drop_at [of p buf "0x7b"] d by auto
  let ?e = "p + 1 + length v"
  have de: "drop ?e buf = 0x7d # 0x20 # X" using p(2) by (metis append_eq_conv_conj drop_drop add.commute)
  have "brace_loop buf p 0 = brace_loop buf (p + 1) (int 0 + 1)" using p(1) len by (subst brace_loop.simps) simp
  also have "\<dots> = Inr ?e" using t by (intro brace_loop_balanced [OF p(2)]) auto
  finally have "collect_tokens buf p toks = collect_tokens buf (?e + 1) (toks @ [(p + 1, ?e)])"
    using p(1) len n drop_at(2) [OF de] by (subst collect_tokens.simps) (simp add: c_isspace_def)
  also have "\<dots> = collect_tokens buf (?e + 1 + 1) (toks @ [(p + 1, ?e)])"
    using drop_at(3) [OF de] X nx by (intro collect_space) auto
  moreover have "drop (?e + 1 + 1) buf = X" using drop_at(3) [of "?e + 1"] drop_at(3) [OF de] by simp
  moreover have "drop (p + 1) (take ?e buf) = v" using p(2) by (simp add: drop_take)
  ultimately show ?thesis unfolding collected_def
    by (intro exI [of _ buf] exI [of _ "p + 1"] exI [of _ ?e] exI [of _ "?e + 1 + 1"]) simp
qed

lemma collect_word:
  assumes d: "drop p buf = w @ 0x20 # X" and X: "X \<noteq> []" and t: "tok_ok (Word w)" and n: "length toks + 1 < 200"
  shows "collected buf p toks w X"
proof -
  have len: "p < length buf - 1 \<and> p + length (w @ [0x20]) < length buf"
    using d X by (intro drop_less_last [of p buf _ X]) auto
  have nx: "length (toks @ [k]) < 200" for k :: "nat \<times> nat" using n by simp
  obtain c w' where w: "w = c # w'" using t by (cases w) auto
  let ?e = "p + length w"
  note p = d
  have de: "drop ?e buf = 0x20 # X" using p by (metis append_eq_conv_conj drop_drop add.commute)
  have c: "buf ! p = c" "\<not> c_isspace c" "c \<noteq> 0x0a" "c \<noteq> 0x22" "c \<noteq> 0x7b"
    using drop_at [of p buf c] p w t by (auto simp: c_isspace_def)
  have nl: "buf ! (p + 1) \<noteq> 0x0a"
  proof (cases w')
    case Nil
    then show ?thesis using drop_at(2) [OF de] w by simp
  next
    case (Cons c2 w2)
    then show ?thesis using drop_at(3) [of p buf c] drop_at(2) [of "p + 1" buf c2] p w t by (auto simp: c_isspace_def)
  qed
  have "word_loop buf p = ?e" using t X by (intro word_loop_word [OF p]) auto
  then have "collect_tokens buf p toks = collect_tokens buf ?e (toks @ [(p, ?e)])"
    using c nl len n by (subst collect_tokens.simps) simp
  also have "\<dots> = collect_tokens buf (?e + 1) (toks @ [(p, ?e)])"
    using de X nx by (intro collect_space) auto
  moreover have "drop (?e + 1) buf = X" using drop_at(3) [OF de] by simp
  moreover have "drop p (take ?e buf) = w" using p by (simp add: drop_take)
  ultimately show ?thesis unfolding collected_def
    by (intro exI [of _ buf] exI [of _ p] exI [of _ ?e] exI [of _ "?e + 1"]) simp
qed

lemma collect_token:
  "drop p buf = tok_text t @ 0x20 # X \<Longrightarrow> X \<noteq> [] \<Longrightarrow> tok_ok t \<Longrightarrow> length toks + 1 < 200 \<Longrightarrow>
     collected buf p toks (tok_val t) X"
  by (cases t) (auto intro: collect_quoted collect_braced collect_word)

text \<open>The collected tokens lie in the buffer one behind the other, before \<open>hi\<close>.\<close>

fun laid_out :: "byte list \<Rightarrow> nat \<Rightarrow> (nat \<times> nat) list \<Rightarrow> cstring list \<Rightarrow> nat \<Rightarrow> bool" where
  "laid_out buf lo [] [] hi = (lo \<le> hi)"
| "laid_out buf lo ((s, q) # toks) (v # vs) hi =
     (lo \<le> s \<and> s \<le> q \<and> q < hi \<and> drop s (take q buf) = v \<and> laid_out buf (Suc q) toks vs hi)"
| "laid_out buf lo _ _ hi = False"

lemma take_le_cong: "take n xs = take n ys \<Longrightarrow> m \<le> n \<Longrightarrow> take m xs = take m ys"
  by (metis min.absorb1 take_take)

lemma laid_out_cong:
  "laid_out buf lo toks vs hi \<Longrightarrow> take hi buf' = take hi buf \<Longrightarrow> laid_out buf' lo toks vs hi"
proof (induction buf lo toks vs hi rule: laid_out.induct)
  case (2 buf lo s q toks v vs hi)
  then have "take q buf' = take q buf" by (auto intro: take_le_cong)
  then show ?case using 2 by simp
qed simp_all

lemma laid_out_snoc:
  "laid_out buf lo toks vs hi \<Longrightarrow> hi \<le> s \<Longrightarrow> s \<le> q \<Longrightarrow> q < hi' \<Longrightarrow> drop s (take q buf) = v \<Longrightarrow>
     laid_out buf lo (toks @ [(s, q)]) (vs @ [v]) hi'"
  by (induction buf lo toks vs hi rule: laid_out.induct) auto

text \<open>The tokens up to a text that follows them.\<close>

lemma collect_toks:
  "drop p buf = toks_text ts @ X \<Longrightarrow> X \<noteq> [] \<Longrightarrow> list_all tok_ok ts \<Longrightarrow> length toks + length ts < 200 \<Longrightarrow>
   laid_out buf lo toks vs p \<Longrightarrow>
   \<exists>buf' p' toks'. collect_tokens buf p toks = collect_tokens buf' p' toks' \<and> length buf' = length buf \<and>
     laid_out buf' lo toks' (vs @ map tok_val ts) p' \<and> drop p' buf' = X \<and> length toks' = length toks + length ts"
proof (induction ts arbitrary: buf p toks vs)
  case Nil
  then show ?case by auto
next
  case (Cons t ts)
  obtain buf1 s q p1 where 1: "collect_tokens buf p toks = collect_tokens buf1 p1 (toks @ [(s, q)])"
    "length buf1 = length buf" "take p buf1 = take p buf" "p \<le> s" "s \<le> q" "q < p1"
    "drop s (take q buf1) = tok_val t" "drop p1 buf1 = toks_text ts @ X"
    using collect_token [of p buf t "toks_text ts @ X" toks] Cons.prems by (auto simp: collected_def)
  have "laid_out buf1 lo (toks @ [(s, q)]) (vs @ [tok_val t]) p1"
    using laid_out_snoc [OF laid_out_cong [OF Cons.prems(5) 1(3)] 1(4-7)] .
  from Cons.IH [OF 1(8) Cons.prems(2) _ _ this] show ?case using 1(1,2) Cons.prems(3,4) by auto
qed

lemma collect_line:
  assumes "drop p buf = toks_text ts @ 0x0a # X" and "X \<noteq> []" and "list_all tok_ok ts" and "length ts < 200"
  shows "\<exists>buf' p' toks. collect_tokens buf p [] = Some (Inr (buf', p', toks)) \<and> length buf' = length buf \<and>
    laid_out buf' p toks (map tok_val ts) p' \<and> drop p' buf' = 0x0a # X \<and> length toks = length ts"
proof -
  obtain buf' p' toks where c: "collect_tokens buf p [] = collect_tokens buf' p' toks" "length buf' = length buf"
    "laid_out buf' p toks (map tok_val ts) p'" "drop p' buf' = 0x0a # X" "length toks = length ts"
    using collect_toks [OF assms(1), of "[]" p "[]"] assms(3,4) by auto
  have "p' < length buf' - 1" using drop_less_last [of p' buf' "[0x0a]" X] c(4) assms(2) by simp
  then have "collect_tokens buf' p' toks = Some (Inr (buf', p', toks))"
    using drop_at(2) [OF c(4)] c(5) assms(4) by (subst collect_tokens.simps) simp
  then show ?thesis using c by auto
qed

subsection \<open>Termination and expansion of the tokens\<close>

definition expand_tok :: "macro_env \<Rightarrow> macro list \<Rightarrow> cstring \<Rightarrow> cstring res" where
  "expand_tok env ms v = (if strstr_ref v = None then Inr v else macro_expand env ms v)"

fun expand_toks :: "macro_env \<Rightarrow> macro list \<Rightarrow> cstring list \<Rightarrow> cstring list res" where
  "expand_toks env ms [] = Inr []"
| "expand_toks env ms (v # vs) = bindR (expand_tok env ms v) (\<lambda>w. bindR (expand_toks env ms vs) (\<lambda>ws. Inr (w # ws)))"

lemma buf_str_at:
  assumes "s \<le> q" and "q < length buf" and "drop s (take q buf) = v" and "buf ! q = 0" and "0 \<notin> set v"
  shows "buf_str buf s = v"
proof -
  have "drop s buf = drop s (take q buf) @ drop q buf"
    using assms(1,2) by (metis append_take_drop_id drop_append drop_drop drop_take length_take min.absorb2 nat_less_le diff_is_0_eq drop0 append_assoc)
  also have "drop q buf = 0 # drop (Suc q) buf" using assms(2,4) by (simp add: Cons_nth_drop_Suc [symmetric])
  finally show ?thesis using assms(3,5) by (auto simp: buf_str_def takeWhile_append)
qed

lemma laid_out_update:
  "laid_out buf lo toks vs hi \<Longrightarrow> k < lo \<Longrightarrow> laid_out (buf[k := x]) lo toks vs hi"
  by (induction buf lo toks vs hi rule: laid_out.induct) (auto simp: take_update_swap drop_update_cancel)

text \<open>What \<open>token_loop\<close> gives, and that it only writes between \<open>lo\<close> and \<open>hi\<close>.\<close>

definition expanded :: "cstring list res \<Rightarrow> (byte list \<times> token list) res \<Rightarrow> byte list \<Rightarrow> nat \<Rightarrow> nat \<Rightarrow> bool" where
  "expanded r x buf lo hi = (case r of
      Inl f \<Rightarrow> x = Inl f
    | Inr ws \<Rightarrow> \<exists>buf' ts. x = Inr (buf', ts) \<and> map (token_str buf') ts = ws \<and>
        length buf' = length buf \<and> take lo buf' = take lo buf \<and> drop hi buf' = drop hi buf)"

lemma token_loop_expands:
  "laid_out buf lo toks vs hi \<Longrightarrow> hi < length buf \<Longrightarrow> \<forall>v\<in>set vs. 0 \<notin> set v \<Longrightarrow>
     expanded (expand_toks env ms vs) (token_loop env ms buf toks) buf lo hi"
proof (induction toks arbitrary: buf lo vs)
  case Nil
  then show ?case by (cases vs) (auto simp: expanded_def)
next
  case (Cons tok toks)
  obtain s q where tok: "tok = (s, q)" by (cases tok)
  obtain v vs' where vs: "vs = v # vs'" using Cons.prems(1) tok by (cases vs) auto
  let ?b = "buf[q := 0]"
  have q: "lo \<le> s" "s \<le> q" "q < hi" "q < length buf" "drop s (take q buf) = v" "0 \<notin> set v"
    and l: "laid_out ?b (Suc q) toks vs' hi"
    using Cons.prems laid_out_update [of buf "Suc q" toks vs' hi q 0] by (auto simp: tok vs)
  have str: "buf_str b s = v" if "take (Suc q) b = take (Suc q) ?b" "length b = length buf" for b
  proof (rule buf_str_at [OF q(2)])
    show "q < length b" using q(4) that(2) by simp
    show "drop s (take q b) = v" using take_le_cong [OF that(1), of q] q(5) by simp
    show "b ! q = 0" using arg_cong [OF that(1), of "\<lambda>l. l ! q"] q(4) that(2) by simp
  qed (rule q(6))
  have IH: "expanded (expand_toks env ms vs') (token_loop env ms ?b toks) ?b (Suc q) hi"
    using Cons.IH [OF l] Cons.prems(2,3) vs by simp
  have b: "updR buf q 0 = Inr ?b" "buf_str ?b s = v" using q(4) str [of ?b] by (simp_all add: updR_def)
  show ?case
  proof (cases "expand_toks env ms vs'")
    case (Inl f)
    then have "token_loop env ms ?b toks = Inl f" using IH by (simp add: expanded_def)
    then show ?thesis using b Inl
      by (cases "macro_expand env ms v") (auto simp: tok vs expanded_def expand_tok_def)
  next
    case (Inr ws)
    then obtain buf' ts where r: "token_loop env ms ?b toks = Inr (buf', ts)" "map (token_str buf') ts = ws"
      "length buf' = length buf" "take (Suc q) buf' = take (Suc q) ?b" "drop hi buf' = drop hi ?b"
      using IH by (auto simp: expanded_def)
    have "take lo buf' = take lo buf" "drop hi buf' = drop hi buf"
      using take_le_cong [OF r(4), of lo] q r(5) by (simp_all add: drop_update_cancel)
    then show ?thesis using b r Inr str [OF r(4,3)]
      by (cases "macro_expand env ms v") (auto simp: tok vs expanded_def expand_tok_def token_str_def)
  qed
qed

subsection \<open>Whole scripts\<close>

text \<open>A line of tokens and its end, and what it means: expand the tokens, then run the command.\<close>

definition line_text :: "tok list \<Rightarrow> cstring" where
  "line_text ts = toks_text ts @ [0x0a]"

definition script :: "tok list list \<Rightarrow> cstring" where
  "script ls = concat (map line_text ls)"

text \<open>The command of the line is written out, and is not \<open>loop\<close>.\<close>

definition line_ok :: "tok list \<Rightarrow> bool" where
  "line_ok ts = (ts \<noteq> [] \<and> length ts < 200 \<and> list_all tok_ok ts \<and>
     strstr_ref (tok_val (hd ts)) = None \<and> tok_val (hd ts) \<noteq> cstr ''loop'')"

definition run_line :: "'w vtc_env \<Rightarrow> tok list \<Rightarrow> 'w interp \<Rightarrow> 'w interp res" where
  "run_line env ts st = bindR (expand_toks (i_menv st) (i_macros st) (map tok_val ts)) (\<lambda>args. do_command env args st)"

fun run_lines :: "'w vtc_env \<Rightarrow> tok list list \<Rightarrow> 'w interp \<Rightarrow> 'w interp res" where
  "run_lines env [] st = Inr st"
| "run_lines env (ts # ls) st = (if vtc_error st \<or> vtc_stop st then Inr st
     else bindR (run_line env ts st) (run_lines env ls))"

lemma tok_val_nul: "tok_ok t \<Longrightarrow> 0 \<notin> set (tok_val t)"
  by (cases t) auto

lemma toks_text_hd:
  "ts \<noteq> [] \<Longrightarrow> list_all tok_ok ts \<Longrightarrow> \<exists>c r. toks_text ts = c # r \<and> \<not> c_isspace c \<and> c \<noteq> 0x23"
  by (cases ts; cases "hd ts") (auto simp: c_isspace_def neq_Nil_conv)

lemma expand_toks_hd:
  "expand_toks env ms (v # vs) = Inr ws \<Longrightarrow> strstr_ref v = None \<Longrightarrow> ws \<noteq> [] \<and> hd ws = v"
  by (auto simp: expand_tok_def bindR_Inr_iff)

lemma vtc_run_line:
  assumes "drop p buf = line_text ts @ X" and "X \<noteq> []" and ok: "line_ok ts" and go: "\<not> vtc_error st" "\<not> vtc_stop st"
  shows "\<exists>buf' p'. drop p' buf' = X \<and>
    vtc_run env (Lines buf p) st = bindO (Some (run_line env ts st)) (vtc_run env (Lines buf' p'))"
proof -
  have d: "drop p buf = toks_text ts @ 0x0a # X" using assms(1) by (simp add: line_text_def)
  obtain v vs where v: "map tok_val ts = v # vs" "strstr_ref v = None" "v \<noteq> cstr ''loop''"
    using ok by (cases ts) (auto simp: line_ok_def)
  obtain c r where c: "toks_text ts = c # r" "\<not> c_isspace c" "c \<noteq> 0x23"
    using toks_text_hd [of ts] ok by (auto simp: line_ok_def)
  have p: "p < length buf - 1" "buf ! p = c"
    using drop_less_last [of p buf "toks_text ts" "0x0a # X"] drop_at [of p buf c "r @ 0x0a # X"] d c by auto
  obtain buf1 p1 toks where t: "collect_tokens buf p [] = Some (Inr (buf1, p1, toks))" "length buf1 = length buf"
    "laid_out buf1 p toks (map tok_val ts) p1" "drop p1 buf1 = 0x0a # X" "length toks = length ts"
    using collect_line [OF d assms(2)] ok by (auto simp: line_ok_def)
  have p1: "p1 < length buf1 - 1" using drop_less_last [of p1 buf1 "[0x0a]" X] t(4) assms(2) by simp
  have nul: "\<forall>v\<in>set (map tok_val ts). 0 \<notin> set v" using ok tok_val_nul by (auto simp: line_ok_def list_all_iff)
  let ?e = "expand_toks (i_menv st) (i_macros st) (map tok_val ts)"
  have ex: "expanded ?e (token_loop (i_menv st) (i_macros st) buf1 toks) buf1 p p1"
    using token_loop_expands [OF t(3) _ nul] p1 by simp
  have fin: "finish_line (i_menv st) (i_macros st) buf1 p1 toks =
      bindR (token_loop (i_menv st) (i_macros st) buf1 toks) (\<lambda>(buf, toks). Inr (buf, map (token_str buf) toks))"
    using p1 t(5) ok by (simp add: finish_line_def line_ok_def)
  show ?thesis
  proof (cases ?e)
    case (Inl f)
    then show ?thesis using ex p c t(1) go fin
      by (intro exI [of _ X] exI [of _ 0], subst vtc_run.simps) (simp add: expanded_def run_line_def)
  next
    case (Inr ws)
    then obtain buf2 toks2 where r: "token_loop (i_menv st) (i_macros st) buf1 toks = Inr (buf2, toks2)"
      "map (token_str buf2) toks2 = ws" "drop p1 buf2 = drop p1 buf1"
      using ex by (auto simp: expanded_def)
    have ws: "ws \<noteq> []" "hd ws \<noteq> cstr ''loop''" using expand_toks_hd [of _ _ v vs ws] Inr v by auto
    have "drop (p1 + 1) buf2 = X" using drop_at(3) [of p1 buf2] r(3) t(4) by simp
    then show ?thesis using r p c t(1) go fin ws Inr
      by (intro exI [of _ buf2] exI [of _ "p1 + 1"], subst vtc_run.simps) (simp add: run_line_def)
  qed
qed

lemma vtc_run_script:
  "drop p buf = script ls @ [0] \<Longrightarrow> list_all line_ok ls \<Longrightarrow>
     vtc_run env (Lines buf p) st = Some (run_lines env ls st)"
proof (induction ls arbitrary: buf p st)
  case Nil
  then have "\<not> p < length buf - 1" using drop_at(3) [of p buf 0 "[]"] by (auto simp: script_def)
  then show ?case by (subst vtc_run.simps) simp
next
  case (Cons ts ls)
  have d: "drop p buf = line_text ts @ script ls @ [0]" using Cons.prems(1) by (simp add: script_def)
  show ?case
  proof (cases "vtc_error st \<or> vtc_stop st")
    case True
    have "p < length buf - 1" using drop_less_last [OF d] by (simp add: line_text_def)
    then show ?thesis using True by (subst vtc_run.simps) simp
  next
    case False
    then obtain buf' p' where "drop p' buf' = script ls @ [0]"
      "vtc_run env (Lines buf p) st = bindO (Some (run_line env ts st)) (vtc_run env (Lines buf' p'))"
      using vtc_run_line [OF d, of st env] Cons.prems(2) by auto
    then show ?thesis using Cons.IH [of p' buf'] Cons.prems(2) False by (cases "run_line env ts st") auto
  qed
qed

text \<open>
  C3.  The interpreter runs a script as it is meant.  Let each line be a command and its
  arguments, each written as a quoted string with escapes, as a text in balanced braces or as a
  plain word.  Then \<open>parse_string\<close> returns, and it has run the commands in the order of the lines,
  each with exactly these arguments, in which the macros defined at that moment are expanded; it
  stops before the next line when an error or the end of the test was signalled, and ends
  with the first fault of an expansion or of a command.
\<close>

theorem parse_string_script:
  assumes "list_all line_ok ls"
  shows "parse_string env (script ls) st = Some (run_lines env ls st)"
  using vtc_run_script [of 0 "script ls @ [0]" ls env st] assms by (simp add: parse_string_def)

text \<open>An environment whose commands write down what they were called with.\<close>

definition note_env :: "cstring list list vtc_env" where
  "note_env = \<lparr> run_cmd = (\<lambda>_ args st. Inr (st\<lparr> i_world := i_world st @ [args] \<rparr>)), autoload = (\<lambda>_ _. None),
     local_cmds = None \<rparr>"

definition note_st :: "cstring list list interp" where
  "note_st = \<lparr> i_macros = [\<lparr> m_name = cstr ''m'', m_val = Some (cstr ''v''), m_func = None \<rparr>],
     i_menv = \<lparr> ign_unknown_macro = False, now_text = [], ext_func = (\<lambda>_ _ _. (None, None)) \<rparr>,
     icmd_list = [\<lparr> c_name = cstr ''do'', c_cmd = 0, c_flags = 1 \<rparr>], vtc_error = False, vtc_stop = False, i_world = [] \<rparr>"

theorem parse_string_script_witness:
  "(case parse_string note_env (script [[Word (cstr ''do''), Quoted [0x22, 0x0a], Braced (cstr ''{} ${m}'')], [Quoted (cstr ''do'')]]) note_st of
      Some (Inr st) \<Rightarrow> i_world st = [[cstr ''do'', [0x22, 0x0a], cstr ''{} v''], [cstr ''do'']] | _ \<Rightarrow> False)"
proof -
  let ?ls = "[[Word (cstr ''do''), Quoted [0x22, 0x0a], Braced (cstr ''{} ${m}'')], [Quoted (cstr ''do'')]]"
  have "list_all line_ok ?ls" by code_simp
  note parse_string_script [OF this, of note_env note_st]
  moreover have "case run_lines note_env ?ls note_st of
      Inr st \<Rightarrow> i_world st = [[cstr ''do'', [0x22, 0x0a], cstr ''{} v''], [cstr ''do'']] | _ \<Rightarrow> False"
    by code_simp
  ultimately show ?thesis by (auto split: sum.splits)
qed

lemma quote_loop_diverges:
  assumes "quote_loop buf p q = Some y"
  shows "drop p buf \<noteq> [0x5c, 0]"
proof (rule quote_loop.raw_induct [where P = "\<lambda>buf p q y. drop p buf \<noteq> [0x5c, 0]", OF _ assms], goal_cases)
  case (1 loop buf p q y)
  show ?case
  proof
    assume d: "drop p buf = [0x5c, 0]"
    have l: "length buf = p + 2" using arg_cong [OF d, of length] by simp
    have bs: "VAV_BackSlash (drop p buf) = Inr (0, None)"
      unfolding d by (simp add: VAV_BackSlash_def vav_backslash_txt_def)
    have "loop buf p (q + 1) = Some y" using 1(2) drop_at(1,2) [OF d] l bs by simp
    then show False using 1(1) d by blast
  qed
qed

text \<open>
  C40.  A specification that ends, inside of a quoted token, in a backslash is never left: the
  loop over the token stays at the backslash and moves only the end of the decoded text.
\<close>

theorem parse_string_hangs:
  assumes "list_all tok_ok ts" and "length ts < 200" and "0 \<notin> set t" and "\<not> vtc_error st" and "\<not> vtc_stop st"
  shows "parse_string env (toks_text ts @ 0x22 # esc_tok t @ [0x5c]) st = None"
proof -
  let ?buf = "toks_text ts @ 0x22 # esc_tok t @ [0x5c, 0]"
  obtain buf1 p1 toks where 1: "collect_tokens ?buf 0 [] = collect_tokens buf1 p1 toks" 
    "drop p1 buf1 = 0x22 # esc_tok t @ [0x5c, 0]" "length toks = length ts"
    using collect_toks [of 0 ?buf ts "0x22 # esc_tok t @ [0x5c, 0]" "[]" 0 "[]"] assms(1,2) by auto
  note d = drop_at [OF 1(2)]
  obtain buf2 where "quote_loop buf1 (p1 + 1) (p1 + 1) = quote_loop buf2 (p1 + 1 + length (esc_tok t)) (p1 + 1 + length t)"
    "drop (p1 + 1 + length (esc_tok t)) buf2 = [0x5c, 0]"
    using quote_loop_esc [of "p1 + 1" buf1 t "[0x5c, 0]" "p1 + 1"] d(3) assms(3) by auto
  then have "quote_loop buf1 (p1 + 1) (p1 + 1) = None" using quote_loop_diverges by (metis not_None_eq)
  moreover have "p1 < length buf1 - 1" using drop_less_last [of p1 buf1 "0x22 # esc_tok t" "[0x5c, 0]"] 1(2) by simp
  ultimately have "collect_tokens ?buf 0 [] = None"
    using 1(1,3) d(2) assms(2) by (subst 1(1), subst collect_tokens.simps) (simp add: c_isspace_def)
  moreover obtain c r where c: "?buf = c # r" "\<not> c_isspace c" "c \<noteq> 0x23"
    using toks_text_hd [of ts] assms(1) by (cases "ts = []") (auto simp: c_isspace_def)
  moreover have "r \<noteq> []" using c(1) by (cases "toks_text ts") auto
  ultimately show ?thesis unfolding parse_string_def using assms(4,5)
    by (subst vtc_run.simps) simp
qed

theorem parse_string_hangs_witness:
  "parse_string note_env (toks_text [Word (cstr ''do'')] @ 0x22 # esc_tok (cstr ''a b'') @ [0x5c]) note_st = None"
proof (rule parse_string_hangs)
  show "list_all tok_ok [Word (cstr ''do'')]" "0 \<notin> set (cstr ''a b'')" by code_simp+
qed (simp_all add: note_st_def)

text \<open>
  An invalid escape sequence is not reported: the token ends before it, and what follows becomes a
  token of its own, whose first byte the terminator of the first token overwrites.
\<close>

lemma parse_string_bad_escape:
  "(case parse_string note_env (cstr ''do '' @ [0x22] @ cstr ''ab'' @ [0x5c] @ cstr ''qcd'' @ [0x22, 0x0a]) note_st of
      Some (Inr st) \<Rightarrow> i_world st = [[cstr ''do'', cstr ''ab'', []]] | _ \<Rightarrow> False)"
  by code_simp

end
