(* ===== verification/Spec2Isabelle.thy ===== *)
theory Spec2Isabelle
  imports Vend Hpack Terminal Vlu Vbh_Heap Vtc
begin

text \<open>
  VTest2 (\<open>src/src/\<close>) runs test cases against HTTP programs: it plays clients and servers for
  HTTP/1 and HTTP/2, starts processes on a pseudo terminal, and stands on the small library under
  \<open>src/lib/\<close>.  This development models the parts of it that compute, and proves what makes them
  correct.  Everything is a HOL function on explicit state; a failed assertion, a \<open>vtc_fatal\<close> and
  undefined behaviour of C are values of \<open>fault\<close> (theory \<open>VTest_Prelude\<close>), so a theorem that an
  operation returns \<open>Inr\<close> says that it ends without any of them.

  \<^bold>\<open>Parts and theories.\<close>

  \<^item> \<open>VTest_Prelude\<close>: machine types, faults and the result monad, counting loops, and the rules
    \<open>okR_intros\<close> for operations that end without a fault in a state with a given property.
  \<^item> \<open>Vend\<close>: the byte order conversions of \<open>lib/vend.h\<close>.  Encoders and decoders are inverse, use the
    byte order of their names and touch only the bytes of the value.
  \<^item> HPACK, \<open>src/vtc_h2_tbl.c\<close> and \<open>src/vtc_h2_hpack.c\<close>.  \<open>Hpack_Tbl\<close> has the static and the
    dynamic table (\<open>hpk_ctx\<close> is \<open>struct hpk_ctx\<close>); insertion, by name or by index, and resizing
    refine the abstract table that keeps the longest initial part that fits.  \<open>Bitpack\<close> and \<open>Huffman\<close> have the Huffman
    coder over the block iterator, \<open>Huffman_Tables\<close> its data, \<open>Huffman_Dec\<close> the decoder for any
    tables that satisfy the locale \<open>huff_tables\<close>, and \<open>Huffman_Gen\<close> the script
    \<open>src/huffman_gen.py\<close> that generates the tables, with the interpretation of the locale.
    \<open>Hpack\<close> has integers, strings and header fields: what is encoded is decoded to the same value,
    the decoder stays inside of its buffers, and the inputs on which the code fails are shown.
  \<^item> The terminal emulator, \<open>src/teken*.h\<close>, \<open>src/teken.c\<close>, \<open>src/sequences\<close>,
    \<open>src/gensequences\<close>.  \<open>Teken_State\<close> has the structure \<open>teken_t\<close> and the operations on it,
    \<open>Teken_Char\<close> widths, character sets, colours and keys, \<open>Term\<close> the screen of a process and
    the drawing hooks of \<open>src/vtc_process.c\<close>, \<open>Teken_Subr\<close> every subroutine, \<open>Teken\<close> the input
    side with the generated state functions.  \<open>Term_Inv\<close> states the invariant \<open>term_ok\<close>, and which
    faults a short \<open>write(2)\<close> may cause (\<open>okT\<close>), \<open>Teken_Safe\<close> proves it for every subroutine, \<open>Teken_Tabs\<close> describes the tab stops as a set
    (locale \<open>tab_store\<close>), \<open>Terminal\<close> creates the terminal, has the commands that look at the
    screen, and holds the properties of the whole: any bytes that a process writes are processed
    without a failed assertion or an access outside of the screen.
  \<^item> \<open>Vlu\<close>: the line buffer of \<open>lib/vlu.c\<close>.  \<open>VLU_Feed\<close> delivers the lines of its input and keeps
    the unfinished one, \<open>VLU_File\<close> ends on every finite input, and a line longer than the
    buffer keeps \<open>VLU_Feed\<close> from returning.
  \<^item> The binary heap, \<open>lib/vbh.c\<close>.  \<open>Vbh\<close> has its structure, with items in rows of a page, and
    every operation; \<open>Heap_Order\<close> the theory of heap order on any tree of indices (locale
    \<open>heap_tree\<close>), \<open>Vbh_Tree\<close> the bit arithmetic of parents and children with the
    interpretation, \<open>Vbh_Ops\<close> the two trickle loops, \<open>Vbh_Heap\<close> the properties: insertion, deletion
    and reordering keep the heap, and taking items out gives them in order.
  \<^item> \<open>Vct\<close>: character classes and comparison without case, \<open>lib/vct.h\<close> and \<open>lib/vct.c\<close>; \<open>Vnum\<close>: the
    integer parsers of \<open>lib/vnum.c\<close>, whose overflow tests are exact.
  \<^item> \<open>Vav\<close>: argument vectors, \<open>lib/vav.c\<close>.  Parsing is safe on every text, quoted arguments are
    read back, and the vector after an error may lack its terminator.
  \<^item> \<open>Macro\<close>: the macros of the test language, \<open>src/vtc.c\<close> and \<open>src/vtc_main.c\<close>.  The list refines a
    finite map (locale \<open>binding_table\<close>), expansion replaces references by values, and the texts and
    definitions on which it goes wrong are shown.
  \<^item> \<open>Vtc\<close>: the interpreter \<open>parse_string\<close> of \<open>src/vtc.c\<close> with the list of commands.  It decodes and
    terminates tokens in place in its copy of the text; a script runs its commands in order with
    exactly the tokens that are written, and a text that ends in a backslash inside of quotes
    is never left.  It uses \<open>Macro\<close> for the tokens and \<open>Vav\<close> for escapes, as \<open>Macro\<close> uses \<open>Vav\<close> for the
    arguments of a reference and \<open>Vnum\<close> for repetition counts.

  \<^bold>\<open>Bounds and fuel.\<close>  The loops over tab stops run with a fuel of 65536, the number of columns a
  16-bit position can have; that they end before is part of the proof that they return.  The
  invariant of the terminal asks for at least three columns (with two the code aborts, which is
  proved) and fewer than \<open>INT_MAX\<close> cells, which bounds a product that the C code computes in
  \<open>int\<close>.  The heap is used below 0xfffe0000 items, where no index of a child wraps around.  The
  lines of the line buffer are shorter than the buffer.  Where C computes with \<open>int\<close> or \<open>ssize_t\<close>
  values that the input can make large (the lengths of texts in the header tables, the count of
  coded bits, the number parser), the model has the overflow as undefined behaviour.  Texts and
  blocks that are only indexed, as in \<open>Vav\<close>, \<open>Vtc\<close> and \<open>str_decode\<close>, are shorter than 2 GiB, where the
  conversion of their length to \<open>int\<close> is exact.  The loops of the line buffer,
  \<open>vbh_trickledown\<close> and the interpreter are partial functions whose value \<open>None\<close> is not returning; that they return is
  proved where it is claimed.  All other loops are total.

  \<^bold>\<open>Parameters.\<close>  The results of \<open>write(2)\<close>, the regular expression matcher, and the order of the
  decoding tables are arguments of the definitions that use them, as are the callbacks of the heap
  and of the line buffer, \<open>read(2)\<close>, the page size, the current date, the commands of the
  test language, and the loading of extensions and their macro functions.  Memory allocation never fails.

  \<^bold>\<open>Not modelled.\<close>  Sockets, threads, locks, timers, child processes and log output; the parts
  that talk to other programs (Varnish, HAProxy, syslog); compression; numbers, durations and times
  that are C doubles; the string buffers, whose users are modelled with the text they append; the
  JSON parser, which reads the answers of Varnish; the vendored zlib and queue headers.
\<close>

end
